theory Spec2Isabelle
  imports Main "HOL-Library.Sublist"
begin

section \<open>Wildcard pattern matching with an Aho-Corasick machine\<close>

text \<open>
  The repository holds two realisations of one matcher for a pattern with the wildcard
  \<open>?\<close>: \<^verbatim>\<open>17.cpp\<close> (nodes linked by pointers, transitions in a hash map, failure
  links followed while the text is read) and \<^verbatim>\<open>17_double_array_trie.cpp\<close> (nodes
  numbered in a vector, a dense table of 256 links per node completed at build time and
  then flattened into arrays that \<^verbatim>\<open>main\<close> reads).

  Conventions of the embedding:
  \<^item> a byte (\<^verbatim>\<open>char\<close>, \<^verbatim>\<open>unsigned char\<close>) is a \<^typ>\<open>char\<close>;
  \<^item> a \<^verbatim>\<open>short\<close> is an \<^typ>\<open>int\<close> that is passed through \<open>to_short\<close> wherever the
    source narrows a wider value to 16 bits; an \<^verbatim>\<open>int\<close> or \<^verbatim>\<open>size_t\<close> is an
    unbounded \<^typ>\<open>int\<close> or \<^typ>\<open>nat\<close> (the counters stay below \<open>2^31\<close> for every
    input shorter than that);
  \<^item> the heap is an arena: a list of nodes, a pointer is an index into it and
    \<^verbatim>\<open>nullptr\<close> is \<open>None\<close>;
  \<^item> \<^verbatim>\<open>unordered_map\<close> is a map, visited in ascending key order;
    \<^verbatim>\<open>unordered_set\<close> is a duplicate-free list, visited in list order (C++ leaves
    both orders open);
  \<^item> a null dereference and a failed \<^verbatim>\<open>at()\<close> are error values; a loop that may
    run forever is a \<^theory_text>\<open>partial_function\<close>, with \<open>None\<close> for no result.
\<close>

datatype error = NullDeref | OutOfRange

definition to_short :: "int \<Rightarrow> int" where
  "to_short x = signed_take_bit 15 x"

abbreviation wildcard :: char where
  "wildcard \<equiv> CHR ''?''"

subsection \<open>The segmenter (both files, \<^verbatim>\<open>split_to_words\<close>)\<close>

text \<open>
  The loop over the pattern, with the local variables \<open>word\<close>, \<open>pos\<close> and the member
  \<open>words\<close> as arguments. A pair is stored as \<^verbatim>\<open>pair<vector<char>, short>\<close>: the
  position is narrowed.
\<close>

fun split_loop :: "string \<Rightarrow> string \<Rightarrow> int \<Rightarrow> (string \<times> int) list \<Rightarrow> (string \<times> int) list" where
  "split_loop [] word pos words =
     (if word \<noteq> [] then words @ [(word, to_short pos)] else words)"
| "split_loop (c # cs) word pos words =
     (if c = wildcard then
        (if word \<noteq> [] then split_loop cs [] (pos + 1) (words @ [(word, to_short pos)])
         else split_loop cs word (pos + 1) words)
      else split_loop cs (word @ [c]) (pos + 1) words)"

definition split_to_words :: "string \<Rightarrow> (string \<times> int) list" where
  "split_to_words pattern = split_loop pattern [] (- 1) []"

text \<open>
  The specification's notion: \<open>w\<close> is a maximal run of non-wildcard symbols of \<open>p\<close> whose
  last symbol has index \<open>e\<close>.
\<close>

definition maximal_run :: "string \<Rightarrow> string \<Rightarrow> int \<Rightarrow> bool" where
  "maximal_run p w e \<longleftrightarrow>
     (\<exists>xs ys. p = xs @ w @ ys \<and> w \<noteq> [] \<and> wildcard \<notin> set w
        \<and> (xs = [] \<or> last xs = wildcard) \<and> (ys = [] \<or> hd ys = wildcard)
        \<and> e = int (length xs + length w) - 1)"

subsection \<open>\<^verbatim>\<open>17.cpp\<close>: the trie\<close>

record node =
  links :: "char \<rightharpoonup> nat"
  terminal :: bool
  outputs :: "int list"
  link_fail :: "nat option"

definition new_node :: node where
  "new_node = \<lparr>links = Map.empty, terminal = False, outputs = [], link_fail = None\<rparr>"

text \<open>The constructor of \<^verbatim>\<open>Trie\<close> allocates the root first: it is node 0 of the arena.\<close>

definition root :: nat where
  "root = 0"

text \<open>The entries of a transition table in the order in which the model visits them.\<close>

definition entries :: "(char \<rightharpoonup> nat) \<Rightarrow> (char \<times> nat) list" where
  "entries m = List.map_filter (\<lambda>c. map_option (Pair c) (m c)) Enum.enum"

fun add_word_loop :: "node list \<Rightarrow> nat \<Rightarrow> string \<Rightarrow> node list \<times> nat" where
  "add_word_loop st nd [] = (st, nd)"
| "add_word_loop st nd (c # cs) =
     (case links (st ! nd) c of
        Some next_node \<Rightarrow> add_word_loop st next_node cs
      | None \<Rightarrow>
          (let next_node = length st;
               st1 = st @ [new_node];
               st2 = st1[nd := (st1 ! nd)\<lparr>links := (links (st1 ! nd))(c \<mapsto> next_node)\<rparr>]
           in add_word_loop st2 next_node cs))"

definition add_word :: "node list \<Rightarrow> string \<Rightarrow> int \<Rightarrow> node list" where
  "add_word st word ind =
     (case add_word_loop st root word of
        (st1, nd) \<Rightarrow>
          st1[nd := (st1 ! nd)\<lparr>terminal := True, outputs := List.insert ind (outputs (st1 ! nd))\<rparr>])"

subsection \<open>\<^verbatim>\<open>17.cpp\<close>: goto, failure links\<close>

definition goto :: "node list \<Rightarrow> nat \<Rightarrow> char \<Rightarrow> nat option" where
  "goto st state c =
     (case links (st ! state) c of
        Some nd \<Rightarrow> Some nd
      | None \<Rightarrow> if state = root then Some root else None)"

definition failure :: "node list \<Rightarrow> nat \<Rightarrow> nat option" where
  "failure st state = link_fail (st ! state)"

text \<open>
  \<^verbatim>\<open>while (goto_(state, c) == nullptr) state = state->link_fail;\<close> of
  \<^verbatim>\<open>build_failure\<close>. The state handed on is a pointer that may be null; the next
  test of the loop would dereference it.
\<close>

partial_function (option) fail_state :: "node list \<Rightarrow> nat \<Rightarrow> char \<Rightarrow> (error + nat) option" where
  "fail_state st state c =
     (case goto st state c of
        Some _ \<Rightarrow> Some (Inr state)
      | None \<Rightarrow>
          (case link_fail (st ! state) of
             None \<Rightarrow> Some (Inl NullDeref)
           | Some f \<Rightarrow> fail_state st f c))"

text \<open>The body of the inner \<^verbatim>\<open>for\<close> of \<^verbatim>\<open>build_failure\<close> for one edge of \<open>nd\<close>.\<close>

definition set_failure :: "node list \<Rightarrow> nat \<Rightarrow> char \<Rightarrow> nat \<Rightarrow> (error + node list) option" where
  "set_failure st nd c node_next =
     (case link_fail (st ! nd) of
        None \<Rightarrow> Some (Inl NullDeref)
      | Some state0 \<Rightarrow>
          (case fail_state st state0 c of
             None \<Rightarrow> None
           | Some (Inl e) \<Rightarrow> Some (Inl e)
           | Some (Inr state) \<Rightarrow>
               (case goto st state c of
                  None \<Rightarrow> Some (Inl NullDeref)
                | Some f \<Rightarrow>
                    (let out = fold List.insert (outputs (st ! f)) (outputs (st ! node_next))
                     in Some (Inr (st[node_next := (st ! node_next)
                          \<lparr>terminal := (out \<noteq> [] \<or> terminal (st ! node_next)),
                           outputs := out, link_fail := Some f\<rparr>]))))))"

fun failure_edges :: "node list \<Rightarrow> nat \<Rightarrow> (char \<times> nat) list \<Rightarrow> nat list
    \<Rightarrow> (error + node list \<times> nat list) option" where
  "failure_edges st nd [] q = Some (Inr (st, q))"
| "failure_edges st nd ((c, node_next) # es) q =
     (case set_failure st nd c node_next of
        None \<Rightarrow> None
      | Some (Inl e) \<Rightarrow> Some (Inl e)
      | Some (Inr st1) \<Rightarrow> failure_edges st1 nd es (q @ [node_next]))"

text \<open>The \<^verbatim>\<open>while (!q.empty())\<close> of \<^verbatim>\<open>build_failure\<close>.\<close>

partial_function (option) failure_queue :: "node list \<Rightarrow> nat list \<Rightarrow> (error + node list) option" where
  "failure_queue st q =
     (case q of
        [] \<Rightarrow> Some (Inr st)
      | nd # q1 \<Rightarrow>
          (case failure_edges st nd (entries (links (st ! nd))) q1 of
             None \<Rightarrow> None
           | Some (Inl e) \<Rightarrow> Some (Inl e)
           | Some (Inr (st1, q2)) \<Rightarrow> failure_queue st1 q2))"

text \<open>The first loop of \<^verbatim>\<open>build_failure\<close>, over the edges of the root.\<close>

fun failure_root :: "node list \<Rightarrow> (char \<times> nat) list \<Rightarrow> nat list \<Rightarrow> node list \<times> nat list" where
  "failure_root st [] q = (st, q)"
| "failure_root st ((c, nd) # es) q =
     failure_root (st[nd := (st ! nd)\<lparr>link_fail := Some root\<rparr>]) es (q @ [nd])"

definition build_failure :: "node list \<Rightarrow> (error + node list) option" where
  "build_failure st =
     (case failure_root st (entries (links (st ! root))) [] of
        (st1, q) \<Rightarrow> failure_queue st1 q)"

subsection \<open>\<^verbatim>\<open>17.cpp\<close>: the machine\<close>

record machine =
  store :: "node list"
  pattern :: string
  pattern_size :: int
  mstate :: nat
  counter :: int
  window :: "int list"
  window_start :: int
  words :: "(string \<times> int) list"

definition build :: "machine \<Rightarrow> (error + machine) option" where
  "build M =
     (let ws = split_to_words (pattern M);
          st = fold (\<lambda>(word, pos) st. add_word st word pos) ws (store M)
      in case build_failure st of
           None \<Rightarrow> None
         | Some (Inl e) \<Rightarrow> Some (Inl e)
         | Some (Inr st1) \<Rightarrow> Some (Inr (M\<lparr>store := st1, words := ws\<rparr>)))"

definition PatternMatchingMachine :: "string \<Rightarrow> (error + machine) option" where
  "PatternMatchingMachine pat =
     build \<lparr>store = [new_node], pattern = pat, pattern_size = int (length pat),
            mstate = root, counter = 0, window = replicate (length pat) 0,
            window_start = 0, words = []\<rparr>"

text \<open>The loop of \<^verbatim>\<open>match\<close> over the output set; \<^verbatim>\<open>window->at\<close> throws out of range.\<close>

fun match_loop :: "int \<Rightarrow> int \<Rightarrow> int list \<Rightarrow> int list \<Rightarrow> error + int list" where
  "match_loop pos wstart [] win = Inr win"
| "match_loop pos wstart (word_pos # out) win =
     (let pos_relative = pos - word_pos - 1 - wstart in
      if pos_relative < 0 then match_loop pos wstart out win
      else if nat pos_relative < length win
        then match_loop pos wstart out
               (win[nat pos_relative := to_short (win ! nat pos_relative + 1)])
        else Inl OutOfRange)"

definition match :: "machine \<Rightarrow> int \<Rightarrow> nat \<Rightarrow> error + machine" where
  "match M pos state =
     (if \<not> terminal (store M ! state) then Inr M
      else case match_loop pos (window_start M) (outputs (store M ! state)) (window M) of
             Inl e \<Rightarrow> Inl e
           | Inr win \<Rightarrow> Inr (M\<lparr>window := win\<rparr>))"

text \<open>
  The loop of \<^verbatim>\<open>process\<close> that follows failure links (Algorithm 1); it collects the
  states it leaves in \<open>path\<close>.
\<close>

partial_function (option) find_state :: "node list \<Rightarrow> nat \<Rightarrow> char \<Rightarrow> nat list
    \<Rightarrow> (error + nat \<times> nat list) option" where
  "find_state st state c path =
     (case goto st state c of
        Some _ \<Rightarrow> Some (Inr (state, path))
      | None \<Rightarrow>
          (case failure st state of
             None \<Rightarrow> Some (Inl NullDeref)
           | Some f \<Rightarrow> find_state st f c (path @ [state])))"

text \<open>\<^verbatim>\<open>for (auto node : path) node->links[c] = mstate;\<close>\<close>

fun set_path :: "node list \<Rightarrow> nat list \<Rightarrow> char \<Rightarrow> nat \<Rightarrow> node list" where
  "set_path st [] c s = st"
| "set_path st (nd # path) c s =
     set_path (st[nd := (st ! nd)\<lparr>links := (links (st ! nd))(c \<mapsto> s)\<rparr>]) path c s"

text \<open>One call of \<^verbatim>\<open>process\<close>: the new machine and what the call prints.\<close>

definition process :: "machine \<Rightarrow> char \<Rightarrow> (error + machine \<times> int list) option" where
  "process M0 c =
     (let M = M0\<lparr>counter := counter M0 + 1\<rparr> in
      if words M = [] then
        (if counter M < pattern_size M then Some (Inr (M, []))
         else if pattern_size M \<noteq> 0 then Some (Inr (M, [counter M - pattern_size M]))
         else Some (Inr (M, [counter M - 1])))
      else
        (case find_state (store M) (mstate M) c [] of
           None \<Rightarrow> None
         | Some (Inl e) \<Rightarrow> Some (Inl e)
         | Some (Inr (s, path)) \<Rightarrow>
             (case goto (store M) s c of
                None \<Rightarrow> Some (Inl NullDeref)
              | Some s1 \<Rightarrow>
                  (let M1 = M\<lparr>store := set_path (store M) path c s1, mstate := s1\<rparr> in
                   case match M1 (counter M1) (mstate M1) of
                     Inl e \<Rightarrow> Some (Inl e)
                   | Inr M2 \<Rightarrow>
                       if counter M2 < pattern_size M2 then Some (Inr (M2, []))
                       else
                         (case window M2 of
                            [] \<Rightarrow> Some (Inl OutOfRange)
                          | w0 # win \<Rightarrow>
                              Some (Inr (M2\<lparr>window := win @ [0],
                                              window_start := window_start M2 + 1\<rparr>,
                                if w0 = int (length (words M2))
                                then [counter M2 - pattern_size M2] else [])))))))"

text \<open>The loop of \<^verbatim>\<open>main\<close> over the symbols of the text.\<close>

fun process_all :: "machine \<Rightarrow> string \<Rightarrow> (error + machine \<times> int list) option" where
  "process_all M [] = Some (Inr (M, []))"
| "process_all M (c # cs) =
     (case process M c of
        None \<Rightarrow> None
      | Some (Inl e) \<Rightarrow> Some (Inl e)
      | Some (Inr (M1, out1)) \<Rightarrow>
          (case process_all M1 cs of
             None \<Rightarrow> None
           | Some (Inl e) \<Rightarrow> Some (Inl e)
           | Some (Inr (M2, out2)) \<Rightarrow> Some (Inr (M2, out1 @ out2))))"

text \<open>
  \<^verbatim>\<open>main\<close> on a pattern and a text: the symbols above 32 that it reads from the
  standard input. The result is the sequence of the offsets printed.
\<close>

definition main :: "string \<Rightarrow> string \<Rightarrow> (error + int list) option" where
  "main pat text =
     (case PatternMatchingMachine pat of
        None \<Rightarrow> None
      | Some (Inl e) \<Rightarrow> Some (Inl e)
      | Some (Inr M) \<Rightarrow>
          (case process_all M text of
             None \<Rightarrow> None
           | Some (Inl e) \<Rightarrow> Some (Inl e)
           | Some (Inr (M1, out)) \<Rightarrow> Some (Inr out)))"

subsection \<open>\<^verbatim>\<open>17_double_array_trie.cpp\<close>: the trie\<close>

text \<open>
  \<^verbatim>\<open>vector<Node*> nodes\<close> is a list of optional nodes: entry 0 is the null pointer
  that the constructor pushes first, and a non-null \<^verbatim>\<open>Node*\<close> is the index of the
  entry that holds the node. A node keeps 256 links, one per byte, each a node number
  (\<^verbatim>\<open>short\<close>), 0 for no link.
\<close>

record node_dat =
  node_id :: int
  links_dat :: "char \<Rightarrow> int"
  terminal_dat :: bool
  outputs_dat :: "int list"
  link_fail_dat :: "nat option"

definition root_dat :: nat where
  "root_dat = 1"

text \<open>A dereference \<^verbatim>\<open>p->\<close> of a non-null pointer.\<close>

definition deref :: "node_dat option list \<Rightarrow> nat \<Rightarrow> node_dat" where
  "deref nodes p = the (nodes ! p)"

text \<open>\<^verbatim>\<open>nodes[node_id]\<close>: the pointer stored at an index of the vector.\<close>

definition nodes_at :: "node_dat option list \<Rightarrow> int \<Rightarrow> error + nat option" where
  "nodes_at nodes i =
     (if 0 \<le> i \<and> nat i < length nodes
      then Inr (case nodes ! nat i of None \<Rightarrow> None | Some _ \<Rightarrow> Some (nat i))
      else Inl OutOfRange)"

definition add_node :: "node_dat option list \<Rightarrow> node_dat option list \<times> nat" where
  "add_node nodes =
     (nodes @ [Some \<lparr>node_id = to_short (int (length nodes)), links_dat = (\<lambda>c. 0),
                     terminal_dat = False, outputs_dat = [], link_fail_dat = None\<rparr>],
      length nodes)"

definition get_link :: "node_dat option list \<Rightarrow> nat \<Rightarrow> char \<Rightarrow> int" where
  "get_link nodes p c = links_dat (deref nodes p) c"

definition set_link :: "node_dat option list \<Rightarrow> nat \<Rightarrow> char \<Rightarrow> int \<Rightarrow> node_dat option list" where
  "set_link nodes p c i =
     nodes[p := Some ((deref nodes p)\<lparr>links_dat := (links_dat (deref nodes p))(c := i)\<rparr>)]"

fun add_word_loop_dat :: "node_dat option list \<Rightarrow> nat \<Rightarrow> string
    \<Rightarrow> error + node_dat option list \<times> nat" where
  "add_word_loop_dat nodes nd [] = Inr (nodes, nd)"
| "add_word_loop_dat nodes nd (c # cs) =
     (case nodes_at nodes (get_link nodes nd c) of
        Inl e \<Rightarrow> Inl e
      | Inr (Some next_node) \<Rightarrow> add_word_loop_dat nodes next_node cs
      | Inr None \<Rightarrow>
          (case add_node nodes of
             (nodes1, next_node) \<Rightarrow>
               add_word_loop_dat
                 (set_link nodes1 nd c (node_id (deref nodes1 next_node))) next_node cs))"

definition add_word_dat :: "node_dat option list \<Rightarrow> string \<Rightarrow> int
    \<Rightarrow> error + node_dat option list" where
  "add_word_dat nodes word ind =
     (case add_word_loop_dat nodes root_dat word of
        Inl e \<Rightarrow> Inl e
      | Inr (nodes1, nd) \<Rightarrow>
          Inr (nodes1[nd := Some ((deref nodes1 nd)
                 \<lparr>terminal_dat := True,
                  outputs_dat := List.insert ind (outputs_dat (deref nodes1 nd))\<rparr>)]))"

subsection \<open>\<^verbatim>\<open>17_double_array_trie.cpp\<close>: goto, failure links, completion\<close>

definition goto_dat :: "node_dat option list \<Rightarrow> nat \<Rightarrow> char \<Rightarrow> error + nat option" where
  "goto_dat nodes state c = nodes_at nodes (get_link nodes state c)"

partial_function (option) fail_state_dat :: "node_dat option list \<Rightarrow> nat \<Rightarrow> char
    \<Rightarrow> (error + nat) option" where
  "fail_state_dat nodes state c =
     (case goto_dat nodes state c of
        Inl e \<Rightarrow> Some (Inl e)
      | Inr (Some _) \<Rightarrow> Some (Inr state)
      | Inr None \<Rightarrow>
          (case link_fail_dat (deref nodes state) of
             None \<Rightarrow> Some (Inl NullDeref)
           | Some f \<Rightarrow> fail_state_dat nodes f c))"

definition set_failure_dat :: "node_dat option list \<Rightarrow> nat \<Rightarrow> char \<Rightarrow> nat
    \<Rightarrow> (error + node_dat option list) option" where
  "set_failure_dat nodes nd c node_next =
     (case link_fail_dat (deref nodes nd) of
        None \<Rightarrow> Some (Inl NullDeref)
      | Some state0 \<Rightarrow>
          (case fail_state_dat nodes state0 c of
             None \<Rightarrow> None
           | Some (Inl e) \<Rightarrow> Some (Inl e)
           | Some (Inr state) \<Rightarrow>
               (case goto_dat nodes state c of
                  Inl e \<Rightarrow> Some (Inl e)
                | Inr None \<Rightarrow> Some (Inl NullDeref)
                | Inr (Some f) \<Rightarrow>
                    (let out = fold List.insert (outputs_dat (deref nodes f))
                                 (outputs_dat (deref nodes node_next))
                     in Some (Inr (nodes[node_next := Some ((deref nodes node_next)
                          \<lparr>terminal_dat := (out \<noteq> [] \<or> terminal_dat (deref nodes node_next)),
                           outputs_dat := out, link_fail_dat := Some f\<rparr>)]))))))"

text \<open>The inner \<^verbatim>\<open>for\<close> of \<^verbatim>\<open>build_failure\<close> over the 256 links of \<open>nd\<close>.\<close>

fun failure_edges_dat :: "node_dat option list \<Rightarrow> nat \<Rightarrow> char list \<Rightarrow> nat list
    \<Rightarrow> (error + node_dat option list \<times> nat list) option" where
  "failure_edges_dat nodes nd [] q = Some (Inr (nodes, q))"
| "failure_edges_dat nodes nd (c # cs) q =
     (case nodes_at nodes (get_link nodes nd c) of
        Inl e \<Rightarrow> Some (Inl e)
      | Inr None \<Rightarrow> failure_edges_dat nodes nd cs q
      | Inr (Some node_next) \<Rightarrow>
          (case set_failure_dat nodes nd c node_next of
             None \<Rightarrow> None
           | Some (Inl e) \<Rightarrow> Some (Inl e)
           | Some (Inr nodes1) \<Rightarrow> failure_edges_dat nodes1 nd cs (q @ [node_next])))"

partial_function (option) failure_queue_dat :: "node_dat option list \<Rightarrow> nat list
    \<Rightarrow> (error + node_dat option list) option" where
  "failure_queue_dat nodes q =
     (case q of
        [] \<Rightarrow> Some (Inr nodes)
      | nd # q1 \<Rightarrow>
          (case failure_edges_dat nodes nd Enum.enum q1 of
             None \<Rightarrow> None
           | Some (Inl e) \<Rightarrow> Some (Inl e)
           | Some (Inr (nodes1, q2)) \<Rightarrow> failure_queue_dat nodes1 q2))"

text \<open>The first loop of \<^verbatim>\<open>build_failure\<close>: a missing link of the root is set to the root.\<close>

fun failure_root_dat :: "node_dat option list \<Rightarrow> char list \<Rightarrow> nat list
    \<Rightarrow> error + node_dat option list \<times> nat list" where
  "failure_root_dat nodes [] q = Inr (nodes, q)"
| "failure_root_dat nodes (c # cs) q =
     (case nodes_at nodes (get_link nodes root_dat c) of
        Inl e \<Rightarrow> Inl e
      | Inr None \<Rightarrow>
          failure_root_dat (set_link nodes root_dat c (node_id (deref nodes root_dat))) cs q
      | Inr (Some nd) \<Rightarrow>
          failure_root_dat
            (nodes[nd := Some ((deref nodes nd)\<lparr>link_fail_dat := Some root_dat\<rparr>)])
            cs (q @ [nd]))"

definition build_failure_dat :: "node_dat option list \<Rightarrow> (error + node_dat option list) option" where
  "build_failure_dat nodes =
     (case failure_root_dat nodes Enum.enum [] of
        Inl e \<Rightarrow> Some (Inl e)
      | Inr (nodes1, q) \<Rightarrow> failure_queue_dat nodes1 q)"

text \<open>
  \<^verbatim>\<open>do_bfs\<close> (Algorithm 4). Its first loop collects the nodes that the root links to;
  a null pointer pushed there would be dereferenced when it is popped, which the model
  reports at once.
\<close>

fun bfs_root :: "node_dat option list \<Rightarrow> char list \<Rightarrow> nat list \<Rightarrow> error + nat list" where
  "bfs_root nodes [] q = Inr q"
| "bfs_root nodes (c # cs) q =
     (case nodes_at nodes (get_link nodes root_dat c) of
        Inl e \<Rightarrow> Inl e
      | Inr None \<Rightarrow> Inl NullDeref
      | Inr (Some nd) \<Rightarrow>
          if nd \<noteq> root_dat then bfs_root nodes cs (q @ [nd]) else bfs_root nodes cs q)"

fun bfs_edges :: "node_dat option list \<Rightarrow> nat \<Rightarrow> char list \<Rightarrow> nat list
    \<Rightarrow> error + node_dat option list \<times> nat list" where
  "bfs_edges nodes nd [] q = Inr (nodes, q)"
| "bfs_edges nodes nd (c # cs) q =
     (case nodes_at nodes (get_link nodes nd c) of
        Inl e \<Rightarrow> Inl e
      | Inr (Some node_next) \<Rightarrow> bfs_edges nodes nd cs (q @ [node_next])
      | Inr None \<Rightarrow>
          (case link_fail_dat (deref nodes nd) of
             None \<Rightarrow> Inl NullDeref
           | Some state0 \<Rightarrow>
               (case goto_dat nodes state0 c of
                  Inl e \<Rightarrow> Inl e
                | Inr None \<Rightarrow> Inl NullDeref
                | Inr (Some state) \<Rightarrow>
                    bfs_edges (set_link nodes nd c (node_id (deref nodes state))) nd cs q)))"

partial_function (option) bfs_queue :: "node_dat option list \<Rightarrow> nat list
    \<Rightarrow> (error + node_dat option list) option" where
  "bfs_queue nodes q =
     (case q of
        [] \<Rightarrow> Some (Inr nodes)
      | nd # q1 \<Rightarrow>
          (case bfs_edges nodes nd Enum.enum q1 of
             Inl e \<Rightarrow> Some (Inl e)
           | Inr (nodes1, q2) \<Rightarrow> bfs_queue nodes1 q2))"

definition do_bfs :: "node_dat option list \<Rightarrow> (error + node_dat option list) option" where
  "do_bfs nodes =
     (case bfs_root nodes Enum.enum [] of
        Inl e \<Rightarrow> Some (Inl e)
      | Inr q \<Rightarrow> bfs_queue nodes q)"

subsection \<open>\<^verbatim>\<open>17_double_array_trie.cpp\<close>: the machine\<close>

record machine_dat =
  nodes :: "node_dat option list"
  pattern_dat :: string
  pattern_size_dat :: int
  mstate_dat :: nat
  counter_dat :: int
  window_dat :: "int list"
  window_start_dat :: int
  words_dat :: "(string \<times> int) list"

fun add_words_dat :: "node_dat option list \<Rightarrow> (string \<times> int) list
    \<Rightarrow> error + node_dat option list" where
  "add_words_dat ns [] = Inr ns"
| "add_words_dat ns ((word, pos) # ws) =
     (case add_word_dat ns word pos of
        Inl e \<Rightarrow> Inl e
      | Inr ns1 \<Rightarrow> add_words_dat ns1 ws)"

definition build_dat :: "machine_dat \<Rightarrow> (error + machine_dat) option" where
  "build_dat M =
     (let ws = split_to_words (pattern_dat M) in
      case add_words_dat (nodes M) ws of
        Inl e \<Rightarrow> Some (Inl e)
      | Inr ns \<Rightarrow>
          (case build_failure_dat ns of
             None \<Rightarrow> None
           | Some (Inl e) \<Rightarrow> Some (Inl e)
           | Some (Inr ns1) \<Rightarrow>
               (case do_bfs ns1 of
                  None \<Rightarrow> None
                | Some (Inl e) \<Rightarrow> Some (Inl e)
                | Some (Inr ns2) \<Rightarrow> Some (Inr (M\<lparr>nodes := ns2, words_dat := ws\<rparr>)))))"

definition PatternMatchingMachine_dat :: "string \<Rightarrow> (error + machine_dat) option" where
  "PatternMatchingMachine_dat pat =
     build_dat \<lparr>nodes = fst (add_node [None]), pattern_dat = pat,
                pattern_size_dat = int (length pat), mstate_dat = root_dat, counter_dat = 0,
                window_dat = replicate (length pat) 0, window_start_dat = 0, words_dat = []\<rparr>"

definition match_dat :: "machine_dat \<Rightarrow> int \<Rightarrow> nat \<Rightarrow> error + machine_dat" where
  "match_dat M pos state =
     (if \<not> terminal_dat (deref (nodes M) state) then Inr M
      else case match_loop pos (window_start_dat M) (outputs_dat (deref (nodes M) state))
                  (window_dat M) of
             Inl e \<Rightarrow> Inl e
           | Inr win \<Rightarrow> Inr (M\<lparr>window_dat := win\<rparr>))"

text \<open>\<^verbatim>\<open>process\<close> of the class (\<^verbatim>\<open>main\<close> does not call it).\<close>

definition process_dat :: "machine_dat \<Rightarrow> char \<Rightarrow> error + machine_dat \<times> int list" where
  "process_dat M0 c =
     (let M = M0\<lparr>counter_dat := counter_dat M0 + 1\<rparr> in
      if words_dat M = [] then
        (if counter_dat M < pattern_size_dat M then Inr (M, [])
         else if pattern_size_dat M \<noteq> 0 then Inr (M, [counter_dat M - pattern_size_dat M])
         else Inr (M, [counter_dat M - 1]))
      else
        (case goto_dat (nodes M) (mstate_dat M) c of
           Inl e \<Rightarrow> Inl e
         | Inr None \<Rightarrow> Inl NullDeref
         | Inr (Some s1) \<Rightarrow>
             (let M1 = M\<lparr>mstate_dat := s1\<rparr> in
              case match_dat M1 (counter_dat M1) (mstate_dat M1) of
                Inl e \<Rightarrow> Inl e
              | Inr M2 \<Rightarrow>
                  if counter_dat M2 < pattern_size_dat M2 then Inr (M2, [])
                  else
                    (case window_dat M2 of
                       [] \<Rightarrow> Inl OutOfRange
                     | w0 # win \<Rightarrow>
                         Inr (M2\<lparr>window_dat := win @ [0],
                                  window_start_dat := window_start_dat M2 + 1\<rparr>,
                           if w0 = to_short (int (length (words_dat M2)))
                           then [counter_dat M2 - pattern_size_dat M2] else [])))))"

text \<open>
  The calls of \<^verbatim>\<open>process\<close> of the class of \<^verbatim>\<open>17_double_array_trie.cpp\<close> on the symbols of a
  text, one after the other, as \<^verbatim>\<open>main\<close> of \<^verbatim>\<open>17.cpp\<close> makes them (\<^verbatim>\<open>main\<close> of
  \<^verbatim>\<open>17_double_array_trie.cpp\<close> runs its own loop over the flat tables instead).
\<close>

fun process_all_dat :: "machine_dat \<Rightarrow> string \<Rightarrow> error + machine_dat \<times> int list" where
  "process_all_dat M [] = Inr (M, [])"
| "process_all_dat M (c # cs) =
     (case process_dat M c of
        Inl e \<Rightarrow> Inl e
      | Inr (M1, out1) \<Rightarrow>
          (case process_all_dat M1 cs of
             Inl e \<Rightarrow> Inl e
           | Inr (M2, out2) \<Rightarrow> Inr (M2, out1 @ out2)))"

definition run_dat :: "string \<Rightarrow> string \<Rightarrow> (error + machine_dat \<times> int list) option" where
  "run_dat pat text =
     (case PatternMatchingMachine_dat pat of
        None \<Rightarrow> None
      | Some (Inl e) \<Rightarrow> Some (Inl e)
      | Some (Inr M) \<Rightarrow> Some (process_all_dat M text))"

subsection \<open>\<^verbatim>\<open>17_double_array_trie.cpp\<close>: the flat tables and the loop of \<^verbatim>\<open>main\<close>\<close>









subsection \<open>The standard input of the two programs\<close>





section \<open>The segmenter\<close>

lemma to_short_id: "- 32768 \<le> x \<Longrightarrow> x < 32768 \<Longrightarrow> to_short x = x"
  by (simp add: to_short_def signed_take_bit_int_eq_self_iff)

lemma split_loop_acc: "split_loop r word pos acc = acc @ split_loop r word pos []"
proof (induction r arbitrary: word pos acc)
  case Nil
  then show ?case by simp
next
  case (Cons c cs)
  show ?case
    using Cons.IH[of "[]" "pos + 1" "acc @ [(word, to_short pos)]"]
      Cons.IH[of "[]" "pos + 1" "[(word, to_short pos)]"]
      Cons.IH[of word "pos + 1" acc]
      Cons.IH[of "word @ [c]" "pos + 1" acc]
    by auto
qed

lemma maximal_run_plain:
  assumes "wildcard \<notin> set u"
  shows "maximal_run u w k \<longleftrightarrow> w = u \<and> u \<noteq> [] \<and> k = int (length u) - 1"
proof
  assume "maximal_run u w k"
  then obtain xs ys where h: "u = xs @ w @ ys" "w \<noteq> []" "xs = [] \<or> last xs = wildcard"
    "ys = [] \<or> hd ys = wildcard" "k = int (length xs + length w) - 1"
    unfolding maximal_run_def by blast
  have "xs = []"
  proof (rule ccontr)
    assume "xs \<noteq> []"
    then have "last xs \<in> set u" using h(1) by simp
    then show False using h(3) \<open>xs \<noteq> []\<close> assms by auto
  qed
  moreover have "ys = []"
  proof (rule ccontr)
    assume "ys \<noteq> []"
    then have "hd ys \<in> set u" using h(1) by simp
    then show False using h(4) \<open>ys \<noteq> []\<close> assms by auto
  qed
  ultimately show "w = u \<and> u \<noteq> [] \<and> k = int (length u) - 1" using h by simp
next
  assume "w = u \<and> u \<noteq> [] \<and> k = int (length u) - 1"
  then show "maximal_run u w k"
    unfolding maximal_run_def using assms
    by (intro exI[of _ "[]"]) simp
qed

lemma maximal_run_split:
  assumes "wildcard \<notin> set u"
  shows "maximal_run (u @ wildcard # v) w k \<longleftrightarrow>
         (w = u \<and> u \<noteq> [] \<and> k = int (length u) - 1) \<or> maximal_run v w (k - int (length u) - 1)"
proof
  assume "maximal_run (u @ wildcard # v) w k"
  then obtain xs ys where h: "u @ wildcard # v = xs @ w @ ys" "w \<noteq> []" "wildcard \<notin> set w"
    "xs = [] \<or> last xs = wildcard"
    "ys = [] \<or> hd ys = wildcard" "k = int (length xs + length w) - 1"
    unfolding maximal_run_def by blast
  show "(w = u \<and> u \<noteq> [] \<and> k = int (length u) - 1) \<or> maximal_run v w (k - int (length u) - 1)"
  proof (cases "length xs \<le> length u")
    case True
    have "take (length xs) (u @ wildcard # v) = take (length xs) (xs @ w @ ys)"
      using h(1) by simp
    then have "take (length xs) u = xs" using True by simp
    then have "u = xs @ drop (length xs) u" by (metis append_take_drop_id)
    then obtain z where z: "u = xs @ z" by blast
    have xs: "xs = []"
    proof (rule ccontr)
      assume "xs \<noteq> []"
      then have "last xs \<in> set u" using z by simp
      then show False using h(4) \<open>xs \<noteq> []\<close> assms by auto
    qed
    then have e: "u @ wildcard # v = w @ ys" using h(1) by simp
    have "\<not> length u < length w"
    proof
      assume "length u < length w"
      then have "w ! length u = (u @ wildcard # v) ! length u"
        using e by (simp add: nth_append)
      then have "w ! length u = wildcard" by simp
      then show False using h(3) \<open>length u < length w\<close> by (metis nth_mem)
    qed
    then have "length w \<le> length u" by simp
    have "take (length w) (u @ wildcard # v) = take (length w) (w @ ys)"
      "drop (length w) (u @ wildcard # v) = drop (length w) (w @ ys)"
      using e by simp_all
    then have "take (length w) u = w" "ys = drop (length w) u @ wildcard # v"
      using \<open>length w \<le> length u\<close> by simp_all
    then obtain z2 where z2: "u = w @ z2" "ys = z2 @ wildcard # v"
      by (metis append_take_drop_id)
    have "z2 = []"
    proof (rule ccontr)
      assume "z2 \<noteq> []"
      then have "hd ys = hd z2" "hd z2 \<in> set u" "ys \<noteq> []" using z2 by auto
      then show False using h(5) assms by auto
    qed
    then show ?thesis using z2 h xs by simp
  next
    case False
    then have "length u < length xs" by simp
    then obtain n where n: "length xs = length u + Suc n"
      by (metis less_imp_Suc_add add_Suc_right)
    have "take (length xs) (u @ wildcard # v) = take (length xs) (xs @ w @ ys)"
      "drop (length xs) (u @ wildcard # v) = drop (length xs) (xs @ w @ ys)"
      using h(1) by simp_all
    then have "u @ wildcard # take n v = xs" "drop n v = w @ ys"
      using n by simp_all
    then have "xs = u @ wildcard # take n v" "v = take n v @ w @ ys"
      by (simp_all, metis append_take_drop_id)
    then obtain z where z: "xs = u @ wildcard # z" "v = z @ w @ ys"
      by blast
    have "z = [] \<or> last z = wildcard" using h(4) z(1) by (cases "z = []") auto
    then have "maximal_run v w (k - int (length u) - 1)"
      unfolding maximal_run_def using z h 
      by (intro exI[of _ z] exI[of _ ys]) auto
    then show ?thesis by simp
  qed
next
  assume "(w = u \<and> u \<noteq> [] \<and> k = int (length u) - 1) \<or> maximal_run v w (k - int (length u) - 1)"
  then show "maximal_run (u @ wildcard # v) w k"
  proof
    assume "w = u \<and> u \<noteq> [] \<and> k = int (length u) - 1"
    then show ?thesis unfolding maximal_run_def using assms
      by (intro exI[of _ "[]"] exI[of _ "wildcard # v"]) simp
  next
    assume "maximal_run v w (k - int (length u) - 1)"
    then obtain xs ys where h: "v = xs @ w @ ys" "w \<noteq> []" "wildcard \<notin> set w"
      "xs = [] \<or> last xs = wildcard"
      "ys = [] \<or> hd ys = wildcard" "k - int (length u) - 1 = int (length xs + length w) - 1"
      unfolding maximal_run_def by blast
    show ?thesis unfolding maximal_run_def using h
      by (intro exI[of _ "u @ wildcard # xs"] exI[of _ ys]) auto
  qed
qed

lemma split_loop_runs:
  assumes "wildcard \<notin> set word" "word \<noteq> [] \<longrightarrow> 0 \<le> pos" "- 1 \<le> pos"
    "pos + int (length r) \<le> 32767" "off = pos + 1 - int (length word)"
  shows "(w, e) \<in> set (split_loop r word pos []) \<longleftrightarrow> maximal_run (word @ r) w (e - off)"
  using assms
proof (induction r arbitrary: word pos off)
  case Nil
  then show ?case
    by (auto simp: maximal_run_plain to_short_id)
next
  case (Cons c cs)
  show ?case
  proof (cases "c = wildcard")
    case True
    have ih: "(w, e) \<in> set (split_loop cs [] (pos + 1) []) \<longleftrightarrow>
         maximal_run cs w (e - off - int (length word) - 1)"
      using Cons.IH[of "[]" "pos + 1" "off + int (length word) + 1"] Cons.prems
      by (simp add: algebra_simps)
    have sp: "maximal_run (word @ c # cs) w (e - off) \<longleftrightarrow>
       (w = word \<and> word \<noteq> [] \<and> e - off = int (length word) - 1)
        \<or> maximal_run cs w (e - off - int (length word) - 1)"
      using maximal_run_split[OF Cons.prems(1)] True by simp
    show ?thesis
    proof (cases "word = []")
      case True
      then show ?thesis using \<open>c = wildcard\<close> ih sp by simp
    next
      case False
      then have "to_short pos = pos" using Cons.prems by (simp add: to_short_id)
      then have "set (split_loop (c # cs) word pos []) =
            insert (word, pos) (set (split_loop cs [] (pos + 1) []))"
        using False \<open>c = wildcard\<close> split_loop_acc[of cs "[]" "pos + 1" "[(word, pos)]"]
        by simp
      moreover have "e - off = int (length word) - 1 \<longleftrightarrow> e = pos"
        using Cons.prems(5) by auto
      ultimately show ?thesis using ih sp False by auto
    qed
  next
    case False
    have "(w, e) \<in> set (split_loop cs (word @ [c]) (pos + 1) []) \<longleftrightarrow>
         maximal_run ((word @ [c]) @ cs) w (e - off)"
      using Cons.prems False by (intro Cons.IH) auto
    then show ?thesis using False by simp
  qed
qed

lemma split_loop_sorted:
  assumes "word \<noteq> [] \<longrightarrow> 0 \<le> pos" "- 1 \<le> pos" "pos + int (length r) \<le> 32767"
  shows "sorted_wrt (<) (map snd (split_loop r word pos [])) \<and>
         (\<forall>x \<in> set (split_loop r word pos []). pos \<le> snd x)"
  using assms
proof (induction r arbitrary: word pos)
  case Nil
  then show ?case by (simp add: to_short_id)
next
  case (Cons c cs)
  show ?case
  proof (cases "c = wildcard \<and> word \<noteq> []")
    case True
    then have ts: "to_short pos = pos" using Cons.prems by (simp add: to_short_id)
    have eq: "split_loop (c # cs) word pos [] = (word, pos) # split_loop cs [] (pos + 1) []"
      using True ts split_loop_acc[of cs "[]" "pos + 1" "[(word, pos)]"] by simp
    have "sorted_wrt (<) (map snd (split_loop cs [] (pos + 1) [])) \<and>
         (\<forall>x \<in> set (split_loop cs [] (pos + 1) []). pos + 1 \<le> snd x)"
      using Cons.prems by (intro Cons.IH) auto
    then show ?thesis unfolding eq by fastforce
  next
    case False
    have a: "sorted_wrt (<) (map snd (split_loop cs word (pos + 1) [])) \<and>
         (\<forall>x \<in> set (split_loop cs word (pos + 1) []). pos + 1 \<le> snd x)"
      using Cons.prems by (intro Cons.IH) auto
    have b: "sorted_wrt (<) (map snd (split_loop cs (word @ [c]) (pos + 1) [])) \<and>
         (\<forall>x \<in> set (split_loop cs (word @ [c]) (pos + 1) []). pos + 1 \<le> snd x)"
      using Cons.prems by (intro Cons.IH) auto
    have eq: "split_loop (c # cs) word pos [] =
        (if c = wildcard then split_loop cs word (pos + 1) []
         else split_loop cs (word @ [c]) (pos + 1) [])"
      using False by simp
    have "pos \<le> snd x" if "pos + 1 \<le> snd x" for x :: "string \<times> int"
      using that by simp
    then show ?thesis unfolding eq using a b by (cases "c = wildcard") auto
  qed
qed

lemma split_loop_wild:
  "\<forall>c \<in> set r. c = wildcard \<Longrightarrow> split_loop r [] pos acc = acc"
  by (induction r arbitrary: pos) auto

lemma split_loop_replicate_wild:
  "split_loop (replicate n wildcard @ r) [] pos acc = split_loop r [] (pos + int n) acc"
  by (induction n arbitrary: pos) (simp_all add: add.assoc)

lemma split_loop_unwrapped:
  assumes "wildcard \<notin> set word" "word \<noteq> [] \<longrightarrow> 0 \<le> pos" "- 1 \<le> pos"
    "off = pos + 1 - int (length word)"
  shows "\<exists>R. split_loop r word pos [] = map (\<lambda>(w, e). (w, to_short e)) R
           \<and> (\<forall>w e. (w, e) \<in> set R \<longleftrightarrow> maximal_run (word @ r) w (e - off))
           \<and> sorted_wrt (<) (map snd R)
           \<and> (\<forall>x \<in> set R. pos \<le> snd x \<and> snd x \<le> pos + int (length r))"
  using assms
proof (induction r arbitrary: word pos off)
  case Nil
  show ?case
  proof (cases "word = []")
    case True
    then show ?thesis using Nil by (intro exI[of _ "[]"]) (simp add: maximal_run_plain)
  next
    case False
    then show ?thesis using Nil
      by (intro exI[of _ "[(word, pos)]"]) (auto simp: maximal_run_plain)
  qed
next
  case (Cons c cs)
  show ?case
  proof (cases "c = wildcard")
    case True
    from Cons.IH[of "[]" "pos + 1" "off + int (length word) + 1"] Cons.prems obtain R' where
      ih: "split_loop cs [] (pos + 1) [] = map (\<lambda>(w, e). (w, to_short e)) R'"
          "\<forall>w e. (w, e) \<in> set R' \<longleftrightarrow> maximal_run cs w (e - (off + int (length word) + 1))"
          "sorted_wrt (<) (map snd R')"
          "\<forall>x \<in> set R'. pos + 1 \<le> snd x \<and> snd x \<le> pos + 1 + int (length cs)"
      by auto
    have sp: "maximal_run (word @ c # cs) w (e - off) \<longleftrightarrow>
       (w = word \<and> word \<noteq> [] \<and> e - off = int (length word) - 1)
        \<or> maximal_run cs w (e - (off + int (length word) + 1))" for w e
    proof -
      have q: "e - off - int (length word) - 1 = e - (off + int (length word) + 1)" by simp
      show ?thesis using maximal_run_split[OF Cons.prems(1), of cs w "e - off"] True
        unfolding q by simp
    qed
    show ?thesis
    proof (cases "word = []")
      case True
      have "split_loop (c # cs) word pos [] = map (\<lambda>(w, e). (w, to_short e)) R'"
        using True \<open>c = wildcard\<close> ih(1) by simp
      moreover have "\<forall>w e. (w, e) \<in> set R' \<longleftrightarrow> maximal_run (word @ c # cs) w (e - off)"
        using ih(2) sp True by simp
      moreover have "\<forall>x \<in> set R'. pos \<le> snd x \<and> snd x \<le> pos + int (length (c # cs))"
        using ih(4) by auto
      ultimately show ?thesis using ih(3) by blast
    next
      case False
      have e1: "split_loop (c # cs) word pos [] = map (\<lambda>(w, e). (w, to_short e)) ((word, pos) # R')"
        using False \<open>c = wildcard\<close> split_loop_acc[of cs "[]" "pos + 1" "[(word, to_short pos)]"] ih(1)
        by simp
      have ep: "e - off = int (length word) - 1 \<longleftrightarrow> e = pos" for e
        using Cons.prems(4) by auto
      have e2: "\<forall>w e. (w, e) \<in> set ((word, pos) # R') \<longleftrightarrow> maximal_run (word @ c # cs) w (e - off)"
        using ih(2) sp False ep by auto
      have e3: "sorted_wrt (<) (map snd ((word, pos) # R'))"
        using ih(3,4) by auto
      have e4: "\<forall>x \<in> set ((word, pos) # R'). pos \<le> snd x \<and> snd x \<le> pos + int (length (c # cs))"
        using ih(4) by auto
      show ?thesis using e1 e2 e3 e4 by blast
    qed
  next
    case False
    have o: "off = pos + 1 + 1 - int (length (word @ [c]))" using Cons.prems(4) by simp
    have w: "wildcard \<notin> set (word @ [c])" using Cons.prems(1) False by auto
    from Cons.IH[OF w _ _ o] Cons.prems(3) obtain R' where
      ih: "split_loop cs (word @ [c]) (pos + 1) [] = map (\<lambda>(w, e). (w, to_short e)) R'"
          "\<forall>w e. (w, e) \<in> set R' \<longleftrightarrow> maximal_run ((word @ [c]) @ cs) w (e - off)"
          "sorted_wrt (<) (map snd R')"
          "\<forall>x \<in> set R'. pos + 1 \<le> snd x \<and> snd x \<le> pos + 1 + int (length cs)"
      by auto
    have "split_loop (c # cs) word pos [] = map (\<lambda>(w, e). (w, to_short e)) R'"
      using False ih(1) by simp
    moreover have "\<forall>w e. (w, e) \<in> set R' \<longleftrightarrow> maximal_run (word @ c # cs) w (e - off)"
      using ih(2) by simp
    moreover have "\<forall>x \<in> set R'. pos \<le> snd x \<and> snd x \<le> pos + int (length (c # cs))"
      using ih(4) by auto
    ultimately show ?thesis using ih(3) by blast
  qed
qed

lemma split_to_words_unwrapped:
  "\<exists>R. split_to_words p = map (\<lambda>(w, e). (w, to_short e)) R
      \<and> (\<forall>w e. (w, e) \<in> set R \<longleftrightarrow> maximal_run p w e)
      \<and> sorted_wrt (<) (map snd R)
      \<and> (\<forall>x \<in> set R. snd x \<le> 32767 \<longrightarrow> to_short (snd x) = snd x)
      \<and> (length p \<le> 32768 \<longrightarrow> split_to_words p = R)"
proof -
  from split_loop_unwrapped[of "[]" "- 1" 0 p] obtain R where
    r: "split_loop p [] (- 1) [] = map (\<lambda>(w, e). (w, to_short e)) R"
       "\<forall>w e. (w, e) \<in> set R \<longleftrightarrow> maximal_run p w e"
       "sorted_wrt (<) (map snd R)"
       "\<forall>x \<in> set R. - 1 \<le> snd x \<and> snd x \<le> - 1 + int (length p)"
    by auto
  have a: "\<forall>x \<in> set R. snd x \<le> 32767 \<longrightarrow> to_short (snd x) = snd x"
    using r(4) by (auto intro!: to_short_id)
  have b: "length p \<le> 32768 \<longrightarrow> split_to_words p = R"
  proof
    assume l: "length p \<le> 32768"
    have "(\<lambda>(w, e). (w, to_short e)) x = x" if "x \<in> set R" for x
    proof -
      have "snd x \<le> 32767" using r(4) that l by auto
      then have "to_short (snd x) = snd x" using a that by blast
      then show ?thesis by (cases x) simp
    qed
    then have "map (\<lambda>(w, e). (w, to_short e)) R = R" by (simp add: map_idI)
    then show "split_to_words p = R" unfolding split_to_words_def r(1) .
  qed
  show ?thesis unfolding split_to_words_def using r(1,2,3) a b[unfolded split_to_words_def] by blast
qed

text \<open>
  Claim C7, as the code has it. For every pattern, the segmenter returns the maximal runs
  of non-wildcard symbols, all of them and nothing else, in increasing order of their end
  index: the list \<open>R\<close> below holds each run with the index in the pattern of its last
  symbol, and the segmenter returns \<open>R\<close> with every end index narrowed to a \<^verbatim>\<open>short\<close>
  (\<open>to_short\<close>). An end index of at most 32767 is stored as it is, so for a pattern of at
  most 32768 symbols the segmenter returns \<open>R\<close> itself; only the end offset of a run that
  ends beyond index 32767 wraps. A pattern of wildcards only (the empty pattern included)
  gives no segment.
\<close>

theorem split_to_words_maximal_runs:
  "\<exists>R. split_to_words p = map (\<lambda>(w, e). (w, to_short e)) R
      \<and> (\<forall>w e. (w, e) \<in> set R \<longleftrightarrow> maximal_run p w e)
      \<and> sorted_wrt (<) (map snd R)
      \<and> (\<forall>x \<in> set R. snd x \<le> 32767 \<longrightarrow> to_short (snd x) = snd x)
      \<and> (length p \<le> 32768 \<longrightarrow> split_to_words p = R)
      \<and> ((\<forall>c \<in> set p. c = wildcard) \<longrightarrow> split_to_words p = [])"
proof -
  have "(\<forall>c \<in> set p. c = wildcard) \<longrightarrow> split_to_words p = []"
    unfolding split_to_words_def by (simp add: split_loop_wild)
  with split_to_words_unwrapped[of p] show ?thesis by blast
qed

theorem split_to_words_maximal_runs_witness:
  "\<exists>R. split_to_words ''ab??aba'' = map (\<lambda>(w, e). (w, to_short e)) R
      \<and> R = [(''ab'', 1), (''aba'', 6)]
      \<and> maximal_run ''ab??aba'' ''ab'' 1 \<and> maximal_run ''ab??aba'' ''aba'' 6"
proof -
  have l: "length ''ab??aba'' \<le> 32768" by simp
  have s: "split_to_words ''ab??aba'' = [(''ab'', 1), (''aba'', 6)]"
    by (simp add: split_to_words_def to_short_def)
  from split_to_words_maximal_runs[of "''ab??aba''"] obtain R where
    r: "split_to_words ''ab??aba'' = map (\<lambda>(w, e). (w, to_short e)) R"
       "\<forall>w e. (w, e) \<in> set R \<longleftrightarrow> maximal_run ''ab??aba'' w e"
       "length ''ab??aba'' \<le> 32768 \<longrightarrow> split_to_words ''ab??aba'' = R"
    by blast
  have R: "R = [(''ab'', 1), (''aba'', 6)]" using r(3) l s by simp
  have m: "(w, e) \<in> set R \<longleftrightarrow> maximal_run ''ab??aba'' w e" for w e
    using r(2) by blast
  have "maximal_run ''ab??aba'' ''ab'' 1" "maximal_run ''ab??aba'' ''aba'' 6"
    using m[of "''ab''" 1] m[of "''aba''" 6] unfolding R by simp_all
  then show ?thesis using r(1) R by blast
qed

text \<open>
  Claim C7 as stated fails for a longer pattern: after 32768 wildcards the run \<open>a\<close> ends
  at index 32768, and the segmenter stores the end offset \<open>-32768\<close>.
\<close>

theorem split_to_words_short_counterexample:
  "split_to_words (replicate 32768 wildcard @ ''a'') = [(''a'', - 32768)]
   \<and> maximal_run (replicate 32768 wildcard @ ''a'') ''a'' 32768"
proof -
  have "split_to_words (replicate 32768 wildcard @ ''a'') = [(''a'', - 32768)]"
    unfolding split_to_words_def split_loop_replicate_wild
    by (simp add: to_short_def)
  moreover have "maximal_run (replicate 32768 wildcard @ ''a'') ''a'' 32768"
    unfolding maximal_run_def
    by (intro exI[of _ "replicate 32768 wildcard"] exI[of _ "[]"]) simp
  ultimately show ?thesis by simp
qed

subsection \<open>Longest suffixes in a prefix-closed set of labels\<close>

definition labels :: "(string \<times> int) list \<Rightarrow> string set" where
  "labels W = insert [] {u. \<exists>w e. (w, e) \<in> set W \<and> prefix u w}"

fun lsuf :: "string set \<Rightarrow> string \<Rightarrow> string" where
  "lsuf L [] = []"
| "lsuf L (c # x) = (if c # x \<in> L then c # x else lsuf L x)"

definition out_lab :: "(string \<times> int) list \<Rightarrow> string \<Rightarrow> int set" where
  "out_lab W u = {e. \<exists>w. (w, e) \<in> set W \<and> suffix w u}"

definition pclosed :: "string set \<Rightarrow> bool" where
  "pclosed L \<longleftrightarrow> [] \<in> L \<and> (\<forall>u c. u @ [c] \<in> L \<longrightarrow> u \<in> L)"

lemma labels_pclosed: "pclosed (labels W)"
  unfolding pclosed_def labels_def
  by (auto intro: prefix_order.trans[OF prefixI[OF refl]])

lemma pclosed_prefix: "pclosed L \<Longrightarrow> u @ v \<in> L \<Longrightarrow> u \<in> L"
proof (induction v rule: rev_induct)
  case Nil
  then show ?case by simp
next
  case (snoc c v)
  then have "(u @ v) @ [c] \<in> L" by simp
  then have "u @ v \<in> L" using snoc.prems(1) unfolding pclosed_def by blast
  then show ?case using snoc by blast
qed

lemma lsuf_suffix: "suffix (lsuf L x) x"
  by (induction x) (auto intro: suffix_ConsI)

lemma lsuf_in: "[] \<in> L \<Longrightarrow> lsuf L x \<in> L"
  by (induction x) auto

lemma lsuf_self: "x \<in> L \<Longrightarrow> lsuf L x = x"
  by (cases x) auto

lemma lsuf_greatest: "v \<in> L \<Longrightarrow> suffix v x \<Longrightarrow> suffix v (lsuf L x)"
proof (induction x)
  case Nil
  then show ?case by simp
next
  case (Cons c x)
  then show ?case by (auto simp: suffix_Cons)
qed

lemma lsuf_unique:
  assumes "[] \<in> L" "v \<in> L" "suffix v x" "\<And>v'. v' \<in> L \<Longrightarrow> suffix v' x \<Longrightarrow> suffix v' v"
  shows "lsuf L x = v"
proof -
  have "suffix v (lsuf L x)" using assms(2,3) by (rule lsuf_greatest)
  moreover have "suffix (lsuf L x) v"
    using assms(4)[OF lsuf_in[OF assms(1)] lsuf_suffix] .
  ultimately show ?thesis by (simp add: suffix_order.antisym)
qed

lemma lsuf_step:
  assumes "pclosed L"
  shows "lsuf L (x @ [c]) = lsuf L (lsuf L x @ [c])"
proof (rule lsuf_unique)
  show "[] \<in> L" using assms by (simp add: pclosed_def)
  then show "lsuf L (lsuf L x @ [c]) \<in> L" by (rule lsuf_in)
  have "suffix (lsuf L x @ [c]) (x @ [c])" using lsuf_suffix[of L x] by simp
  then show "suffix (lsuf L (lsuf L x @ [c])) (x @ [c])"
    using lsuf_suffix[of L "lsuf L x @ [c]"] by (rule suffix_order.trans[rotated])
next
  fix v'
  assume v': "v' \<in> L" "suffix v' (x @ [c])"
  show "suffix v' (lsuf L (lsuf L x @ [c]))"
  proof (cases "v' = []")
    case True
    then show ?thesis by simp
  next
    case False
    then obtain z where z: "v' = z @ [c]" "suffix z x"
      using v'(2) by auto
    then have "z \<in> L" using v'(1) assms by (auto simp: pclosed_def)
    then have "suffix z (lsuf L x)" using z(2) by (rule lsuf_greatest)
    then have "suffix v' (lsuf L x @ [c])" using z(1) by simp
    then show ?thesis using v'(1) by (rule lsuf_greatest[rotated])
  qed
qed

lemma lsuf_fail:
  assumes "pclosed L" "u @ [c] \<notin> L" "u \<noteq> []"
  shows "lsuf L (u @ [c]) = lsuf L (lsuf L (tl u) @ [c])"
proof -
  obtain a u' where u: "u = a # u'" using assms(3) by (cases u) auto
  then have "lsuf L (u @ [c]) = lsuf L (u' @ [c])" using assms(2) by simp
  also have "\<dots> = lsuf L (lsuf L u' @ [c])" using assms(1) by (rule lsuf_step)
  finally show ?thesis using u by simp
qed

lemma lsuf_length: "length (lsuf L x) \<le> length x"
  using lsuf_suffix[of L x] by (rule suffix_length_le)

lemma word_in_labels: "(w, e) \<in> set W \<Longrightarrow> w \<in> labels W"
  unfolding labels_def by auto

lemma labels_Nil: "labels [] = {[]}"
  by (simp add: labels_def)

lemma labels_snoc: "labels (W @ [(w, e)]) = labels W \<union> {u. prefix u w}"
  unfolding labels_def by auto

lemma out_lab_lsuf: "out_lab W (lsuf (labels W) x) = out_lab W x"
proof -
  have "suffix w (lsuf (labels W) x) \<longleftrightarrow> suffix w x" if "(w, e) \<in> set W" for w e
    using lsuf_greatest[OF word_in_labels[OF that], of x]
      suffix_order.trans[OF _ lsuf_suffix[of "labels W" x], of w]
    by blast
  then show ?thesis unfolding out_lab_def by blast
qed

lemma out_lab_fail:
  assumes "u \<noteq> []"
  shows "out_lab W u = {e. (u, e) \<in> set W} \<union> out_lab W (lsuf (labels W) (tl u))"
proof -
  obtain a u' where u: "u = a # u'" using assms by (cases u) auto
  have "out_lab W u = {e. (u, e) \<in> set W} \<union> out_lab W (tl u)"
    unfolding out_lab_def u by (auto simp: suffix_Cons)
  then show ?thesis by (simp add: out_lab_lsuf)
qed

lemma out_lab_Nil: "\<forall>x \<in> set W. fst x \<noteq> [] \<Longrightarrow> out_lab W [] = {}"
  unfolding out_lab_def by auto

lemma out_lab_single:
  assumes "\<forall>x \<in> set W. fst x \<noteq> []"
  shows "out_lab W [c] = {e. ([c], e) \<in> set W}"
  using assms unfolding out_lab_def by (force simp: suffix_Cons)

subsection \<open>The trie of \<^verbatim>\<open>17.cpp\<close> after \<^verbatim>\<open>add_word\<close>\<close>

definition trie_inv :: "string set \<Rightarrow> string list \<Rightarrow> node list \<Rightarrow> bool" where
  "trie_inv L lab st \<longleftrightarrow>
     length lab = length st \<and> 0 < length st \<and> lab ! 0 = [] \<and> distinct lab \<and> set lab = L
     \<and> pclosed L
     \<and> (\<forall>n < length st. \<forall>c.
          case links (st ! n) c of
            None \<Rightarrow> lab ! n @ [c] \<notin> L
          | Some n' \<Rightarrow> n' < length st \<and> lab ! n' = lab ! n @ [c])"

definition node_init :: "(string \<times> int) list \<Rightarrow> string list \<Rightarrow> node list \<Rightarrow> nat \<Rightarrow> bool" where
  "node_init W lab st n \<longleftrightarrow>
     link_fail (st ! n) = None
     \<and> set (outputs (st ! n)) = {e. (lab ! n, e) \<in> set W}
     \<and> distinct (outputs (st ! n))
     \<and> (terminal (st ! n) \<longleftrightarrow> outputs (st ! n) \<noteq> [])"

lemma trie_inv_linkD:
  "trie_inv L lab st \<Longrightarrow> n < length st \<Longrightarrow>
     (case links (st ! n) c of
        None \<Rightarrow> lab ! n @ [c] \<notin> L
      | Some n' \<Rightarrow> n' < length st \<and> lab ! n' = lab ! n @ [c])"
  by (simp add: trie_inv_def)

lemma trie_inv_link_Some:
  "trie_inv L lab st \<Longrightarrow> n < length st \<Longrightarrow> links (st ! n) c = Some n'
     \<Longrightarrow> n' < length st \<and> lab ! n' = lab ! n @ [c]"
  using trie_inv_linkD[of L lab st n c] by simp

lemma trie_inv_link_None:
  "trie_inv L lab st \<Longrightarrow> n < length st \<Longrightarrow> links (st ! n) c = None \<Longrightarrow> lab ! n @ [c] \<notin> L"
  using trie_inv_linkD[of L lab st n c] by simp

lemma trie_inv_lab_in: "trie_inv L lab st \<Longrightarrow> n < length st \<Longrightarrow> lab ! n \<in> L"
  unfolding trie_inv_def using nth_mem[of n lab] by auto

lemma trie_inv_lab_inj:
  "trie_inv L lab st \<Longrightarrow> n < length st \<Longrightarrow> n' < length st \<Longrightarrow> lab ! n = lab ! n' \<Longrightarrow> n = n'"
  unfolding trie_inv_def using nth_eq_iff_index_eq[of lab n n'] by auto

lemma trie_inv_index:
  "trie_inv L lab st \<Longrightarrow> u \<in> L \<Longrightarrow> \<exists>n < length st. lab ! n = u"
  unfolding trie_inv_def using in_set_conv_nth[of u lab] by auto

lemma add_word_loop_inv:
  assumes "trie_inv L lab st" "nd < length st"
  shows "\<exists>lab' st' nd'. add_word_loop st nd cs = (st', nd')
      \<and> trie_inv (L \<union> {lab ! nd @ v |v. prefix v cs}) lab' st'
      \<and> nd' < length st' \<and> lab' ! nd' = lab ! nd @ cs
      \<and> length st \<le> length st' \<and> take (length st) lab' = lab
      \<and> (\<forall>n < length st. terminal (st' ! n) = terminal (st ! n)
            \<and> outputs (st' ! n) = outputs (st ! n) \<and> link_fail (st' ! n) = link_fail (st ! n))
      \<and> (\<forall>n. length st \<le> n \<and> n < length st' \<longrightarrow> \<not> terminal (st' ! n)
            \<and> outputs (st' ! n) = [] \<and> link_fail (st' ! n) = None)"
  using assms
proof (induction cs arbitrary: L lab st nd)
  case Nil
  have "L \<union> {lab ! nd @ v |v. prefix v []} = L"
    using trie_inv_lab_in[OF Nil.prems] by auto
  moreover have "take (length st) lab = lab" using Nil.prems(1) by (simp add: trie_inv_def)
  ultimately show ?case using Nil by (intro exI[of _ lab] exI[of _ st] exI[of _ nd]) auto
next
  case (Cons c cs)
  let ?u = "lab ! nd"
  have uL: "?u \<in> L" using trie_inv_lab_in[OF Cons.prems] .
  have Leq: "L \<union> {?u @ v |v. prefix v (c # cs)} = insert (?u @ [c]) L \<union> {(?u @ [c]) @ v |v. prefix v cs}"
    using uL by (auto simp: prefix_Cons)
  show ?case
  proof (cases "links (st ! nd) c")
    case (Some n')
    have n': "n' < length st" "lab ! n' = ?u @ [c]"
      using trie_inv_link_Some[OF Cons.prems Some] by auto
    then have "?u @ [c] \<in> L" using trie_inv_lab_in[OF Cons.prems(1) n'(1)] by simp
    then have Leq': "L \<union> {?u @ v |v. prefix v (c # cs)} = L \<union> {lab ! n' @ v |v. prefix v cs}"
      using Leq n'(2) by (simp add: insert_absorb)
    show ?thesis
      using Cons.IH[OF Cons.prems(1) n'(1)] Some unfolding Leq' n'(2) by simp
  next
    case None
    let ?k = "length st"
    let ?st1 = "st @ [new_node]"
    let ?st2 = "?st1[nd := (?st1 ! nd)\<lparr>links := (links (?st1 ! nd))(c \<mapsto> ?k)\<rparr>]"
    let ?lab2 = "lab @ [?u @ [c]]"
    have notin: "?u @ [c] \<notin> L" using trie_inv_link_None[OF Cons.prems None] .
    have len: "length lab = length st" using Cons.prems(1) by (simp add: trie_inv_def)
    have pc: "pclosed L" using Cons.prems(1) by (simp add: trie_inv_def)
    have pc2: "pclosed (insert (?u @ [c]) L)"
      using pc uL unfolding pclosed_def by auto
    have inv2: "trie_inv (insert (?u @ [c]) L) ?lab2 ?st2"
      unfolding trie_inv_def
    proof (intro conjI allI impI)
      show "length ?lab2 = length ?st2" using len by simp
      show "0 < length ?st2" by simp
      show "?lab2 ! 0 = []" using Cons.prems(1) len by (simp add: trie_inv_def nth_append)
      show "distinct ?lab2" using Cons.prems(1) notin by (simp add: trie_inv_def)
      show "set ?lab2 = insert (?u @ [c]) L" using Cons.prems(1) by (simp add: trie_inv_def)
      show "pclosed (insert (?u @ [c]) L)" by (rule pc2)
    next
      fix n c'
      assume n: "n < length ?st2"
      show "case links (?st2 ! n) c' of
              None \<Rightarrow> ?lab2 ! n @ [c'] \<notin> insert (?u @ [c]) L
            | Some n' \<Rightarrow> n' < length ?st2 \<and> ?lab2 ! n' = ?lab2 ! n @ [c']"
      proof (cases "n < ?k")
        case True
        note nk = True
        have labn: "?lab2 ! n = lab ! n" using True len by (simp add: nth_append)
        show ?thesis
        proof (cases "n = nd \<and> c' = c")
          case True
          then show ?thesis using Cons.prems(2) len by (simp add: nth_append)
        next
          case False
          have lk: "links (?st2 ! n) c' = links (st ! n) c'"
            using False nk Cons.prems(2) by (cases "n = nd") (auto simp: nth_append)
          show ?thesis
          proof (cases "links (st ! n) c'")
            case None
            have "lab ! n @ [c'] \<notin> L" using trie_inv_link_None[OF Cons.prems(1) nk None] .
            moreover have "lab ! n @ [c'] \<noteq> ?u @ [c]"
              using False trie_inv_lab_inj[OF Cons.prems(1) nk Cons.prems(2)] by auto
            ultimately show ?thesis using None lk labn by simp
          next
            case (Some m)
            have m: "m < length st" "lab ! m = lab ! n @ [c']"
              using trie_inv_link_Some[OF Cons.prems(1) nk Some] by auto
            then show ?thesis using Some lk labn len by (simp add: nth_append)
          qed
        qed
      next
        case False
        then have nk: "n = ?k" using n by simp
        have "nd \<noteq> ?k" using Cons.prems(2) by simp
        then have "links (?st2 ! n) c' = None" using nk by (simp add: new_node_def)
        moreover have "?lab2 ! n = ?u @ [c]" using nk len by (simp add: nth_append)
        moreover have "(?u @ [c]) @ [c'] \<notin> L"
          using notin pc unfolding pclosed_def by blast
        ultimately show ?thesis by simp
      qed
    qed
    have k2: "?k < length ?st2" by simp
    have lk2: "?lab2 ! ?k = ?u @ [c]" using len by (simp add: nth_append)
    from Cons.IH[OF inv2 k2] obtain lab' st' nd' where
      r: "add_word_loop ?st2 ?k cs = (st', nd')"
        "trie_inv (insert (?u @ [c]) L \<union> {?lab2 ! ?k @ v |v. prefix v cs}) lab' st'"
        "nd' < length st'" "lab' ! nd' = ?lab2 ! ?k @ cs"
        "length ?st2 \<le> length st'" "take (length ?st2) lab' = ?lab2"
        "\<forall>n < length ?st2. terminal (st' ! n) = terminal (?st2 ! n)
            \<and> outputs (st' ! n) = outputs (?st2 ! n) \<and> link_fail (st' ! n) = link_fail (?st2 ! n)"
        "\<forall>n. length ?st2 \<le> n \<and> n < length st' \<longrightarrow> \<not> terminal (st' ! n)
            \<and> outputs (st' ! n) = [] \<and> link_fail (st' ! n) = None"
      by blast
    have e: "add_word_loop st nd (c # cs) = (st', nd')"
      using None r(1) by (simp add: Let_def)
    have t: "take (length st) lab' = lab"
    proof -
      have "take (length st) (take (length ?st2) lab') = take (length st) ?lab2"
        using r(6) by simp
      then show ?thesis using len by (simp add: min_def)
    qed
    have old: "terminal (st' ! n) = terminal (st ! n)
            \<and> outputs (st' ! n) = outputs (st ! n) \<and> link_fail (st' ! n) = link_fail (st ! n)"
      if "n < length st" for n
    proof -
      have "terminal (?st2 ! n) = terminal (st ! n) \<and> outputs (?st2 ! n) = outputs (st ! n)
          \<and> link_fail (?st2 ! n) = link_fail (st ! n)"
        using that by (cases "n = nd") (auto simp: nth_append)
      then show ?thesis using r(7) that by simp
    qed
    have new: "\<not> terminal (st' ! n) \<and> outputs (st' ! n) = [] \<and> link_fail (st' ! n) = None"
      if "length st \<le> n" "n < length st'" for n
    proof (cases "n = ?k")
      case True
      have "nd \<noteq> ?k" using Cons.prems(2) by simp
      then have "\<not> terminal (?st2 ! ?k) \<and> outputs (?st2 ! ?k) = [] \<and> link_fail (?st2 ! ?k) = None"
        by (simp add: new_node_def)
      then show ?thesis using r(7) True by simp
    next
      case False
      then show ?thesis using r(8) that by simp
    qed
    show ?thesis
      unfolding e Leq
      using r(2,3,4,5) t old new unfolding lk2
      by (intro exI[of _ lab'] exI[of _ st'] exI[of _ nd']) auto
  qed
qed


definition trie_built :: "(string \<times> int) list \<Rightarrow> string list \<Rightarrow> node list \<Rightarrow> bool" where
  "trie_built W lab st \<longleftrightarrow>
     trie_inv (labels W) lab st \<and> (\<forall>n < length st. node_init W lab st n)"

lemma trie_inv_links_cong:
  assumes "trie_inv L lab st" "length st' = length st"
    "\<And>n. n < length st \<Longrightarrow> links (st' ! n) = links (st ! n)"
  shows "trie_inv L lab st'"
proof -
  have "case links (st' ! n) c of
            None \<Rightarrow> lab ! n @ [c] \<notin> L
          | Some n' \<Rightarrow> n' < length st' \<and> lab ! n' = lab ! n @ [c]"
    if "n < length st'" for n c
    using trie_inv_linkD[OF assms(1), of n c] that assms(2,3)
    by (auto split: option.splits)
  then show ?thesis using assms(1,2) unfolding trie_inv_def by simp
qed

lemma insert_not_Nil: "List.insert e xs \<noteq> []"
  by (auto simp: List.insert_def)

lemma trie_built_empty: "trie_built [] [[]] [new_node]"
  unfolding trie_built_def trie_inv_def node_init_def
  by (simp add: labels_Nil pclosed_def new_node_def)

lemma add_word_built:
  assumes "trie_built W lab st"
  shows "\<exists>lab'. trie_built (W @ [(w, e)]) lab' (add_word st w e)"
proof -
  have inv: "trie_inv (labels W) lab st" and ini: "\<And>n. n < length st \<Longrightarrow> node_init W lab st n"
    using assms by (auto simp: trie_built_def)
  have r0: "root < length st" "lab ! root = []"
    using inv by (auto simp: trie_inv_def root_def)
  from add_word_loop_inv[OF inv r0(1), of w] obtain lab' st' nd' where
    r: "add_word_loop st root w = (st', nd')"
      "trie_inv (labels W \<union> {lab ! root @ v |v. prefix v w}) lab' st'"
      "nd' < length st'" "lab' ! nd' = lab ! root @ w"
      "length st \<le> length st'" "take (length st) lab' = lab"
      "\<forall>n < length st. terminal (st' ! n) = terminal (st ! n)
          \<and> outputs (st' ! n) = outputs (st ! n) \<and> link_fail (st' ! n) = link_fail (st ! n)"
      "\<forall>n. length st \<le> n \<and> n < length st' \<longrightarrow> \<not> terminal (st' ! n)
          \<and> outputs (st' ! n) = [] \<and> link_fail (st' ! n) = None"
    by blast
  let ?W = "W @ [(w, e)]"
  let ?st = "st'[nd' := (st' ! nd')\<lparr>terminal := True, outputs := List.insert e (outputs (st' ! nd'))\<rparr>]"
  have L: "labels W \<union> {lab ! root @ v |v. prefix v w} = labels ?W"
    using r0(2) by (simp add: labels_snoc)
  have inv': "trie_inv (labels ?W) lab' st'" using r(2) unfolding L .
  have aw: "add_word st w e = ?st" using r(1) by (simp add: add_word_def)
  have inv2: "trie_inv (labels ?W) lab' ?st"
  proof (rule trie_inv_links_cong[OF inv'])
    show "length ?st = length st'" by simp
    show "links (?st ! n) = links (st' ! n)" if "n < length st'" for n
      using that by (cases "n = nd'") simp_all
  qed
  have len': "length lab' = length st'" using inv' by (simp add: trie_inv_def)
  have labw: "lab' ! nd' = w" using r(4) r0(2) by simp
  have own: "set (outputs (st' ! n)) = {e'. (lab' ! n, e') \<in> set W} \<and> distinct (outputs (st' ! n))
      \<and> (terminal (st' ! n) \<longleftrightarrow> outputs (st' ! n) \<noteq> []) \<and> link_fail (st' ! n) = None"
    if n: "n < length st'" for n
  proof (cases "n < length st")
    case True
    then have "lab' ! n = lab ! n" using r(6) by (metis nth_take)
    then show ?thesis using ini[OF True] r(7) True by (simp add: node_init_def)
  next
    case False
    have "lab' ! n \<notin> set (take (length st) lab')"
    proof
      assume "lab' ! n \<in> set (take (length st) lab')"
      then obtain i where i: "i < length st" "i < length lab'" "lab' ! i = lab' ! n"
        by (auto simp: in_set_conv_nth)
      then have "i = n" using trie_inv_lab_inj[OF inv', of i n] n r(5) by auto
      then show False using False i(1) by simp
    qed
    then have "lab' ! n \<notin> labels W" using r(6) inv by (simp add: trie_inv_def)
    then have "{e'. (lab' ! n, e') \<in> set W} = {}" using word_in_labels by fastforce
    then show ?thesis using r(8) False n by simp
  qed
  have "node_init ?W lab' ?st n" if n: "n < length ?st" for n
  proof (cases "n = nd'")
    case True
    then show ?thesis using own[of nd'] r(3) labw
      by (auto simp: node_init_def insert_not_Nil)
  next
    case False
    then have "lab' ! n \<noteq> w"
      using labw trie_inv_lab_inj[OF inv', of n nd'] n r(3) by auto
    then show ?thesis using own[of n] n False by (auto simp: node_init_def)
  qed
  then show ?thesis unfolding aw trie_built_def using inv2 by blast
qed

lemma add_words_built:
  assumes "trie_built W lab st"
  shows "\<exists>lab'. trie_built (W @ ws) lab' (fold (\<lambda>(word, pos) st. add_word st word pos) ws st)"
  using assms
proof (induction ws arbitrary: W lab st)
  case Nil
  then show ?case by auto
next
  case (Cons x ws)
  obtain w e where x: "x = (w, e)" by (cases x)
  from add_word_built[OF Cons.prems, of w e] obtain lab1 where
    "trie_built (W @ [(w, e)]) lab1 (add_word st w e)" by blast
  from Cons.IH[OF this] show ?case using x by simp
qed

lemma split_loop_nonempty:
  "\<forall>x \<in> set acc. fst x \<noteq> [] \<Longrightarrow> \<forall>x \<in> set (split_loop r wd ps acc). fst x \<noteq> []"
  by (induction r wd ps acc rule: split_loop.induct) auto

lemma split_to_words_nonempty: "\<forall>x \<in> set (split_to_words p). fst x \<noteq> []"
  unfolding split_to_words_def by (rule split_loop_nonempty) simp

subsection \<open>Failure links of \<^verbatim>\<open>17.cpp\<close>\<close>

definition labs_ok :: "string set \<Rightarrow> string list \<Rightarrow> node list \<Rightarrow> bool" where
  "labs_ok L lab st \<longleftrightarrow>
     length lab = length st \<and> 0 < length st \<and> lab ! 0 = [] \<and> distinct lab \<and> set lab = L
     \<and> pclosed L"

definition edges_ok :: "string set \<Rightarrow> string list \<Rightarrow> node list \<Rightarrow> bool" where
  "edges_ok L lab st \<longleftrightarrow>
     (\<forall>n < length st. \<forall>c.
        case links (st ! n) c of
          None \<Rightarrow> lab ! n @ [c] \<notin> L
        | Some n' \<Rightarrow> n' < length st \<and> lab ! n' = lsuf L (lab ! n @ [c]))"

definition node_done :: "(string \<times> int) list \<Rightarrow> string list \<Rightarrow> node list \<Rightarrow> nat \<Rightarrow> bool" where
  "node_done W lab st n \<longleftrightarrow>
     (\<exists>f. link_fail (st ! n) = Some f \<and> f < length st
          \<and> lab ! f = lsuf (labels W) (tl (lab ! n)))
     \<and> set (outputs (st ! n)) = out_lab W (lab ! n)
     \<and> distinct (outputs (st ! n))
     \<and> (terminal (st ! n) \<longleftrightarrow> outputs (st ! n) \<noteq> [])"

lemma trie_inv_labs_ok: "trie_inv L lab st \<Longrightarrow> labs_ok L lab st"
  by (simp add: trie_inv_def labs_ok_def)

lemma trie_inv_edges_ok:
  assumes "trie_inv L lab st"
  shows "edges_ok L lab st"
proof -
  have "case links (st ! n) c of
          None \<Rightarrow> lab ! n @ [c] \<notin> L
        | Some n' \<Rightarrow> n' < length st \<and> lab ! n' = lsuf L (lab ! n @ [c])"
    if n: "n < length st" for n c
  proof (cases "links (st ! n) c")
    case None
    then show ?thesis using trie_inv_link_None[OF assms n None] by simp
  next
    case (Some n')
    have "n' < length st" "lab ! n' = lab ! n @ [c]"
      using trie_inv_link_Some[OF assms n Some] by auto
    moreover have "lab ! n' \<in> L" using trie_inv_lab_in[OF assms \<open>n' < length st\<close>] .
    ultimately show ?thesis using Some by (simp add: lsuf_self)
  qed
  then show ?thesis by (simp add: edges_ok_def)
qed

lemma edges_okD:
  "edges_ok L lab st \<Longrightarrow> n < length st \<Longrightarrow>
     (case links (st ! n) c of
        None \<Rightarrow> lab ! n @ [c] \<notin> L
      | Some n' \<Rightarrow> n' < length st \<and> lab ! n' = lsuf L (lab ! n @ [c]))"
  by (simp add: edges_ok_def)

lemma labs_ok_nonroot:
  assumes "labs_ok L lab st" "n < length st" "n \<noteq> 0"
  shows "lab ! n \<noteq> []"
proof
  assume "lab ! n = []"
  then have "lab ! n = lab ! 0" using assms(1) by (simp add: labs_ok_def)
  then have "n = 0" using assms(1,2) nth_eq_iff_index_eq[of lab n 0] by (simp add: labs_ok_def)
  then show False using assms(3) by simp
qed

lemma node_done_cong:
  "st' ! n = st ! n \<Longrightarrow> length st' = length st \<Longrightarrow> node_done W lab st' n = node_done W lab st n"
  by (simp add: node_done_def)

lemma node_init_cong:
  "st' ! n = st ! n \<Longrightarrow> node_init W lab st' n = node_init W lab st n"
  by (simp add: node_init_def)

lemma node_done_not_init: "node_done W lab st n \<Longrightarrow> \<not> node_init W lab st n"
  by (auto simp: node_done_def node_init_def)

lemma fail_state_walk:
  assumes lo: "labs_ok L lab st" and eo: "edges_ok L lab st" and L: "L = labels W"
    and s: "s < length st"
    and dn: "\<forall>n < length st. n \<noteq> 0 \<and> length (lab ! n) \<le> length (lab ! s) \<longrightarrow> node_done W lab st n"
  shows "\<exists>s' t. fail_state st s c = Some (Inr s') \<and> s' < length st
           \<and> length (lab ! s') \<le> length (lab ! s)
           \<and> goto st s' c = Some t \<and> t < length st \<and> lab ! t = lsuf L (lab ! s @ [c])"
  using s dn
proof (induction "length (lab ! s)" arbitrary: s rule: less_induct)
  case less
  have pc: "pclosed L" using lo by (simp add: labs_ok_def)
  show ?case
  proof (cases "links (st ! s) c")
    case (Some t)
    have t: "t < length st" "lab ! t = lsuf L (lab ! s @ [c])"
      using edges_okD[OF eo less.prems(1), of c] Some by auto
    have g: "goto st s c = Some t" using Some by (simp add: goto_def)
    have "fail_state st s c = Some (Inr s)"
      by (subst fail_state.simps) (simp add: g)
    then show ?thesis using g t less.prems(1) by auto
  next
    case None
    have notin: "lab ! s @ [c] \<notin> L" using edges_okD[OF eo less.prems(1), of c] None by simp
    show ?thesis
    proof (cases "s = 0")
      case True
      have g: "goto st s c = Some 0" using None True by (simp add: goto_def root_def)
      have "fail_state st s c = Some (Inr s)"
        by (subst fail_state.simps) (simp add: g)
      moreover have "lab ! s = []" using lo True by (simp add: labs_ok_def)
      moreover have "lsuf L ([] @ [c]) = []" using notin \<open>lab ! s = []\<close> by simp
      ultimately show ?thesis using g less.prems(1) True by auto
    next
      case False
      have g: "goto st s c = None" using None False by (simp add: goto_def root_def)
      have "node_done W lab st s" using less.prems False by simp
      then obtain f where f: "link_fail (st ! s) = Some f" "f < length st"
        "lab ! f = lsuf L (tl (lab ! s))"
        unfolding node_done_def L by blast
      have ne: "lab ! s \<noteq> []" using labs_ok_nonroot[OF lo less.prems(1) False] .
      have "length (lab ! f) \<le> length (tl (lab ! s))" unfolding f(3) by (rule lsuf_length)
      then have lt: "length (lab ! f) < length (lab ! s)" using ne by (cases "lab ! s") auto
      have dn': "\<forall>n < length st. n \<noteq> 0 \<and> length (lab ! n) \<le> length (lab ! f) \<longrightarrow> node_done W lab st n"
        using less.prems(2) lt by auto
      from less.hyps[OF lt f(2) dn'] obtain s' t where
        r: "fail_state st f c = Some (Inr s')" "s' < length st"
          "length (lab ! s') \<le> length (lab ! f)"
          "goto st s' c = Some t" "t < length st" "lab ! t = lsuf L (lab ! f @ [c])"
        by blast
      have "fail_state st s c = fail_state st f c"
        by (subst fail_state.simps) (simp add: g f(1))
      moreover have "lsuf L (lab ! s @ [c]) = lsuf L (lab ! f @ [c])"
        unfolding f(3) using lsuf_fail[OF pc notin ne] .
      ultimately show ?thesis using r lt by auto
    qed
  qed
qed

lemma set_fold_insert: "set (fold List.insert xs ys) = set xs \<union> set ys"
  by (induction xs arbitrary: ys) auto

lemma distinct_fold_insert: "distinct ys \<Longrightarrow> distinct (fold List.insert xs ys)"
  by (induction xs arbitrary: ys) auto


lemma root_outputs:
  assumes "node_init W lab st 0" "lab ! 0 = []" "\<forall>x \<in> set W. fst x \<noteq> []"
  shows "set (outputs (st ! 0)) = out_lab W (lab ! 0)"
  using assms by (force simp: node_init_def out_lab_Nil)

lemma set_failure_done:
  assumes tr: "trie_inv (labels W) lab st" and wne: "\<forall>x \<in> set W. fst x \<noteq> []"
    and v: "v < length st" "v \<noteq> 0" "node_done W lab st v"
    and low: "\<forall>n < length st. n \<noteq> 0 \<and> length (lab ! n) \<le> length (lab ! v) \<longrightarrow> node_done W lab st n"
    and r0: "node_init W lab st 0"
    and e: "links (st ! v) c = Some n'" "node_init W lab st n'"
  shows "\<exists>st1. set_failure st v c n' = Some (Inr st1) \<and> length st1 = length st
           \<and> (\<forall>n < length st. n \<noteq> n' \<longrightarrow> st1 ! n = st ! n)
           \<and> links (st1 ! n') = links (st ! n') \<and> node_done W lab st1 n'"
proof -
  let ?L = "labels W"
  have lo: "labs_ok ?L lab st" using tr by (rule trie_inv_labs_ok)
  have eo: "edges_ok ?L lab st" using tr by (rule trie_inv_edges_ok)
  have pc: "pclosed ?L" by (rule labels_pclosed)
  have n': "n' < length st" "lab ! n' = lab ! v @ [c]"
    using trie_inv_link_Some[OF tr v(1) e(1)] by auto
  obtain f0 where f0: "link_fail (st ! v) = Some f0" "f0 < length st"
      "lab ! f0 = lsuf ?L (tl (lab ! v))"
    using v(3) unfolding node_done_def by blast
  have ne: "lab ! v \<noteq> []" using labs_ok_nonroot[OF lo v(1,2)] .
  have "length (lab ! f0) \<le> length (tl (lab ! v))" unfolding f0(3) by (rule lsuf_length)
  then have lt: "length (lab ! f0) < length (lab ! v)" using ne by (cases "lab ! v") auto
  have low0: "\<forall>n < length st. n \<noteq> 0 \<and> length (lab ! n) \<le> length (lab ! f0) \<longrightarrow> node_done W lab st n"
    using low lt by auto
  from fail_state_walk[OF lo eo refl f0(2) low0, of c] obtain s' t where
    w: "fail_state st f0 c = Some (Inr s')" "s' < length st"
       "goto st s' c = Some t" "t < length st" "lab ! t = lsuf ?L (lab ! f0 @ [c])"
    by blast
  have "lsuf ?L (lab ! f0 @ [c]) = lsuf ?L (tl (lab ! v) @ [c])"
    unfolding f0(3) using lsuf_step[OF pc, of "tl (lab ! v)" c] by simp
  also have "tl (lab ! v) @ [c] = tl (lab ! n')" using ne n'(2) by simp
  finally have labt: "lab ! t = lsuf ?L (tl (lab ! n'))" using w(5) by simp
  have "length (lab ! t) \<le> length (lab ! f0 @ [c])" unfolding w(5) by (rule lsuf_length)
  then have dt: "length (lab ! t) \<le> length (lab ! v)" using lt by simp
  have tn: "t \<noteq> n'" using dt n'(2) by auto
  have outt: "set (outputs (st ! t)) = out_lab W (lab ! t)"
  proof (cases "t = 0")
    case True
    then show ?thesis using root_outputs[OF r0 _ wne] lo by (simp add: labs_ok_def)
  next
    case False
    then have "node_done W lab st t" using low w(4) dt by simp
    then show ?thesis by (simp add: node_done_def)
  qed
  let ?out = "fold List.insert (outputs (st ! t)) (outputs (st ! n'))"
  let ?st1 = "st[n' := (st ! n')\<lparr>terminal := (?out \<noteq> [] \<or> terminal (st ! n')),
                           outputs := ?out, link_fail := Some t\<rparr>]"
  have sf: "set_failure st v c n' = Some (Inr ?st1)"
    unfolding set_failure_def by (simp add: f0(1) w(1) w(3) Let_def)
  have ne': "lab ! n' \<noteq> []" using n'(2) by simp
  have "set ?out = out_lab W (lab ! t) \<union> {e. (lab ! n', e) \<in> set W}"
    using outt e(2) by (simp add: set_fold_insert node_init_def)
  then have so: "set ?out = out_lab W (lab ! n')"
    unfolding labt using out_lab_fail[OF ne', of W] by auto
  have dso: "distinct ?out" using e(2) by (simp add: distinct_fold_insert node_init_def)
  have "terminal (st ! n') \<longrightarrow> ?out \<noteq> []"
  proof
    assume "terminal (st ! n')"
    then have "outputs (st ! n') \<noteq> []" using e(2) by (simp add: node_init_def)
    then have "set (outputs (st ! n')) \<noteq> {}" by simp
    then have "set ?out \<noteq> {}" unfolding set_fold_insert by blast
    then show "?out \<noteq> []" by auto
  qed
  then have tm: "(?out \<noteq> [] \<or> terminal (st ! n')) \<longleftrightarrow> ?out \<noteq> []" by blast
  have "node_done W lab ?st1 n'"
    unfolding node_done_def using n'(1) w(4) labt so dso tm by simp
  moreover have "\<forall>n < length st. n \<noteq> n' \<longrightarrow> ?st1 ! n = st ! n" by simp
  moreover have "links (?st1 ! n') = links (st ! n')" using n'(1) by simp
  ultimately show ?thesis using sf by (intro exI[of _ ?st1]) simp
qed

lemma failure_edges_done:
  assumes tr: "trie_inv (labels W) lab st" and wne: "\<forall>x \<in> set W. fst x \<noteq> []"
    and v: "v < length st" "v \<noteq> 0" "node_done W lab st v"
    and low: "\<forall>n < length st. n \<noteq> 0 \<and> length (lab ! n) \<le> length (lab ! v) \<longrightarrow> node_done W lab st n"
    and r0: "node_init W lab st 0"
    and es: "\<forall>x \<in> set es. links (st ! v) (fst x) = Some (snd x) \<and> node_init W lab st (snd x)"
      "distinct (map snd es)"
  shows "\<exists>st'. failure_edges st v es q = Some (Inr (st', q @ map snd es))
           \<and> length st' = length st
           \<and> (\<forall>n < length st. links (st' ! n) = links (st ! n))
           \<and> (\<forall>n < length st. n \<notin> snd ` set es \<longrightarrow> st' ! n = st ! n)
           \<and> (\<forall>n \<in> snd ` set es. node_done W lab st' n)"
  using tr v low r0 es
proof (induction es arbitrary: st q)
  case Nil
  then show ?case by simp
next
  case (Cons x es)
  obtain c n' where x: "x = (c, n')" by (cases x)
  have e: "links (st ! v) c = Some n'" "node_init W lab st n'"
    using Cons.prems(7) x by auto
  from set_failure_done[OF Cons.prems(1) wne Cons.prems(2,3,4,5,6) e] obtain st1 where
    s1: "set_failure st v c n' = Some (Inr st1)" "length st1 = length st"
      "\<forall>n < length st. n \<noteq> n' \<longrightarrow> st1 ! n = st ! n"
      "links (st1 ! n') = links (st ! n')" "node_done W lab st1 n'"
    by blast
  have n': "n' < length st" "lab ! n' = lab ! v @ [c]"
    using trie_inv_link_Some[OF Cons.prems(1,2) e(1)] by auto
  have vn: "v \<noteq> n'" using n'(2) by auto
  have lk: "links (st1 ! n) = links (st ! n)" if "n < length st" for n
    using s1(3,4) that by (cases "n = n'") auto
  have tr1: "trie_inv (labels W) lab st1"
    by (rule trie_inv_links_cong[OF Cons.prems(1) s1(2)]) (rule lk)
  have v1: "v < length st1" "node_done W lab st1 v"
    using Cons.prems(2,4) s1(2,3) vn node_done_cong[of st1 v st W lab] by auto
  have low1: "\<forall>n < length st1. n \<noteq> 0 \<and> length (lab ! n) \<le> length (lab ! v) \<longrightarrow> node_done W lab st1 n"
  proof (intro allI impI)
    fix n assume a: "n < length st1" "n \<noteq> 0 \<and> length (lab ! n) \<le> length (lab ! v)"
    then have "n \<noteq> n'" using n'(2) by auto
    then have "st1 ! n = st ! n" using s1(2,3) a(1) by simp
    then show "node_done W lab st1 n"
      using Cons.prems(5) a s1(2) node_done_cong[of st1 n st W lab] by simp
  qed
  have "lab ! 0 = []" using trie_inv_labs_ok[OF Cons.prems(1)] by (simp add: labs_ok_def)
  then have "0 \<noteq> n'" using n'(2) by (cases "n' = 0") auto
  then have r1: "node_init W lab st1 0"
    using Cons.prems(6) s1(2,3) trie_inv_labs_ok[OF Cons.prems(1)]
      node_init_cong[of st1 0 st W lab] by (simp add: labs_ok_def)
  have es1: "\<forall>y \<in> set es. links (st1 ! v) (fst y) = Some (snd y) \<and> node_init W lab st1 (snd y)"
  proof
    fix y assume y: "y \<in> set es"
    then have a: "links (st ! v) (fst y) = Some (snd y)" "node_init W lab st (snd y)"
      using Cons.prems(7) by auto
    have "snd y \<noteq> n'" using Cons.prems(8) y x by auto
    moreover have "snd y < length st" using trie_inv_link_Some[OF Cons.prems(1,2) a(1)] by simp
    ultimately have "st1 ! snd y = st ! snd y" using s1(3) by simp
    then show "links (st1 ! v) (fst y) = Some (snd y) \<and> node_init W lab st1 (snd y)"
      using a lk[OF Cons.prems(2)] node_init_cong[of st1 "snd y" st W lab] by simp
  qed
  have d1: "distinct (map snd es)" using Cons.prems(8) by simp
  from Cons.IH[OF tr1 v1(1) Cons.prems(3) v1(2) low1 r1 es1 d1, of "q @ [n']"] obtain st' where
    r: "failure_edges st1 v es (q @ [n']) = Some (Inr (st', (q @ [n']) @ map snd es))"
       "length st' = length st1"
       "\<forall>n < length st1. links (st' ! n) = links (st1 ! n)"
       "\<forall>n < length st1. n \<notin> snd ` set es \<longrightarrow> st' ! n = st1 ! n"
       "\<forall>n \<in> snd ` set es. node_done W lab st' n"
    by blast
  have "n' \<notin> snd ` set es" using Cons.prems(8) x by auto
  then have "st' ! n' = st1 ! n'" using r(4) n'(1) s1(2) by simp
  then have dn': "node_done W lab st' n'"
    using s1(5) r(2) node_done_cong[of st' n' st1 W lab] by simp
  have "failure_edges st v (x # es) q = Some (Inr (st', q @ map snd (x # es)))"
    using s1(1) r(1) x by simp
  moreover have "\<forall>n < length st. links (st' ! n) = links (st ! n)"
    using r(3) lk s1(2) by simp
  moreover have "\<forall>n < length st. n \<notin> snd ` set (x # es) \<longrightarrow> st' ! n = st ! n"
    using r(4) s1(2,3) x by auto
  moreover have "\<forall>n \<in> snd ` set (x # es). node_done W lab st' n"
    using r(5) dn' x by auto
  ultimately show ?case using r(2) s1(2) by (intro exI[of _ st']) simp
qed

lemma entries_set: "set (entries m) = {(c, n). m c = Some n}"
proof -
  have "set (List.map_filter (\<lambda>c. map_option (Pair c) (m c)) xs) = {(c, n). c \<in> set xs \<and> m c = Some n}"
    for xs :: "char list"
    by (induction xs) (auto split: option.splits)
  then show ?thesis by (simp add: entries_def enum_UNIV)
qed

lemma sorted_const: "\<forall>x \<in> set xs. f x = (k::nat) \<Longrightarrow> sorted (map f xs)"
  by (induction xs) auto

lemma entries_fst: "map fst (entries m) = filter (\<lambda>c. m c \<noteq> None) Enum.enum"
proof -
  have "map fst (List.map_filter (\<lambda>c. map_option (Pair c) (m c)) xs) = filter (\<lambda>c. m c \<noteq> None) xs"
    for xs :: "char list"
    by (induction xs) (auto split: option.splits)
  then show ?thesis by (simp add: entries_def)
qed

lemma entries_distinct_fst: "distinct (map fst (entries m))"
  unfolding entries_fst by (simp add: enum_distinct)

lemma entries_mem: "x \<in> set (entries m) \<longleftrightarrow> m (fst x) = Some (snd x)"
  unfolding entries_set by (cases x) simp

lemma trie_inv_parent:
  assumes "trie_inv L lab st" "n < length st" "n \<noteq> 0"
  shows "\<exists>p c. p < length st \<and> links (st ! p) c = Some n"
proof -
  have ne: "lab ! n \<noteq> []" using labs_ok_nonroot[OF trie_inv_labs_ok[OF assms(1)] assms(2,3)] .
  then obtain u c where uc: "lab ! n = u @ [c]" by (metis rev_exhaust)
  have "u @ [c] \<in> L" using trie_inv_lab_in[OF assms(1,2)] uc by simp
  moreover have "pclosed L" using assms(1) by (simp add: trie_inv_def)
  ultimately have "u \<in> L" unfolding pclosed_def by blast
  then obtain p where p: "p < length st" "lab ! p = u" using trie_inv_index[OF assms(1)] by blast
  show ?thesis
  proof (cases "links (st ! p) c")
    case None
    then show ?thesis using trie_inv_link_None[OF assms(1) p(1) None] p(2) \<open>u @ [c] \<in> L\<close> by simp
  next
    case (Some n')
    have "n' < length st" "lab ! n' = lab ! n"
      using trie_inv_link_Some[OF assms(1) p(1) Some] p(2) uc by auto
    then have "n' = n" using trie_inv_lab_inj[OF assms(1) _ assms(2)] by simp
    then show ?thesis using Some p(1) by blast
  qed
qed

lemma trie_inv_parent_unique:
  assumes "trie_inv L lab st" "p < length st" "p' < length st"
    "links (st ! p) c = Some n" "links (st ! p') c' = Some n"
  shows "p = p' \<and> c = c'"
proof -
  have "lab ! n = lab ! p @ [c]" "lab ! n = lab ! p' @ [c']"
    using trie_inv_link_Some[OF assms(1,2,4)] trie_inv_link_Some[OF assms(1,3,5)] by auto
  then have "lab ! p = lab ! p'" "c = c'" by auto
  then show ?thesis using trie_inv_lab_inj[OF assms(1,2,3)] by simp
qed

lemma trie_inv_children_distinct:
  assumes "trie_inv L lab st" "v < length st"
  shows "distinct (map snd (entries (links (st ! v))))"
proof -
  have "inj_on snd (set (entries (links (st ! v))))"
  proof (rule inj_onI)
    fix x y assume a: "x \<in> set (entries (links (st ! v)))" "y \<in> set (entries (links (st ! v)))"
      "snd x = snd y"
    then have "links (st ! v) (fst x) = Some (snd x)" "links (st ! v) (fst y) = Some (snd x)"
      by (simp_all add: entries_mem)
    then have "fst x = fst y" using trie_inv_parent_unique[OF assms(1,2,2)] by blast
    then show "x = y" using a(3) by (simp add: prod_eq_iff)
  qed
  moreover have "distinct (entries (links (st ! v)))"
    using entries_distinct_fst[of "links (st ! v)"] by (simp add: distinct_map)
  ultimately show ?thesis by (simp add: distinct_map)
qed

lemma failure_root_result:
  "\<exists>st'. failure_root st es q = (st', q @ map snd es) \<and> length st' = length st
     \<and> (\<forall>n < length st. n \<notin> snd ` set es \<longrightarrow> st' ! n = st ! n)
     \<and> (\<forall>n < length st. n \<in> snd ` set es \<longrightarrow> st' ! n = (st ! n)\<lparr>link_fail := Some root\<rparr>)"
proof (induction es arbitrary: st q)
  case Nil
  then show ?case by simp
next
  case (Cons x es)
  obtain c nd where x: "x = (c, nd)" by (cases x)
  let ?st1 = "st[nd := (st ! nd)\<lparr>link_fail := Some root\<rparr>]"
  from Cons.IH[of ?st1 "q @ [nd]"] obtain st' where
    r: "failure_root ?st1 es (q @ [nd]) = (st', (q @ [nd]) @ map snd es)" "length st' = length ?st1"
      "\<forall>n < length ?st1. n \<notin> snd ` set es \<longrightarrow> st' ! n = ?st1 ! n"
      "\<forall>n < length ?st1. n \<in> snd ` set es \<longrightarrow> st' ! n = (?st1 ! n)\<lparr>link_fail := Some root\<rparr>"
    by blast
  have a: "st' ! n = st ! n" if "n < length st" "n \<notin> snd ` set (x # es)" for n
    using r(3) that x by simp
  have b: "st' ! n = (st ! n)\<lparr>link_fail := Some root\<rparr>" if "n < length st" "n \<in> snd ` set (x # es)" for n
  proof (cases "n \<in> snd ` set es")
    case True
    then have "st' ! n = (?st1 ! n)\<lparr>link_fail := Some root\<rparr>" using r(4) that(1) by simp
    then show ?thesis using that(1) by (cases "n = nd") simp_all
  next
    case False
    then have "n = nd" using that(2) x by simp
    then show ?thesis using r(3) False that(1) by simp
  qed
  show ?case using r(1,2) a b x by (intro exI[of _ st']) simp
qed

text \<open>
  The invariant of the queue loop: \<open>q\<close> holds the nodes whose own failure link is set and
  whose children are still untouched, in order of depth; \<open>d\<close> is the depth being served.
\<close>

definition bfs_inv :: "(string \<times> int) list \<Rightarrow> string list \<Rightarrow> node list \<Rightarrow> nat list \<Rightarrow> nat \<Rightarrow> bool" where
  "bfs_inv W lab st q d \<longleftrightarrow>
     trie_inv (labels W) lab st \<and> node_init W lab st 0
     \<and> distinct q
     \<and> (\<forall>n \<in> set q. n < length st \<and> n \<noteq> 0 \<and> node_done W lab st n
           \<and> d \<le> length (lab ! n) \<and> length (lab ! n) \<le> d + 1)
     \<and> sorted (map (\<lambda>n. length (lab ! n)) q)
     \<and> (\<forall>n < length st. n \<noteq> 0 \<longrightarrow> node_done W lab st n \<or> node_init W lab st n)
     \<and> (\<forall>n < length st. \<forall>c n'. links (st ! n) c = Some n' \<longrightarrow>
          (link_fail (st ! n') \<noteq> None \<longleftrightarrow> n = 0 \<or> (link_fail (st ! n) \<noteq> None \<and> n \<notin> set q)))
     \<and> (\<forall>n < length st. n \<noteq> 0 \<and> length (lab ! n) < d \<longrightarrow> link_fail (st ! n) \<noteq> None \<and> n \<notin> set q)
     \<and> (\<forall>n < length st. link_fail (st ! n) \<noteq> None \<and> n \<notin> set q \<longrightarrow> length (lab ! n) \<le> d)"

lemma bfs_inv_initial:
  assumes tb: "trie_built W lab st" and wne: "\<forall>x \<in> set W. fst x \<noteq> []"
  shows "\<exists>st1 q1. failure_root st (entries (links (st ! root))) [] = (st1, q1)
          \<and> bfs_inv W lab st1 q1 1 \<and> length st1 = length st
          \<and> (\<forall>n < length st. links (st1 ! n) = links (st ! n))"
proof -
  define es where "es = entries (links (st ! root))"
  define K where "K = snd ` set es"
  let ?L = "labels W"
  have tr: "trie_inv ?L lab st" and ini: "\<And>n. n < length st \<Longrightarrow> node_init W lab st n"
    using tb by (auto simp: trie_built_def)
  have lo: "labs_ok ?L lab st" using tr by (rule trie_inv_labs_ok)
  have r0: "0 < length st" "lab ! 0 = []" using lo by (auto simp: labs_ok_def)
  from failure_root_result[of st es "[]"] obtain st1 where
    r: "failure_root st es [] = (st1, map snd es)" "length st1 = length st"
      "\<forall>n < length st. n \<notin> K \<longrightarrow> st1 ! n = st ! n"
      "\<forall>n < length st. n \<in> K \<longrightarrow> st1 ! n = (st ! n)\<lparr>link_fail := Some root\<rparr>"
    unfolding append_Nil K_def by blast
  have ch: "n \<in> K \<longleftrightarrow> (\<exists>c. links (st ! 0) c = Some n)" for n
  proof
    assume "n \<in> K"
    then obtain x where "x \<in> set es" "snd x = n" unfolding K_def by blast
    then have "links (st ! 0) (fst x) = Some n" by (simp add: es_def entries_mem root_def)
    then show "\<exists>c. links (st ! 0) c = Some n" by blast
  next
    assume "\<exists>c. links (st ! 0) c = Some n"
    then obtain c where "links (st ! 0) c = Some n" by blast
    then have "(c, n) \<in> set es" by (simp add: es_def entries_mem root_def)
    then show "n \<in> K" unfolding K_def by (rule image_eqI[rotated]) simp
  qed
  have chl: "n < length st \<and> n \<noteq> 0 \<and> length (lab ! n) = 1" if "n \<in> K" for n
  proof -
    have "\<exists>c. links (st ! 0) c = Some n" using that by (simp only: ch)
    then obtain c where "links (st ! 0) c = Some n" by (rule exE)
    then have "n < length st" "lab ! n = [c]"
      using trie_inv_link_Some[OF tr r0(1)] r0(2) by auto
    then show ?thesis using r0(2) by (cases "n = 0") auto
  qed
  have lk: "links (st1 ! n) = links (st ! n)" if "n < length st" for n
    using r(3,4) that by (cases "n \<in> K") auto
  have tr1: "trie_inv ?L lab st1"
    by (rule trie_inv_links_cong[OF tr r(2)]) (rule lk)
  have i1: "node_init W lab st1 n" if "n < length st" "n \<notin> K" for n
    using ini[OF that(1)] r(3) that node_init_cong[of st1 n st W lab] by simp
  have d1: "node_done W lab st1 n" if "n \<in> K" for n
  proof -
    have n: "n < length st" "n \<noteq> 0" "length (lab ! n) = 1" using chl[OF that] by auto
    then obtain c where c: "lab ! n = [c]" by (cases "lab ! n") auto
    have s: "st1 ! n = (st ! n)\<lparr>link_fail := Some root\<rparr>" using r(4) n(1) that by simp
    have i: "link_fail (st ! n) = None" "set (outputs (st ! n)) = {e. (lab ! n, e) \<in> set W}"
      "distinct (outputs (st ! n))" "terminal (st ! n) \<longleftrightarrow> outputs (st ! n) \<noteq> []"
      using ini[OF n(1)] by (simp_all add: node_init_def)
    have o: "set (outputs (st ! n)) = out_lab W (lab ! n)"
      using i(2) c out_lab_single[OF wne, of c] by simp
    have f: "lab ! 0 = lsuf (labels W) (tl (lab ! n))" using r0(2) c by simp
    show ?thesis
      unfolding node_done_def s using o i(3,4) f r0(1) r(2) by (simp add: root_def)
  qed
  have as: "link_fail (st1 ! n) \<noteq> None \<longleftrightarrow> n \<in> K" if "n < length st" for n
  proof (cases "n \<in> K")
    case True
    then show ?thesis using r(4) that by simp
  next
    case False
    then show ?thesis using i1[OF that False] by (simp add: node_init_def)
  qed
  have sq: "set (map snd es) = K" by (simp add: K_def)
  have "bfs_inv W lab st1 (map snd es) 1"
    unfolding bfs_inv_def sq
  proof (intro conjI ballI allI impI)
    show "trie_inv ?L lab st1" by (rule tr1)
    show "node_init W lab st1 0" using i1[OF r0(1)] chl by blast
    show "distinct (map snd es)"
      using trie_inv_children_distinct[OF tr r0(1)] by (simp add: es_def root_def)
    show "sorted (map (\<lambda>n. length (lab ! n)) (map snd es))"
    proof (rule sorted_const[where k = 1], rule ballI)
      fix n assume "n \<in> set (map snd es)"
      then have "n \<in> K" by (simp add: K_def)
      then show "length (lab ! n) = 1" using chl by blast
    qed
  next
    fix n assume m: "n \<in> K"
    show "n < length st1" "n \<noteq> 0" "node_done W lab st1 n" "1 \<le> length (lab ! n)"
      "length (lab ! n) \<le> 1 + 1"
      using chl[OF m] d1[OF m] r(2) by auto
  next
    fix n assume "n < length st1" "n \<noteq> 0"
    then show "node_done W lab st1 n \<or> node_init W lab st1 n"
      using d1[of n] i1[of n] r(2) by auto
  next
    fix n c n' assume a: "n < length st1" "links (st1 ! n) c = Some n'"
    then have n: "n < length st" and l: "links (st ! n) c = Some n'" using r(2) lk by auto
    have n': "n' < length st" using trie_inv_link_Some[OF tr n l] by simp
    have "n' \<in> K \<longleftrightarrow> n = 0"
    proof
      assume "n' \<in> K"
      then obtain c' where "links (st ! 0) c' = Some n'" using ch by blast
      then show "n = 0" using trie_inv_parent_unique[OF tr n r0(1) l] by simp
    next
      assume "n = 0"
      then show "n' \<in> K" using l ch by blast
    qed
    moreover have "\<not> (link_fail (st1 ! n) \<noteq> None \<and> n \<notin> K)"
      using as[OF n] by simp
    ultimately show "link_fail (st1 ! n') \<noteq> None \<longleftrightarrow>
        n = 0 \<or> (link_fail (st1 ! n) \<noteq> None \<and> n \<notin> K)"
      using as[OF n'] by blast
  next
    fix n assume "n < length st1" "n \<noteq> 0 \<and> length (lab ! n) < 1"
    then have False using labs_ok_nonroot[OF lo, of n] r(2) by simp
    then show "link_fail (st1 ! n) \<noteq> None" "n \<notin> K" by auto
  next
    fix n assume "n < length st1" "link_fail (st1 ! n) \<noteq> None \<and> n \<notin> K"
    then have False using as[of n] r(2) by simp
    then show "length (lab ! n) \<le> 1" by simp
  qed
  then show ?thesis using r(1,2) lk unfolding es_def
    by (intro exI[of _ st1] exI[of _ "map snd (entries (links (st ! root)))"]) simp
qed

lemma bfs_invI:
  assumes "trie_inv (labels W) lab st" "node_init W lab st 0" "distinct q"
    "\<And>n. n \<in> set q \<Longrightarrow> n < length st \<and> n \<noteq> 0 \<and> node_done W lab st n
           \<and> d \<le> length (lab ! n) \<and> length (lab ! n) \<le> d + 1"
    "sorted (map (\<lambda>n. length (lab ! n)) q)"
    "\<And>n. n < length st \<Longrightarrow> n \<noteq> 0 \<Longrightarrow> node_done W lab st n \<or> node_init W lab st n"
    "\<And>n c n'. n < length st \<Longrightarrow> links (st ! n) c = Some n' \<Longrightarrow>
          (link_fail (st ! n') \<noteq> None \<longleftrightarrow> n = 0 \<or> (link_fail (st ! n) \<noteq> None \<and> n \<notin> set q))"
    "\<And>n. n < length st \<Longrightarrow> n \<noteq> 0 \<Longrightarrow> length (lab ! n) < d \<Longrightarrow>
          link_fail (st ! n) \<noteq> None \<and> n \<notin> set q"
    "\<And>n. n < length st \<Longrightarrow> link_fail (st ! n) \<noteq> None \<Longrightarrow> n \<notin> set q \<Longrightarrow> length (lab ! n) \<le> d"
  shows "bfs_inv W lab st q d"
  unfolding bfs_inv_def using assms by simp

lemma bfs_inv_trie: "bfs_inv W lab st q d \<Longrightarrow> trie_inv (labels W) lab st"
  by (simp add: bfs_inv_def)

lemma bfs_inv_root: "bfs_inv W lab st q d \<Longrightarrow> node_init W lab st 0"
  by (simp add: bfs_inv_def)

lemma bfs_inv_distinct: "bfs_inv W lab st q d \<Longrightarrow> distinct q"
  by (simp add: bfs_inv_def)

lemma bfs_inv_queue:
  "bfs_inv W lab st q d \<Longrightarrow> n \<in> set q \<Longrightarrow> n < length st \<and> n \<noteq> 0 \<and> node_done W lab st n
           \<and> d \<le> length (lab ! n) \<and> length (lab ! n) \<le> d + 1"
  by (simp add: bfs_inv_def)

lemma bfs_inv_sorted: "bfs_inv W lab st q d \<Longrightarrow> sorted (map (\<lambda>n. length (lab ! n)) q)"
  by (simp add: bfs_inv_def)

lemma bfs_inv_either:
  "bfs_inv W lab st q d \<Longrightarrow> n < length st \<Longrightarrow> n \<noteq> 0 \<Longrightarrow> node_done W lab st n \<or> node_init W lab st n"
  by (simp add: bfs_inv_def)

lemma bfs_inv_child:
  "bfs_inv W lab st q d \<Longrightarrow> n < length st \<Longrightarrow> links (st ! n) c = Some n' \<Longrightarrow>
     (link_fail (st ! n') \<noteq> None \<longleftrightarrow> n = 0 \<or> (link_fail (st ! n) \<noteq> None \<and> n \<notin> set q))"
  by (simp add: bfs_inv_def)

lemma bfs_inv_below:
  "bfs_inv W lab st q d \<Longrightarrow> n < length st \<Longrightarrow> n \<noteq> 0 \<Longrightarrow> length (lab ! n) < d \<Longrightarrow>
     link_fail (st ! n) \<noteq> None \<and> n \<notin> set q"
  by (simp add: bfs_inv_def)

lemma bfs_inv_popped:
  "bfs_inv W lab st q d \<Longrightarrow> n < length st \<Longrightarrow> link_fail (st ! n) \<noteq> None \<Longrightarrow> n \<notin> set q
     \<Longrightarrow> length (lab ! n) \<le> d"
  by (simp add: bfs_inv_def)

lemma node_done_assigned: "node_done W lab st n \<Longrightarrow> link_fail (st ! n) \<noteq> None"
  by (auto simp: node_done_def)

lemma node_init_unassigned: "node_init W lab st n \<Longrightarrow> link_fail (st ! n) = None"
  by (simp add: node_init_def)

lemma bfs_inv_assigned:
  assumes inv: "bfs_inv W lab st q d" and n: "n < length st" "n \<noteq> 0" "length (lab ! n) \<le> d"
  shows "node_done W lab st n"
proof -
  have tr: "trie_inv (labels W) lab st" using inv by (rule bfs_inv_trie)
  obtain p c where p: "p < length st" "links (st ! p) c = Some n"
    using trie_inv_parent[OF tr n(1,2)] by blast
  have "lab ! n = lab ! p @ [c]" using trie_inv_link_Some[OF tr p] by simp
  then have dp: "length (lab ! p) < d" using n(3) by simp
  have c: "link_fail (st ! n) \<noteq> None \<longleftrightarrow> p = 0 \<or> (link_fail (st ! p) \<noteq> None \<and> p \<notin> set q)"
    using bfs_inv_child[OF inv p] .
  have "link_fail (st ! n) \<noteq> None"
  proof (cases "p = 0")
    case True
    then show ?thesis using c by simp
  next
    case False
    then show ?thesis using bfs_inv_below[OF inv p(1) False dp] c by simp
  qed
  then show ?thesis using bfs_inv_either[OF inv n(1,2)] node_init_unassigned[of W lab st n] by auto
qed

lemma bfs_inv_shift:
  assumes inv: "bfs_inv W lab st (v # q) d" and dv: "length (lab ! v) \<noteq> d"
  shows "bfs_inv W lab st (v # q) (Suc d)"
proof -
  have srt: "sorted (map (\<lambda>n. length (lab ! n)) (v # q))" using inv by (rule bfs_inv_sorted)
  have v: "length (lab ! v) = d + 1" using bfs_inv_queue[OF inv, of v] dv by simp
  have all: "length (lab ! n) = d + 1" if "n \<in> set (v # q)" for n
  proof -
    have "length (lab ! v) \<le> length (lab ! n)" using srt that by auto
    then show ?thesis using bfs_inv_queue[OF inv that] v by simp
  qed
  show ?thesis
  proof (rule bfs_invI)
    show "trie_inv (labels W) lab st" using inv by (rule bfs_inv_trie)
    show "node_init W lab st 0" using inv by (rule bfs_inv_root)
    show "distinct (v # q)" using inv by (rule bfs_inv_distinct)
    show "sorted (map (\<lambda>n. length (lab ! n)) (v # q))" by (rule srt)
  next
    fix n assume "n \<in> set (v # q)"
    then show "n < length st \<and> n \<noteq> 0 \<and> node_done W lab st n
           \<and> Suc d \<le> length (lab ! n) \<and> length (lab ! n) \<le> Suc d + 1"
      using bfs_inv_queue[OF inv, of n] all[of n] by simp
  next
    fix n assume "n < length st" "n \<noteq> 0"
    then show "node_done W lab st n \<or> node_init W lab st n" using inv by (rule bfs_inv_either[rotated])
  next
    fix n c n' assume "n < length st" "links (st ! n) c = Some n'"
    then show "link_fail (st ! n') \<noteq> None \<longleftrightarrow>
        n = 0 \<or> (link_fail (st ! n) \<noteq> None \<and> n \<notin> set (v # q))"
      using inv by (rule bfs_inv_child[rotated])
  next
    fix n assume n: "n < length st" "n \<noteq> 0" "length (lab ! n) < Suc d"
    then have "node_done W lab st n" using bfs_inv_assigned[OF inv n(1,2)] by simp
    then have "link_fail (st ! n) \<noteq> None" by (rule node_done_assigned)
    moreover have "n \<notin> set (v # q)" using all[of n] n(3) by auto
    ultimately show "link_fail (st ! n) \<noteq> None \<and> n \<notin> set (v # q)" by simp
  next
    fix n assume "n < length st" "link_fail (st ! n) \<noteq> None" "n \<notin> set (v # q)"
    then have "length (lab ! n) \<le> d" using inv by (rule bfs_inv_popped[rotated])
    then show "length (lab ! n) \<le> Suc d" by simp
  qed
qed


lemma bfs_step:
  assumes inv: "bfs_inv W lab st (v # q) d" and dv: "length (lab ! v) = d"
    and wne: "\<forall>x \<in> set W. fst x \<noteq> []"
  shows "\<exists>st' q'. failure_edges st v (entries (links (st ! v))) q = Some (Inr (st', q'))
           \<and> bfs_inv W lab st' q' d \<and> length st' = length st
           \<and> (\<forall>n < length st. links (st' ! n) = links (st ! n))
           \<and> (\<forall>n < length st. n \<noteq> v \<longrightarrow>
                 (link_fail (st' ! n) \<noteq> None \<and> n \<notin> set q'
                    \<longleftrightarrow> link_fail (st ! n) \<noteq> None \<and> n \<notin> set (v # q)))
           \<and> link_fail (st' ! v) \<noteq> None \<and> v \<notin> set q'"
proof -
  define es where "es = entries (links (st ! v))"
  define K where "K = snd ` set es"
  have tr: "trie_inv (labels W) lab st" using inv by (rule bfs_inv_trie)
  have lo: "labs_ok (labels W) lab st" using tr by (rule trie_inv_labs_ok)
  have r0: "node_init W lab st 0" using inv by (rule bfs_inv_root)
  have l0: "lab ! 0 = []" using lo by (simp add: labs_ok_def)
  have v: "v < length st" "v \<noteq> 0" "node_done W lab st v"
    using bfs_inv_queue[OF inv, of v] by simp_all
  have dq: "distinct (v # q)" using inv by (rule bfs_inv_distinct)
  have low: "\<forall>n < length st. n \<noteq> 0 \<and> length (lab ! n) \<le> length (lab ! v) \<longrightarrow> node_done W lab st n"
    using bfs_inv_assigned[OF inv] dv by simp
  have Kc: "n \<in> K \<longleftrightarrow> (\<exists>c. links (st ! v) c = Some n)" for n
  proof
    assume "n \<in> K"
    then obtain x where "x \<in> set es" "snd x = n" unfolding K_def by blast
    then have "links (st ! v) (fst x) = Some n" by (simp add: es_def entries_mem)
    then show "\<exists>c. links (st ! v) c = Some n" by blast
  next
    assume "\<exists>c. links (st ! v) c = Some n"
    then obtain c where "links (st ! v) c = Some n" by blast
    then have "(c, n) \<in> set es" by (simp add: es_def entries_mem)
    then show "n \<in> K" unfolding K_def by (rule image_eqI[rotated]) simp
  qed
  have Kp: "n < length st \<and> n \<noteq> 0 \<and> length (lab ! n) = d + 1 \<and> node_init W lab st n"
    if "n \<in> K" for n
  proof -
    have "\<exists>c. links (st ! v) c = Some n" using that by (simp only: Kc)
    then obtain c where c: "links (st ! v) c = Some n" by (rule exE)
    have a: "n < length st" "lab ! n = lab ! v @ [c]"
      using trie_inv_link_Some[OF tr v(1) c] by auto
    have n0: "n \<noteq> 0" using a(2) l0 by (cases "n = 0") auto
    have "\<not> (link_fail (st ! n) \<noteq> None)"
      using bfs_inv_child[OF inv v(1) c] v(2) by simp
    then have "\<not> node_done W lab st n" using node_done_assigned[of W lab st n] by blast
    then have "node_init W lab st n" using bfs_inv_either[OF inv a(1) n0] by simp
    then show ?thesis using a n0 dv by simp
  qed
  have es1: "\<forall>x \<in> set es. links (st ! v) (fst x) = Some (snd x) \<and> node_init W lab st (snd x)"
  proof
    fix x assume x: "x \<in> set es"
    then have "snd x \<in> K" unfolding K_def by (rule imageI)
    then show "links (st ! v) (fst x) = Some (snd x) \<and> node_init W lab st (snd x)"
      using x Kp by (simp add: es_def entries_mem)
  qed
  have es2: "distinct (map snd es)"
    unfolding es_def using tr v(1) by (rule trie_inv_children_distinct)
  from failure_edges_done[OF tr wne v low r0 es1 es2, of q] obtain st' where
    r: "failure_edges st v es q = Some (Inr (st', q @ map snd es))"
       "length st' = length st"
       "\<forall>n < length st. links (st' ! n) = links (st ! n)"
       "\<forall>n < length st. n \<notin> K \<longrightarrow> st' ! n = st ! n"
       "\<forall>n \<in> K. node_done W lab st' n"
    unfolding K_def by blast
  define q' where "q' = q @ map snd es"
  have sq': "set q' = set q \<union> K" by (simp add: q'_def K_def)
  have un: "st' ! n = st ! n" if "n < length st" "n \<notin> K" for n
    using r(4) that by simp
  have vK: "v \<notin> K" using Kp[of v] dv by auto
  have qK: "n \<notin> K" if "n \<in> set (v # q)" for n
    using bfs_inv_queue[OF inv that] Kp[of n] node_done_not_init[of W lab st n] by blast
  have asg: "link_fail (st' ! n) \<noteq> None \<longleftrightarrow> link_fail (st ! n) \<noteq> None \<or> n \<in> K"
    if "n < length st" for n
  proof (cases "n \<in> K")
    case True
    then show ?thesis using r(5) node_done_assigned[of W lab st' n] by blast
  next
    case False
    then show ?thesis using un[OF that] by simp
  qed
  have tr': "trie_inv (labels W) lab st'"
    by (rule trie_inv_links_cong[OF tr r(2)]) (use r(3) in simp)
  have inv': "bfs_inv W lab st' q' d"
  proof (rule bfs_invI)
    show "trie_inv (labels W) lab st'" by (rule tr')
    have "0 \<notin> K" using Kp[of 0] by auto
    then show "node_init W lab st' 0"
      using r0 un[of 0] lo node_init_cong[of st' 0 st W lab] by (simp add: labs_ok_def)
    have "set q \<inter> set (map snd es) = {}" using qK unfolding K_def by auto
    then show "distinct q'" unfolding q'_def using dq es2 by simp
    have "sorted (map (\<lambda>n. length (lab ! n)) (map snd es))"
    proof (rule sorted_const[where k = "d + 1"], rule ballI)
      fix n assume "n \<in> set (map snd es)"
      then have "n \<in> K" by (simp add: K_def)
      then show "length (lab ! n) = d + 1" using Kp by blast
    qed
    moreover have "sorted (map (\<lambda>n. length (lab ! n)) q)"
      using bfs_inv_sorted[OF inv] by simp
    moreover have "length (lab ! x) \<le> length (lab ! y)"
      if "x \<in> set q" "y \<in> set (map snd es)" for x y
    proof -
      have "y \<in> K" using that(2) by (simp add: K_def)
      then have "length (lab ! y) = d + 1" using Kp by blast
      moreover have "length (lab ! x) \<le> d + 1" using bfs_inv_queue[OF inv, of x] that(1) by simp
      ultimately show ?thesis by simp
    qed
    ultimately show "sorted (map (\<lambda>n. length (lab ! n)) q')"
      unfolding q'_def by (simp add: sorted_append)
  next
    fix n assume n: "n \<in> set q'"
    show "n < length st' \<and> n \<noteq> 0 \<and> node_done W lab st' n
           \<and> d \<le> length (lab ! n) \<and> length (lab ! n) \<le> d + 1"
    proof (cases "n \<in> K")
      case True
      then show ?thesis using Kp[OF True] r(2,5) by simp
    next
      case False
      then have nq: "n \<in> set (v # q)" using n sq' by simp
      have a: "n < length st \<and> n \<noteq> 0 \<and> node_done W lab st n
           \<and> d \<le> length (lab ! n) \<and> length (lab ! n) \<le> d + 1"
        using bfs_inv_queue[OF inv nq] .
      then have "st' ! n = st ! n" using un False by simp
      then show ?thesis using a r(2) node_done_cong[of st' n st W lab] by simp
    qed
  next
    fix n assume n: "n < length st'" "n \<noteq> 0"
    show "node_done W lab st' n \<or> node_init W lab st' n"
    proof (cases "n \<in> K")
      case True
      then show ?thesis using r(5) by blast
    next
      case False
      then have "st' ! n = st ! n" using un n(1) r(2) by simp
      then show ?thesis
        using bfs_inv_either[OF inv, of n] n r(2)
          node_done_cong[of st' n st W lab] node_init_cong[of st' n st W lab] by simp
    qed
  next
    fix n c n' assume a: "n < length st'" "links (st' ! n) c = Some n'"
    then have n: "n < length st" and l: "links (st ! n) c = Some n'" using r(2,3) by auto
    have n': "n' < length st" using trie_inv_link_Some[OF tr n l] by simp
    have old: "link_fail (st ! n') \<noteq> None \<longleftrightarrow>
        n = 0 \<or> (link_fail (st ! n) \<noteq> None \<and> n \<notin> set (v # q))"
      using bfs_inv_child[OF inv n l] .
    show "link_fail (st' ! n') \<noteq> None \<longleftrightarrow>
        n = 0 \<or> (link_fail (st' ! n) \<noteq> None \<and> n \<notin> set q')"
    proof (cases "n = v")
      case True
      then have "n' \<in> K" using l Kc by blast
      then have "link_fail (st' ! n') \<noteq> None" using asg[OF n'] by simp
      moreover have "link_fail (st' ! v) \<noteq> None"
        using asg[OF v(1)] node_done_assigned[OF v(3)] by simp
      moreover have "v \<notin> set q'" using sq' vK dq by simp
      ultimately show ?thesis using True by simp
    next
      case False
      have "n' \<notin> K"
      proof
        assume "n' \<in> K"
        then have "\<exists>c'. links (st ! v) c' = Some n'" by (simp only: Kc)
        then obtain c' where "links (st ! v) c' = Some n'" by (rule exE)
        then show False using trie_inv_parent_unique[OF tr n v(1) l] False by simp
      qed
      then have e1: "link_fail (st' ! n') \<noteq> None \<longleftrightarrow> link_fail (st ! n') \<noteq> None"
        using asg[OF n'] by simp
      have e2: "(link_fail (st' ! n) \<noteq> None \<and> n \<notin> set q')
             \<longleftrightarrow> (link_fail (st ! n) \<noteq> None \<and> n \<notin> set (v # q))"
      proof (cases "n \<in> K")
        case True
        then have "link_fail (st ! n) = None" using Kp[OF True] node_init_unassigned by blast
        then show ?thesis using True sq' by simp
      next
        case False
        then show ?thesis using asg[OF n] sq' \<open>n \<noteq> v\<close> by simp
      qed
      show ?thesis unfolding e1 e2 using old .
    qed
  next
    fix n assume n: "n < length st'" "n \<noteq> 0" "length (lab ! n) < d"
    then have n1: "n < length st" using r(2) by simp
    have "link_fail (st ! n) \<noteq> None \<and> n \<notin> set (v # q)"
      using bfs_inv_below[OF inv n1 n(2,3)] .
    moreover have "n \<notin> K" using Kp[of n] n(3) by auto
    ultimately show "link_fail (st' ! n) \<noteq> None \<and> n \<notin> set q'"
      using asg[OF n1] sq' by simp
  next
    fix n assume n: "n < length st'" "link_fail (st' ! n) \<noteq> None" "n \<notin> set q'"
    then have n1: "n < length st" using r(2) by simp
    have nK: "n \<notin> K" using n(3) sq' by simp
    then have as: "link_fail (st ! n) \<noteq> None" using asg[OF n1] n(2) by simp
    show "length (lab ! n) \<le> d"
    proof (cases "n = v")
      case True
      then show ?thesis using dv by simp
    next
      case False
      then have "n \<notin> set (v # q)" using n(3) sq' by simp
      then show ?thesis using bfs_inv_popped[OF inv n1 as] by simp
    qed
  qed
  have pop: "link_fail (st' ! n) \<noteq> None \<and> n \<notin> set q'
                    \<longleftrightarrow> link_fail (st ! n) \<noteq> None \<and> n \<notin> set (v # q)"
    if "n < length st" "n \<noteq> v" for n
  proof (cases "n \<in> K")
    case True
    then have "link_fail (st ! n) = None" using Kp[OF True] node_init_unassigned by blast
    then show ?thesis using True sq' by simp
  next
    case False
    then show ?thesis using asg[OF that(1)] sq' that(2) by simp
  qed
  have pv: "link_fail (st' ! v) \<noteq> None \<and> v \<notin> set q'"
    using asg[OF v(1)] node_done_assigned[OF v(3)] sq' vK dq by simp
  show ?thesis
    using r(1,2,3) inv' pop pv unfolding es_def[symmetric] q'_def[symmetric]
    by (intro exI[of _ st'] exI[of _ q']) simp
qed

lemma bfs_inv_final:
  assumes inv: "bfs_inv W lab st [] d" and n: "n < length st" "n \<noteq> 0"
  shows "node_done W lab st n"
  using n
proof (induction "length (lab ! n)" arbitrary: n rule: less_induct)
  case less
  have tr: "trie_inv (labels W) lab st" using inv by (rule bfs_inv_trie)
  obtain p c where p: "p < length st" "links (st ! p) c = Some n"
    using trie_inv_parent[OF tr less.prems] by blast
  have "lab ! n = lab ! p @ [c]" using trie_inv_link_Some[OF tr p] by simp
  then have dp: "length (lab ! p) < length (lab ! n)" by simp
  have c: "link_fail (st ! n) \<noteq> None \<longleftrightarrow> p = 0 \<or> (link_fail (st ! p) \<noteq> None \<and> p \<notin> set [])"
    using bfs_inv_child[OF inv p] .
  have "link_fail (st ! n) \<noteq> None"
  proof (cases "p = 0")
    case True
    then show ?thesis using c by simp
  next
    case False
    have "node_done W lab st p" using less.hyps[OF dp p(1) False] .
    then show ?thesis using c node_done_assigned[of W lab st p] by simp
  qed
  then show ?case
    using bfs_inv_either[OF inv less.prems] node_init_unassigned[of W lab st n] by auto
qed

definition unpopped :: "node list \<Rightarrow> nat list \<Rightarrow> nat set" where
  "unpopped st q = {n. n < length st \<and> \<not> (link_fail (st ! n) \<noteq> None \<and> n \<notin> set q)}"

lemma failure_queue_correct:
  assumes inv: "bfs_inv W lab st q d" and wne: "\<forall>x \<in> set W. fst x \<noteq> []"
  shows "\<exists>st'. failure_queue st q = Some (Inr st') \<and> length st' = length st
           \<and> (\<forall>n < length st. links (st' ! n) = links (st ! n))
           \<and> trie_inv (labels W) lab st' \<and> node_init W lab st' 0
           \<and> (\<forall>n < length st. n \<noteq> 0 \<longrightarrow> node_done W lab st' n)"
  using inv
proof (induction "card (unpopped st q)" arbitrary: st q d rule: less_induct)
  case less
  show ?case
  proof (cases q)
    case Nil
    have "failure_queue st q = Some (Inr st)"
      by (subst failure_queue.simps) (simp add: Nil)
    moreover have "\<forall>n < length st. n \<noteq> 0 \<longrightarrow> node_done W lab st n"
      using bfs_inv_final[OF less.prems[unfolded Nil]] by simp
    ultimately show ?thesis
      using bfs_inv_trie[OF less.prems] bfs_inv_root[OF less.prems] by simp
  next
    case (Cons v q1)
    obtain d' where d': "bfs_inv W lab st (v # q1) d'" "length (lab ! v) = d'"
    proof (cases "length (lab ! v) = d")
      case True
      then show ?thesis using that less.prems Cons by simp
    next
      case False
      have i: "bfs_inv W lab st (v # q1) (Suc d)"
        using bfs_inv_shift[OF less.prems[unfolded Cons] False] .
      have "length (lab ! v) = Suc d"
        using bfs_inv_queue[OF less.prems[unfolded Cons], of v] False by simp
      then show ?thesis using that i by simp
    qed
    from bfs_step[OF d' wne] obtain st1 q2 where
      s: "failure_edges st v (entries (links (st ! v))) q1 = Some (Inr (st1, q2))"
         "bfs_inv W lab st1 q2 d'" "length st1 = length st"
         "\<forall>n < length st. links (st1 ! n) = links (st ! n)"
         "\<forall>n < length st. n \<noteq> v \<longrightarrow>
                 (link_fail (st1 ! n) \<noteq> None \<and> n \<notin> set q2
                    \<longleftrightarrow> link_fail (st ! n) \<noteq> None \<and> n \<notin> set (v # q1))"
         "link_fail (st1 ! v) \<noteq> None \<and> v \<notin> set q2"
      by blast
    have vl: "v < length st" using bfs_inv_queue[OF d'(1), of v] by simp
    have e: "unpopped st1 q2 = unpopped st q - {v}"
      unfolding unpopped_def Cons using s(3,5,6) by auto
    have "v \<in> unpopped st q" unfolding unpopped_def Cons using vl by simp
    moreover have "finite (unpopped st q)" unfolding unpopped_def by simp
    ultimately have "card (unpopped st q - {v}) < card (unpopped st q)"
      by (rule card_Diff1_less[rotated])
    then have "card (unpopped st1 q2) < card (unpopped st q)" unfolding e .
    from less.hyps[OF this s(2)] obtain st' where
      r: "failure_queue st1 q2 = Some (Inr st')" "length st' = length st1"
         "\<forall>n < length st1. links (st' ! n) = links (st1 ! n)"
         "trie_inv (labels W) lab st'" "node_init W lab st' 0"
         "\<forall>n < length st1. n \<noteq> 0 \<longrightarrow> node_done W lab st' n"
      by blast
    have "failure_queue st q = failure_queue st1 q2"
      by (subst failure_queue.simps) (simp add: Cons s(1))
    then show ?thesis using r s(3,4) by simp
  qed
qed

text \<open>What \<^verbatim>\<open>build_failure\<close> establishes on the trie of the segments \<open>W\<close>.\<close>

definition machine_inv :: "(string \<times> int) list \<Rightarrow> string list \<Rightarrow> node list \<Rightarrow> bool" where
  "machine_inv W lab st \<longleftrightarrow>
     labs_ok (labels W) lab st \<and> edges_ok (labels W) lab st
     \<and> node_init W lab st 0
     \<and> (\<forall>n < length st. n \<noteq> 0 \<longrightarrow> node_done W lab st n)"

lemma build_failure_correct:
  assumes tb: "trie_built W lab st" and wne: "\<forall>x \<in> set W. fst x \<noteq> []"
  shows "\<exists>st'. build_failure st = Some (Inr st') \<and> length st' = length st
           \<and> (\<forall>n < length st. links (st' ! n) = links (st ! n))
           \<and> trie_inv (labels W) lab st' \<and> machine_inv W lab st'"
proof -
  from bfs_inv_initial[OF tb wne] obtain st1 q1 where
    i: "failure_root st (entries (links (st ! root))) [] = (st1, q1)"
       "bfs_inv W lab st1 q1 1" "length st1 = length st"
       "\<forall>n < length st. links (st1 ! n) = links (st ! n)"
    by blast
  from failure_queue_correct[OF i(2) wne] obtain st' where
    r: "failure_queue st1 q1 = Some (Inr st')" "length st' = length st1"
       "\<forall>n < length st1. links (st' ! n) = links (st1 ! n)"
       "trie_inv (labels W) lab st'" "node_init W lab st' 0"
       "\<forall>n < length st1. n \<noteq> 0 \<longrightarrow> node_done W lab st' n"
    by blast
  have "build_failure st = Some (Inr st')"
    unfolding build_failure_def using i(1) r(1) by simp
  moreover have "machine_inv W lab st'"
    unfolding machine_inv_def
    using trie_inv_labs_ok[OF r(4)] trie_inv_edges_ok[OF r(4)] r(2,5,6) by simp
  ultimately show ?thesis using r(2,3,4) i(3,4) by simp
qed

lemma PatternMatchingMachine_correct:
  "\<exists>M lab. PatternMatchingMachine p = Some (Inr M)
      \<and> trie_inv (labels (split_to_words p)) lab (store M)
      \<and> machine_inv (split_to_words p) lab (store M)
      \<and> words M = split_to_words p \<and> pattern M = p \<and> pattern_size M = int (length p)
      \<and> mstate M = root \<and> counter M = 0 \<and> window M = replicate (length p) 0
      \<and> window_start M = 0"
proof -
  let ?W = "split_to_words p"
  from add_words_built[OF trie_built_empty, of ?W] obtain lab where
    tb: "trie_built ?W lab (fold (\<lambda>(word, pos) st. add_word st word pos) ?W [new_node])"
    by auto
  from build_failure_correct[OF tb split_to_words_nonempty] obtain st' where
    r: "build_failure (fold (\<lambda>(word, pos) st. add_word st word pos) ?W [new_node]) = Some (Inr st')"
       "trie_inv (labels ?W) lab st'" "machine_inv ?W lab st'"
    by blast
  have "\<exists>lab. trie_inv (labels ?W) lab st' \<and> machine_inv ?W lab st'"
    using r(2,3) by blast
  then show ?thesis
    unfolding PatternMatchingMachine_def build_def
    using r(1) by (simp add: Let_def)
qed

subsection \<open>\<^verbatim>\<open>17.cpp\<close>: the walk of \<^verbatim>\<open>process\<close> and the links it adds\<close>

lemma machine_inv_labs: "machine_inv W lab st \<Longrightarrow> labs_ok (labels W) lab st"
  by (simp add: machine_inv_def)

lemma machine_inv_edges: "machine_inv W lab st \<Longrightarrow> edges_ok (labels W) lab st"
  by (simp add: machine_inv_def)

lemma machine_inv_done:
  "machine_inv W lab st \<Longrightarrow> n < length st \<Longrightarrow> n \<noteq> 0 \<Longrightarrow> node_done W lab st n"
  by (simp add: machine_inv_def)

lemma machine_inv_root: "machine_inv W lab st \<Longrightarrow> node_init W lab st 0"
  by (simp add: machine_inv_def)

lemma find_state_walk:
  assumes mi: "machine_inv W lab st" and s: "s < length st"
  shows "\<exists>s' t path'. find_state st s c path = Some (Inr (s', path @ path'))
           \<and> s' < length st \<and> goto st s' c = Some t \<and> t < length st
           \<and> lab ! t = lsuf (labels W) (lab ! s @ [c])
           \<and> (\<forall>x \<in> set path'. x < length st \<and> x \<noteq> 0 \<and> links (st ! x) c = None
                  \<and> lsuf (labels W) (lab ! x @ [c]) = lsuf (labels W) (lab ! s @ [c]))"
  using s
proof (induction "length (lab ! s)" arbitrary: s path rule: less_induct)
  case less
  let ?L = "labels W"
  have lo: "labs_ok ?L lab st" using mi by (rule machine_inv_labs)
  have eo: "edges_ok ?L lab st" using mi by (rule machine_inv_edges)
  have pc: "pclosed ?L" by (rule labels_pclosed)
  show ?case
  proof (cases "links (st ! s) c")
    case (Some t)
    have t: "t < length st" "lab ! t = lsuf ?L (lab ! s @ [c])"
      using edges_okD[OF eo less.prems(1), of c] Some by auto
    have g: "goto st s c = Some t" using Some by (simp add: goto_def)
    have "find_state st s c path = Some (Inr (s, path @ []))"
      by (subst find_state.simps) (simp add: g)
    then show ?thesis using g t less.prems(1) by (intro exI[of _ s] exI[of _ t] exI[of _ "[]"]) simp
  next
    case None
    have notin: "lab ! s @ [c] \<notin> ?L" using edges_okD[OF eo less.prems(1), of c] None by simp
    show ?thesis
    proof (cases "s = 0")
      case True
      have g: "goto st s c = Some 0" using None True by (simp add: goto_def root_def)
      have f: "find_state st s c path = Some (Inr (s, path @ []))"
        by (subst find_state.simps) (simp add: g)
      have "lab ! s = []" using lo True by (simp add: labs_ok_def)
      then have "lab ! 0 = lsuf ?L (lab ! s @ [c])" using notin True by simp
      then show ?thesis using g f less.prems(1) True
        by (intro exI[of _ s] exI[of _ 0] exI[of _ "[]"]) simp
    next
      case False
      have g: "goto st s c = None" using None False by (simp add: goto_def root_def)
      obtain f where f: "link_fail (st ! s) = Some f" "f < length st"
        "lab ! f = lsuf ?L (tl (lab ! s))"
        using machine_inv_done[OF mi less.prems(1) False] unfolding node_done_def by blast
      have ne: "lab ! s \<noteq> []" using labs_ok_nonroot[OF lo less.prems(1) False] .
      have "length (lab ! f) \<le> length (tl (lab ! s))" unfolding f(3) by (rule lsuf_length)
      then have lt: "length (lab ! f) < length (lab ! s)" using ne by (cases "lab ! s") auto
      from less.hyps[OF lt f(2), of "path @ [s]"] obtain s' t path' where
        r: "find_state st f c (path @ [s]) = Some (Inr (s', (path @ [s]) @ path'))"
          "s' < length st" "goto st s' c = Some t" "t < length st"
          "lab ! t = lsuf ?L (lab ! f @ [c])"
          "\<forall>x \<in> set path'. x < length st \<and> x \<noteq> 0 \<and> links (st ! x) c = None
                  \<and> lsuf ?L (lab ! x @ [c]) = lsuf ?L (lab ! f @ [c])"
        by blast
      have e: "find_state st s c path = find_state st f c (path @ [s])"
        by (subst find_state.simps) (simp add: g f(1) failure_def)
      have q: "lsuf ?L (lab ! s @ [c]) = lsuf ?L (lab ! f @ [c])"
        unfolding f(3) using lsuf_fail[OF pc notin ne] .
      have "\<forall>x \<in> set (s # path'). x < length st \<and> x \<noteq> 0 \<and> links (st ! x) c = None
                  \<and> lsuf ?L (lab ! x @ [c]) = lsuf ?L (lab ! s @ [c])"
        using r(6) q less.prems(1) False None by simp
      then show ?thesis using r(1,2,3,4,5) e q
        by (intro exI[of _ s'] exI[of _ t] exI[of _ "s # path'"]) simp
    qed
  qed
qed

lemma set_path_result:
  "length (set_path st path c t) = length st
     \<and> (\<forall>n < length st. n \<notin> set path \<longrightarrow> set_path st path c t ! n = st ! n)
     \<and> (\<forall>n < length st. n \<in> set path \<longrightarrow>
           set_path st path c t ! n = (st ! n)\<lparr>links := (links (st ! n))(c \<mapsto> t)\<rparr>)"
proof (induction path arbitrary: st)
  case Nil
  then show ?case by simp
next
  case (Cons x path)
  let ?st1 = "st[x := (st ! x)\<lparr>links := (links (st ! x))(c \<mapsto> t)\<rparr>]"
  have ih: "length (set_path ?st1 path c t) = length ?st1"
    "\<And>n. n < length ?st1 \<Longrightarrow> n \<notin> set path \<Longrightarrow> set_path ?st1 path c t ! n = ?st1 ! n"
    "\<And>n. n < length ?st1 \<Longrightarrow> n \<in> set path \<Longrightarrow>
        set_path ?st1 path c t ! n = (?st1 ! n)\<lparr>links := (links (?st1 ! n))(c \<mapsto> t)\<rparr>"
    using Cons.IH[of ?st1] by blast+
  have a: "set_path st (x # path) c t ! n = st ! n" if "n < length st" "n \<notin> set (x # path)" for n
    using ih(2)[of n] that by simp
  have b: "set_path st (x # path) c t ! n = (st ! n)\<lparr>links := (links (st ! n))(c \<mapsto> t)\<rparr>"
    if "n < length st" "n \<in> set (x # path)" for n
  proof (cases "n \<in> set path")
    case True
    then show ?thesis using ih(3)[of n] that(1) by (cases "n = x") simp_all
  next
    case False
    then have "n = x" using that(2) by simp
    then show ?thesis using ih(2)[of n] False that(1) by simp
  qed
  have l: "length (set_path st (x # path) c t) = length st" using ih(1) by simp
  show ?case using l a b by blast
qed

lemma machine_inv_set_path:
  assumes mi: "machine_inv W lab st" and t: "t < length st"
    and pa: "\<forall>x \<in> set path. x < length st \<and> links (st ! x) c = None
                \<and> lsuf (labels W) (lab ! x @ [c]) = lab ! t"
  shows "machine_inv W lab (set_path st path c t)"
proof -
  let ?st = "set_path st path c t"
  let ?L = "labels W"
  have len: "length ?st = length st" using set_path_result[of st path c t] by simp
  have un: "?st ! n = st ! n" if "n < length st" "n \<notin> set path" for n
    using set_path_result[of st path c t] that by simp
  have up: "?st ! n = (st ! n)\<lparr>links := (links (st ! n))(c \<mapsto> t)\<rparr>"
    if "n < length st" "n \<in> set path" for n
    using set_path_result[of st path c t] that by simp
  have fl: "link_fail (?st ! n) = link_fail (st ! n) \<and> outputs (?st ! n) = outputs (st ! n)
      \<and> terminal (?st ! n) = terminal (st ! n)" if "n < length st" for n
    using un[OF that] up[OF that] by (cases "n \<in> set path") simp_all
  have lo: "labs_ok ?L lab ?st" using machine_inv_labs[OF mi] len by (simp add: labs_ok_def)
  have eo: "edges_ok ?L lab st" using mi by (rule machine_inv_edges)
  have "case links (?st ! n) c' of
          None \<Rightarrow> lab ! n @ [c'] \<notin> ?L
        | Some n' \<Rightarrow> n' < length ?st \<and> lab ! n' = lsuf ?L (lab ! n @ [c'])"
    if n: "n < length ?st" for n c'
  proof (cases "n \<in> set path \<and> c' = c")
    case True
    then show ?thesis using up[of n] n len pa t by simp
  next
    case False
    have "links (?st ! n) c' = links (st ! n) c'"
      using un[of n] up[of n] n len False by (cases "n \<in> set path") simp_all
    then show ?thesis using edges_okD[OF eo, of n c'] n len by (simp split: option.splits)
  qed
  then have eo': "edges_ok ?L lab ?st" by (simp add: edges_ok_def)
  have r: "node_init W lab ?st 0"
    using machine_inv_root[OF mi] fl[of 0] lo len by (simp add: node_init_def labs_ok_def)
  have d: "node_done W lab ?st n" if "n < length ?st" "n \<noteq> 0" for n
    using machine_inv_done[OF mi, of n] fl[of n] that len by (simp add: node_done_def)
  show ?thesis unfolding machine_inv_def using lo eo' r d by simp
qed

lemma machine_inv_outputs:
  assumes mi: "machine_inv W lab st" and wne: "\<forall>x \<in> set W. fst x \<noteq> []" and n: "n < length st"
  shows "set (outputs (st ! n)) = out_lab W (lab ! n) \<and> distinct (outputs (st ! n))
         \<and> (terminal (st ! n) \<longleftrightarrow> outputs (st ! n) \<noteq> [])"
proof (cases "n = 0")
  case True
  have "lab ! 0 = []" using machine_inv_labs[OF mi] by (simp add: labs_ok_def)
  then show ?thesis
    using root_outputs[OF machine_inv_root[OF mi] _ wne] machine_inv_root[OF mi] True
    by (simp add: node_init_def)
next
  case False
  then show ?thesis using machine_inv_done[OF mi n False] by (simp add: node_done_def)
qed

subsection \<open>The window of counters\<close>

lemma to_short_range: "- 32768 \<le> to_short x \<and> to_short x < 32768"
  using signed_take_bit_int_greater_eq_minus_exp[of 15 x] signed_take_bit_int_less_exp[of 15 x]
  by (simp add: to_short_def)

lemma to_short_le: "- 32768 \<le> x \<Longrightarrow> to_short x \<le> x"
  using signed_take_bit_int_less_eq_self_iff[of 15 x] by (simp add: to_short_def)

text \<open>
  A counter \<open>v\<close> of the window against the number \<open>c\<close> of events it has counted: equal
  as long as the number fits a \<^verbatim>\<open>short\<close>, never above it.
\<close>

definition win_ok :: "int \<Rightarrow> int \<Rightarrow> bool" where
  "win_ok v c \<longleftrightarrow> - 32768 \<le> v \<and> v \<le> c \<and> (c \<le> 32767 \<longrightarrow> v = c)"

lemma win_ok_zero: "win_ok 0 0"
  by (simp add: win_ok_def)

lemma win_ok_incr:
  assumes "win_ok v c"
  shows "win_ok (to_short (v + 1)) (c + 1)"
proof -
  have v: "- 32768 \<le> v" "v \<le> c" "c \<le> 32767 \<Longrightarrow> v = c" using assms by (auto simp: win_ok_def)
  have "to_short (v + 1) \<le> v + 1" using v(1) by (intro to_short_le) simp
  moreover have "to_short (v + 1) = c + 1" if "c + 1 \<le> 32767"
  proof -
    have "v = c" using v(3) that by simp
    then show ?thesis using that v(1) by (simp add: to_short_id)
  qed
  ultimately show ?thesis using to_short_range[of "v + 1"] v(2) by (simp add: win_ok_def)
qed

lemma match_loop_ok:
  assumes "distinct out" "\<forall>e \<in> set out. k - e - 1 - ws < int (length win)"
  shows "\<exists>win'. match_loop k ws out win = Inr win' \<and> length win' = length win
           \<and> (\<forall>i < length win. win' ! i =
                 (if k - 1 - ws - int i \<in> set out then to_short (win ! i + 1) else win ! i))"
  using assms
proof (induction out arbitrary: win)
  case Nil
  then show ?case by simp
next
  case (Cons e out)
  let ?rel = "k - e - 1 - ws"
  show ?case
  proof (cases "?rel < 0")
    case True
    have d: "distinct out" "\<forall>e \<in> set out. k - e - 1 - ws < int (length win)"
      using Cons.prems by auto
    from Cons.IH[OF d] obtain win' where
      r: "match_loop k ws out win = Inr win'" "length win' = length win"
         "\<forall>i < length win. win' ! i =
                 (if k - 1 - ws - int i \<in> set out then to_short (win ! i + 1) else win ! i)"
      by blast
    have "k - 1 - ws - int i \<noteq> e" for i using True by auto
    then show ?thesis using r True by (simp add: Let_def)
  next
    case False
    have lt: "nat ?rel < length win" using Cons.prems(2) False by auto
    let ?win1 = "win[nat ?rel := to_short (win ! nat ?rel + 1)]"
    have d: "distinct out" "\<forall>e \<in> set out. k - e - 1 - ws < int (length ?win1)"
      using Cons.prems by auto
    from Cons.IH[OF d] obtain win' where
      r: "match_loop k ws out ?win1 = Inr win'" "length win' = length ?win1"
         "\<forall>i < length ?win1. win' ! i =
                 (if k - 1 - ws - int i \<in> set out then to_short (?win1 ! i + 1) else ?win1 ! i)"
      by blast
    have m: "match_loop k ws (e # out) win = Inr win'"
      using r(1) False lt by (simp add: Let_def)
    have "win' ! i = (if k - 1 - ws - int i \<in> set (e # out) then to_short (win ! i + 1) else win ! i)"
      if i: "i < length win" for i
    proof (cases "i = nat ?rel")
      case True
      then have "k - 1 - ws - int i = e" using False by simp
      moreover have "e \<notin> set out" using Cons.prems(1) by simp
      ultimately show ?thesis using r(3) i True by simp
    next
      case False
      then have "k - 1 - ws - int i \<noteq> e" by auto
      then show ?thesis using r(3) i False by simp
    qed
    then show ?thesis using m r(2) by simp
  qed
qed

lemma match_loop_length:
  "match_loop k ws out win = Inr win' \<Longrightarrow> length win' = length win"
  by (induction k ws out win rule: match_loop.induct) (auto simp: Let_def split: if_splits)

lemma match_loop_err:
  assumes "\<exists>e \<in> set out. int (length win) \<le> k - e - 1 - ws"
  shows "match_loop k ws out win = Inl OutOfRange"
  using assms
proof (induction out arbitrary: win)
  case Nil
  then show ?case by simp
next
  case (Cons e out)
  let ?rel = "k - e - 1 - ws"
  show ?case
  proof (cases "int (length win) \<le> ?rel")
    case True
    then have "\<not> ?rel < 0" "\<not> nat ?rel < length win" by auto
    then show ?thesis by (simp add: Let_def)
  next
    case False
    then have ex: "\<exists>e \<in> set out. int (length win) \<le> k - e - 1 - ws" using Cons.prems by auto
    show ?thesis
    proof (cases "?rel < 0")
      case True
      then show ?thesis using Cons.IH[OF ex] by (simp add: Let_def)
    next
      case False
      let ?win1 = "win[nat ?rel := to_short (win ! nat ?rel + 1)]"
      have "\<exists>e \<in> set out. int (length ?win1) \<le> k - e - 1 - ws" using ex by simp
      from Cons.IH[OF this] show ?thesis using False \<open>\<not> int (length win) \<le> ?rel\<close>
        by (simp add: Let_def)
    qed
  qed
qed

lemma match_loop_error_kind: "match_loop k ws out win = Inl e \<Longrightarrow> e = OutOfRange"
  by (induction k ws out win rule: match_loop.induct) (auto simp: Let_def split: if_splits)

text \<open>
  The events counted for a start offset \<open>s\<close> while the text \<open>x\<close> was read: the end
  offsets \<open>e\<close> reported at the moment \<open>s + e + 1\<close> symbols had been read.
\<close>

definition ev :: "(string \<times> int) list \<Rightarrow> string \<Rightarrow> int \<Rightarrow> int set" where
  "ev W x s = {e. 0 < s + e + 1 \<and> s + e + 1 \<le> int (length x)
                  \<and> e \<in> out_lab W (take (nat (s + e + 1)) x)}"

lemma out_lab_subset: "out_lab W u \<subseteq> snd ` set W"
  unfolding out_lab_def by force

lemma ev_subset: "ev W x s \<subseteq> snd ` set W"
  unfolding ev_def using out_lab_subset by blast

lemma ev_finite: "finite (ev W x s)"
  using ev_subset by (rule finite_subset) simp

lemma ev_Nil: "ev W [] s = {}"
  by (auto simp: ev_def)

lemma ev_snoc:
  "ev W (x @ [c]) s =
     ev W x s \<union> (if int (length x) - s \<in> out_lab W (x @ [c]) then {int (length x) - s} else {})"
proof -
  have a: "take (nat (s + e + 1)) (x @ [c]) = take (nat (s + e + 1)) x"
    if "s + e + 1 \<le> int (length x)" for e
    using that by simp
  have b: "take (nat (s + e + 1)) (x @ [c]) = x @ [c]" if "s + e + 1 = int (length x) + 1" for e
    using that by simp
  show ?thesis
  proof (intro set_eqI iffI)
    fix e assume e: "e \<in> ev W (x @ [c]) s"
    then have r: "0 < s + e + 1" "s + e + 1 \<le> int (length x) + 1"
      "e \<in> out_lab W (take (nat (s + e + 1)) (x @ [c]))"
      by (auto simp: ev_def)
    show "e \<in> ev W x s \<union> (if int (length x) - s \<in> out_lab W (x @ [c]) then {int (length x) - s} else {})"
    proof (cases "s + e + 1 \<le> int (length x)")
      case True
      then show ?thesis using r a[OF True] by (simp add: ev_def)
    next
      case False
      then have q: "s + e + 1 = int (length x) + 1" using r(2) by simp
      then have "e = int (length x) - s" by simp
      then show ?thesis using r(3) b[OF q] by simp
    qed
  next
    fix e assume e: "e \<in> ev W x s \<union> (if int (length x) - s \<in> out_lab W (x @ [c]) then {int (length x) - s} else {})"
    show "e \<in> ev W (x @ [c]) s"
    proof (cases "e \<in> ev W x s")
      case True
      then have "0 < s + e + 1" "s + e + 1 \<le> int (length x)"
        "e \<in> out_lab W (take (nat (s + e + 1)) x)" by (auto simp: ev_def)
      then show ?thesis using a[of e] by (simp add: ev_def)
    next
      case False
      then have q: "e = int (length x) - s" "e \<in> out_lab W (x @ [c])"
        using e by (auto split: if_splits)
      then have "s + e + 1 = int (length x) + 1" by simp
      then show ?thesis using q(2) b[of e] by (simp add: ev_def)
    qed
  qed
qed

lemma ev_fresh: "int (length x) - s \<notin> ev W x s"
  by (simp add: ev_def)

definition cnt :: "(string \<times> int) list \<Rightarrow> string \<Rightarrow> int \<Rightarrow> int" where
  "cnt W x s = int (card (ev W x s))"

lemma cnt_snoc:
  "cnt W (x @ [c]) s = (if int (length x) - s \<in> out_lab W (x @ [c]) then cnt W x s + 1 else cnt W x s)"
  unfolding cnt_def ev_snoc using ev_finite[of W x s] ev_fresh[of x s W] by simp

lemma cnt_le: "cnt W x s \<le> int (length W)"
proof -
  have "card (ev W x s) \<le> card (snd ` set W)"
    using ev_subset by (intro card_mono) simp_all
  also have "\<dots> \<le> card (set W)" by (rule card_image_le) simp
  also have "\<dots> \<le> length W" by (rule card_length)
  finally show ?thesis by (simp add: cnt_def)
qed

subsection \<open>One call of \<^verbatim>\<open>process\<close> of \<^verbatim>\<open>17.cpp\<close>\<close>

definition proc_inv :: "string \<Rightarrow> string list \<Rightarrow> machine \<Rightarrow> string \<Rightarrow> bool" where
  "proc_inv p lab M x \<longleftrightarrow>
     words M = split_to_words p \<and> split_to_words p \<noteq> [] \<and> 0 < length p
     \<and> pattern_size M = int (length p) \<and> counter M = int (length x)
     \<and> machine_inv (split_to_words p) lab (store M)
     \<and> mstate M < length (store M)
     \<and> lab ! mstate M = lsuf (labels (split_to_words p)) x
     \<and> length (window M) = length p
     \<and> window_start M = int (length x + 1 - length p)
     \<and> (\<forall>i < length p.
           win_ok (window M ! i) (cnt (split_to_words p) x (int (length x + 1 - length p) + int i)))
     \<and> (\<forall>s \<ge> int (length x + 1 - length p) + int (length p). ev (split_to_words p) x s = {})"

lemma match_eq:
  assumes "terminal (store M ! s) \<longleftrightarrow> outputs (store M ! s) \<noteq> []"
  shows "match M k s =
     (case match_loop k (window_start M) (outputs (store M ! s)) (window M) of
        Inl e \<Rightarrow> Inl e
      | Inr win \<Rightarrow> Inr (M\<lparr>window := win\<rparr>))"
  using assms by (cases "terminal (store M ! s)") (simp_all add: match_def)

lemma process_unfold:
  assumes w: "words M \<noteq> []"
    and f: "find_state (store M) (mstate M) c [] = Some (Inr (s', path))"
    and g: "goto (store M) s' c = Some t"
    and tm: "terminal (set_path (store M) path c t ! t)
               \<longleftrightarrow> outputs (set_path (store M) path c t ! t) \<noteq> []"
  shows "process M c =
     (case match_loop (counter M + 1) (window_start M)
              (outputs (set_path (store M) path c t ! t)) (window M) of
        Inl e \<Rightarrow> Some (Inl e)
      | Inr win \<Rightarrow>
          if counter M + 1 < pattern_size M
          then Some (Inr (M\<lparr>store := set_path (store M) path c t, mstate := t,
                            counter := counter M + 1, window := win\<rparr>, []))
          else (case win of
                  [] \<Rightarrow> Some (Inl OutOfRange)
                | w0 # rest \<Rightarrow>
                    Some (Inr (M\<lparr>store := set_path (store M) path c t, mstate := t,
                                  counter := counter M + 1, window := rest @ [0],
                                  window_start := window_start M + 1\<rparr>,
                       if w0 = int (length (words M))
                       then [counter M + 1 - pattern_size M] else []))))"
proof -
  let ?M = "M\<lparr>counter := counter M + 1\<rparr>"
  let ?M1 = "?M\<lparr>store := set_path (store ?M) path c t, mstate := t\<rparr>"
  have tm1: "terminal (store ?M1 ! mstate ?M1) \<longleftrightarrow> outputs (store ?M1 ! mstate ?M1) \<noteq> []"
    using tm by simp
  let ?ml = "match_loop (counter M + 1) (window_start M)
              (outputs (set_path (store M) path c t ! t)) (window M)"
  have m: "match ?M1 (counter ?M1) (mstate ?M1) =
     (case ?ml of Inl e \<Rightarrow> Inl e | Inr win \<Rightarrow> Inr (?M1\<lparr>window := win\<rparr>))"
    using match_eq[OF tm1] by simp
  have p: "process M c =
      (case match ?M1 (counter ?M1) (mstate ?M1) of
         Inl e \<Rightarrow> Some (Inl e)
       | Inr M2 \<Rightarrow>
           if counter M2 < pattern_size M2 then Some (Inr (M2, []))
           else
             (case window M2 of
                [] \<Rightarrow> Some (Inl OutOfRange)
              | w0 # win \<Rightarrow>
                  Some (Inr (M2\<lparr>window := win @ [0],
                                  window_start := window_start M2 + 1\<rparr>,
                    if w0 = int (length (words M2))
                    then [counter M2 - pattern_size M2] else []))))"
    unfolding process_def Let_def using w f g by simp
  show ?thesis
  proof (cases ?ml)
    case (Inl e)
    then show ?thesis unfolding p m by simp
  next
    case (Inr win)
    show ?thesis
    proof (cases win)
      case Nil
      then show ?thesis unfolding p m Inr by simp
    next
      case (Cons w0 rest)
      then show ?thesis unfolding p m Inr by simp
    qed
  qed
qed


text \<open>
  The event that makes \<^verbatim>\<open>window->at\<close> throw: an end offset reported after \<open>x @ [c]\<close>
  whose slot lies at or beyond the end of the window.
\<close>

definition bad_event :: "string \<Rightarrow> string \<Rightarrow> char \<Rightarrow> bool" where
  "bad_event p x c \<longleftrightarrow>
     (\<exists>e \<in> out_lab (split_to_words p) (x @ [c]).
        int (length p) \<le> int (length x) - e - int (length x + 1 - length p))"

lemma proc_invD:
  assumes "proc_inv p lab M x"
  shows "words M = split_to_words p" "split_to_words p \<noteq> []" "0 < length p"
    "pattern_size M = int (length p)" "counter M = int (length x)"
    "machine_inv (split_to_words p) lab (store M)"
    "mstate M < length (store M)"
    "lab ! mstate M = lsuf (labels (split_to_words p)) x"
    "length (window M) = length p"
    "window_start M = int (length x + 1 - length p)"
    "\<And>i. i < length p \<Longrightarrow>
        win_ok (window M ! i) (cnt (split_to_words p) x (int (length x + 1 - length p) + int i))"
    "\<And>s. int (length x + 1 - length p) + int (length p) \<le> s \<Longrightarrow> ev (split_to_words p) x s = {}"
  using assms unfolding proc_inv_def by simp_all

lemma process_step:
  assumes pi: "proc_inv p lab M x"
  shows "(bad_event p x c \<longrightarrow> process M c = Some (Inl OutOfRange))
       \<and> (\<not> bad_event p x c \<longrightarrow>
            (\<exists>M' v. proc_inv p lab M' (x @ [c])
               \<and> process M c = Some (Inr (M',
                    if int (length p) \<le> int (length x) + 1 \<and> v = int (length (split_to_words p))
                    then [int (length x) + 1 - int (length p)] else []))
               \<and> (int (length p) \<le> int (length x) + 1 \<longrightarrow>
                    win_ok v (cnt (split_to_words p) (x @ [c])
                               (int (length x) + 1 - int (length p))))))"
proof -
  define W where "W = split_to_words p"
  define m where "m = length p"
  define k where "k = length x"
  define ws where "ws = int (k + 1 - m)"
  define Os where "Os = out_lab W (x @ [c])"
  note d0 = proc_invD[OF pi, folded W_def m_def k_def]
  have d10: "window_start M = ws" using d0(10) by (simp add: ws_def)
  have d11: "\<And>i. i < m \<Longrightarrow> win_ok (window M ! i) (cnt W x (ws + int i))"
    using d0(11) by (simp add: ws_def)
  have d12: "\<And>s. ws + int m \<le> s \<Longrightarrow> ev W x s = {}"
    using d0(12) by (simp add: ws_def)
  note d = d0(1-9) d10 d11 d12
  have wne: "\<forall>y \<in> set W. fst y \<noteq> []" unfolding W_def by (rule split_to_words_nonempty)
  have wM: "words M \<noteq> []" using d(1,2) by simp
  from find_state_walk[OF d(6,7), of c "[]"] obtain s' t path where
    fs: "find_state (store M) (mstate M) c [] = Some (Inr (s', path))"
      "s' < length (store M)" "goto (store M) s' c = Some t" "t < length (store M)"
      "lab ! t = lsuf (labels W) (lab ! mstate M @ [c])"
      "\<forall>y \<in> set path. y < length (store M) \<and> y \<noteq> 0 \<and> links (store M ! y) c = None
           \<and> lsuf (labels W) (lab ! y @ [c]) = lsuf (labels W) (lab ! mstate M @ [c])"
    by auto
  have labt: "lab ! t = lsuf (labels W) (x @ [c])"
    unfolding fs(5) d(8) using lsuf_step[OF labels_pclosed, of W x c] by simp
  define st' where "st' = set_path (store M) path c t"
  have pa: "\<forall>y \<in> set path. y < length (store M) \<and> links (store M ! y) c = None
                \<and> lsuf (labels W) (lab ! y @ [c]) = lab ! t"
    using fs(5,6) by simp
  have mi': "machine_inv W lab st'"
    unfolding st'_def using d(6) fs(4) pa by (rule machine_inv_set_path)
  have len': "length st' = length (store M)"
    unfolding st'_def using set_path_result[of "store M" path c t] by simp
  have t': "t < length st'" using fs(4) len' by simp
  have outs: "set (outputs (st' ! t)) = Os" "distinct (outputs (st' ! t))"
    "terminal (st' ! t) \<longleftrightarrow> outputs (st' ! t) \<noteq> []"
    using machine_inv_outputs[OF mi' wne t'] labt out_lab_lsuf[of W "x @ [c]"]
    by (simp_all add: Os_def)
  have rel: "counter M + 1 - e - 1 - window_start M = int k - e - ws" for e
    using d(5,10) by simp
  have bad: "bad_event p x c \<longleftrightarrow> (\<exists>e \<in> Os. int m \<le> int k - e - ws)"
    unfolding bad_event_def Os_def W_def m_def k_def ws_def by simp
  note pu = process_unfold[OF wM fs(1,3) outs(3)[unfolded st'_def], folded st'_def]
  let ?ml = "match_loop (counter M + 1) (window_start M) (outputs (st' ! t)) (window M)"
  have A: "process M c = Some (Inl OutOfRange)" if b: "bad_event p x c"
  proof -
    have "\<exists>e \<in> set (outputs (st' ! t)).
        int (length (window M)) \<le> counter M + 1 - e - 1 - window_start M"
      using b unfolding bad outs(1) rel d(9) .
    then have "?ml = Inl OutOfRange" by (rule match_loop_err)
    then show ?thesis unfolding pu by simp
  qed
  have B: "\<exists>M' v. proc_inv p lab M' (x @ [c])
               \<and> process M c = Some (Inr (M',
                    if int (length p) \<le> int (length x) + 1 \<and> v = int (length (split_to_words p))
                    then [int (length x) + 1 - int (length p)] else []))
               \<and> (int (length p) \<le> int (length x) + 1 \<longrightarrow>
                    win_ok v (cnt (split_to_words p) (x @ [c])
                               (int (length x) + 1 - int (length p))))"
    if nb: "\<not> bad_event p x c"
  proof -
    have inr: "\<forall>e \<in> set (outputs (st' ! t)).
        counter M + 1 - e - 1 - window_start M < int (length (window M))"
      using nb unfolding bad outs(1) rel d(9) by auto
    from match_loop_ok[OF outs(2) inr] obtain win where
      w: "?ml = Inr win" "length win = m"
         "\<forall>i < m. win ! i = (if counter M + 1 - 1 - window_start M - int i \<in> Os
                     then to_short (window M ! i + 1) else window M ! i)"
      unfolding outs(1) d(9) by blast
    have hit: "counter M + 1 - 1 - window_start M - int i = int k - (ws + int i)" for i
      using d(5,10) by simp
    have wk: "win_ok (win ! i) (cnt W (x @ [c]) (ws + int i))" if i: "i < m" for i
    proof (cases "int k - (ws + int i) \<in> Os")
      case True
      have "win ! i = to_short (window M ! i + 1)" using w(3) i True unfolding hit by simp
      moreover have "cnt W (x @ [c]) (ws + int i) = cnt W x (ws + int i) + 1"
        using True unfolding cnt_snoc Os_def k_def by simp
      ultimately show ?thesis using win_ok_incr[OF d(11)[OF i]] by simp
    next
      case False
      have "win ! i = window M ! i" using w(3) i False unfolding hit by simp
      moreover have "cnt W (x @ [c]) (ws + int i) = cnt W x (ws + int i)"
        using False unfolding cnt_snoc Os_def k_def by simp
      ultimately show ?thesis using d(11)[OF i] by simp
    qed
    have bey: "ev W (x @ [c]) s = {}" if s: "ws + int m \<le> s" for s
    proof -
      have "int k - s \<notin> Os"
      proof
        assume "int k - s \<in> Os"
        then have "\<not> int m \<le> int k - (int k - s) - ws" using nb unfolding bad by blast
        then show False using s by simp
      qed
      then show ?thesis unfolding ev_snoc using d(12)[OF s] by (simp add: Os_def k_def)
    qed
    have kx: "length (x @ [c]) = k + 1" by (simp add: k_def)
    show ?thesis
    proof (cases "int k + 1 < int m")
      case True
      define M' where "M' = M\<lparr>store := st', mstate := t, counter := counter M + 1, window := win\<rparr>"
      have pr: "process M c = Some (Inr (M', []))"
        unfolding pu w(1) M'_def using True d(4,5) by simp
      have ws0: "ws = 0" "int (k + 1 + 1 - m) = 0" using True by (simp_all add: ws_def)
      have "proc_inv p lab M' (x @ [c])"
        unfolding proc_inv_def kx W_def[symmetric] m_def[symmetric] ws0(2)
        using d(1,2,3,4,5,10) mi' t' labt w(2) wk bey ws0(1)
        by (simp add: M'_def)
      then show ?thesis using pr True unfolding m_def k_def
        by (intro exI[of _ M'] exI[of _ 0]) simp
    next
      case False
      then have mk: "m \<le> k + 1" by simp
      obtain w0 rest where wr: "win = w0 # rest" using w(2) d(3) by (cases win) (auto simp: m_def)
      define M' where "M' = M\<lparr>store := st', mstate := t, counter := counter M + 1,
          window := rest @ [0], window_start := window_start M + 1\<rparr>"
      have pr: "process M c = Some (Inr (M',
            if w0 = int (length (words M)) then [counter M + 1 - pattern_size M] else []))"
        unfolding pu w(1) M'_def wr using False d(4,5) by simp
      have wsv: "ws = int k + 1 - int m" "int (k + 1 + 1 - m) = ws + 1"
        using mk by (simp_all add: ws_def)
      have lr: "length rest = m - 1" using w(2) wr by simp
      have sl: "win_ok ((rest @ [0]) ! i) (cnt W (x @ [c]) (ws + 1 + int i))" if i: "i < m" for i
      proof (cases "i < m - 1")
        case True
        then have e1: "(rest @ [0]) ! i = win ! (i + 1)" using lr wr by (simp add: nth_append)
        have e2: "ws + 1 + int i = ws + int (i + 1)" by simp
        have "win_ok (win ! (i + 1)) (cnt W (x @ [c]) (ws + int (i + 1)))"
          by (rule wk) (use True in simp)
        then show ?thesis unfolding e1 e2 .
      next
        case False
        then have "i = m - 1" using i by simp
        then have "(rest @ [0]) ! i = 0" using lr by (simp add: nth_append)
        moreover have "ev W (x @ [c]) (ws + 1 + int i) = {}"
          using bey[of "ws + 1 + int i"] \<open>i = m - 1\<close> i by simp
        ultimately show ?thesis by (simp add: cnt_def win_ok_zero)
      qed
      have bey': "ev W (x @ [c]) s = {}" if "ws + 1 + int m \<le> s" for s
        using bey[of s] that by simp
      have "proc_inv p lab M' (x @ [c])"
        unfolding proc_inv_def kx W_def[symmetric] m_def[symmetric] wsv(2)
        using d(1,2,3,4,5,10) mi' t' labt lr sl bey' mk
        by (simp add: M'_def)
      moreover have "win_ok w0 (cnt W (x @ [c]) (int k + 1 - int m))"
        using wk[of 0] d(3) wr wsv(1) by (simp add: m_def)
      ultimately show ?thesis using pr False d(1,4,5) unfolding m_def k_def W_def
        by (intro exI[of _ M'] exI[of _ w0]) simp
    qed
  qed
  show ?thesis using A B by blast
qed

subsection \<open>Segments and pattern positions\<close>

text \<open>
  The end offsets are stored as they are when every symbol of the pattern other than the
  wildcard has an index that fits a \<^verbatim>\<open>short\<close>.
\<close>

definition short_ends :: "string \<Rightarrow> bool" where
  "short_ends p \<longleftrightarrow> (\<forall>j < length p. p ! j \<noteq> wildcard \<longrightarrow> j < 32768)"

lemma short_ends_bounded: "length p \<le> 32768 \<Longrightarrow> short_ends p"
  unfolding short_ends_def by simp

lemma maximal_run_chars:
  assumes "maximal_run p w e"
  shows "0 \<le> e \<and> nat e < length p \<and> length w \<le> nat e + 1 \<and> w \<noteq> []
         \<and> (\<forall>i < length w. w ! i = p ! (nat e + 1 - length w + i) \<and> w ! i \<noteq> wildcard)"
proof -
  from assms obtain xs ys where p: "p = xs @ w @ ys" and w: "w \<noteq> []" "wildcard \<notin> set w"
    and e: "e = int (length xs + length w) - 1"
    unfolding maximal_run_def by blast
  from w have lw: "0 < length w" by simp
  have ne: "nat e = length xs + length w - 1" using e lw by simp
  have a: "nat e + 1 - length w = length xs" using ne lw by simp
  have c1: "\<forall>i < length w. w ! i = p ! (length xs + i)"
    by (simp add: p nth_append)
  have c2: "\<forall>i < length w. w ! i \<noteq> wildcard" using w(2) by (metis nth_mem)
  have c3: "0 \<le> e" using e lw by linarith
  have "length p = length xs + length w + length ys" unfolding p by simp
  then have c4: "nat e < length p" unfolding ne using lw by linarith
  have c5: "length w \<le> nat e + 1" unfolding ne by simp
  show ?thesis unfolding a using c1 c2 c3 c4 c5 w(1) by blast
qed

lemma short_ends_run:
  assumes "short_ends p" "maximal_run p w e"
  shows "0 \<le> e \<and> e \<le> 32767"
proof -
  note ch = maximal_run_chars[OF assms(2)]
  have lw: "0 < length w" using ch by simp
  have i: "length w - 1 < length w" using lw by simp
  have eq: "nat e + 1 - length w + (length w - 1) = nat e" using ch lw by linarith
  have c: "\<forall>i < length w. w ! i = p ! (nat e + 1 - length w + i) \<and> w ! i \<noteq> wildcard"
    using ch by blast
  have "w ! (length w - 1) = p ! (nat e + 1 - length w + (length w - 1))"
       "w ! (length w - 1) \<noteq> wildcard"
    using c i by blast+
  then have "p ! nat e \<noteq> wildcard" unfolding eq by simp
  moreover have "nat e < length p" using ch by blast
  ultimately have "nat e < 32768" using assms(1) unfolding short_ends_def by blast
  moreover have "0 \<le> e" using ch by blast
  ultimately show ?thesis by linarith
qed

lemma short_ends_words:
  assumes "short_ends p"
  shows "(\<forall>w e. (w, e) \<in> set (split_to_words p) \<longleftrightarrow> maximal_run p w e)
         \<and> sorted_wrt (<) (map snd (split_to_words p))"
proof -
  from split_to_words_unwrapped[of p] obtain R where
    r: "split_to_words p = map (\<lambda>(w, e). (w, to_short e)) R"
       "\<forall>w e. (w, e) \<in> set R \<longleftrightarrow> maximal_run p w e"
       "sorted_wrt (<) (map snd R)"
       "\<forall>x \<in> set R. snd x \<le> 32767 \<longrightarrow> to_short (snd x) = snd x"
    by blast
  have "(\<lambda>(w, e). (w, to_short e)) x = x" if "x \<in> set R" for x
  proof -
    have "maximal_run p (fst x) (snd x)" using r(2) that by (cases x) simp
    then have "snd x \<le> 32767" using short_ends_run[OF assms] by blast
    then have "to_short (snd x) = snd x" using r(4) that by blast
    then show ?thesis by (cases x) simp
  qed
  then have "map (\<lambda>(w, e). (w, to_short e)) R = R" by (simp add: map_idI)
  then have "split_to_words p = R" using r(1) by simp
  then show ?thesis using r(2,3) by simp
qed

lemma split_to_words_runs:
  "short_ends p \<Longrightarrow> (w, e) \<in> set (split_to_words p) \<longleftrightarrow> maximal_run p w e"
  using short_ends_words by blast

lemma split_to_words_distinct:
  assumes "short_ends p"
  shows "distinct (map snd (split_to_words p))"
  using short_ends_words[OF assms] by (simp add: strict_sorted_iff)

lemma maximal_run_cover:
  assumes j: "j < length p" and nw: "p ! j \<noteq> wildcard"
  shows "\<exists>w e. maximal_run p w e \<and> 0 \<le> e \<and> nat e + 1 - length w \<le> j \<and> j \<le> nat e"
proof -
  define l where "l = rev (takeWhile (\<lambda>c. c \<noteq> wildcard) (rev (take j p)))"
  define pre where "pre = rev (dropWhile (\<lambda>c. c \<noteq> wildcard) (rev (take j p)))"
  define r where "r = takeWhile (\<lambda>c. c \<noteq> wildcard) (drop (Suc j) p)"
  define post where "post = dropWhile (\<lambda>c. c \<noteq> wildcard) (drop (Suc j) p)"
  define w where "w = l @ [p ! j] @ r"
  have t: "take j p = pre @ l"
  proof -
    have "rev (take j p) = rev l @ rev pre"
      unfolding l_def pre_def by simp
    then have "rev (rev (take j p)) = rev (rev l @ rev pre)" by (rule arg_cong)
    then show ?thesis by simp
  qed
  have d: "drop (Suc j) p = r @ post" unfolding r_def post_def by simp
  have "p = take j p @ [p ! j] @ drop (Suc j) p"
    using j by (simp add: id_take_nth_drop)
  then have p: "p = pre @ w @ post" unfolding w_def using t d by simp
  have lw: "wildcard \<notin> set l"
    unfolding l_def using set_takeWhileD[of wildcard "\<lambda>c. c \<noteq> wildcard"] by auto
  have rw: "wildcard \<notin> set r"
    unfolding r_def using set_takeWhileD[of wildcard "\<lambda>c. c \<noteq> wildcard"] by auto
  have ww: "wildcard \<notin> set w" unfolding w_def using lw rw nw by auto
  have pe: "pre = [] \<or> last pre = wildcard"
  proof (cases "pre = []")
    case False
    then have ne: "dropWhile (\<lambda>c. c \<noteq> wildcard) (rev (take j p)) \<noteq> []"
      unfolding pre_def by simp
    have "last pre = hd (dropWhile (\<lambda>c. c \<noteq> wildcard) (rev (take j p)))"
      unfolding pre_def using ne by (simp add: last_rev)
    also have "\<dots> = wildcard" using hd_dropWhile[OF ne] by simp
    finally show ?thesis by simp
  qed simp
  have po: "post = [] \<or> hd post = wildcard"
  proof (cases "post = []")
    case False
    then show ?thesis unfolding post_def using hd_dropWhile[of "\<lambda>c. c \<noteq> wildcard" "drop (Suc j) p"] by simp
  qed simp
  have wn: "w \<noteq> []" unfolding w_def by simp
  define e where "e = int (length pre + length w) - 1"
  have m: "maximal_run p w e"
    unfolding maximal_run_def using p wn ww pe po e_def by blast
  have jl: "j = length pre + length l"
    using arg_cong[OF t, of length] j by simp
  have lw: "length w = length l + 1 + length r" unfolding w_def by simp
  have "0 \<le> e" "nat e + 1 - length w \<le> j" "j \<le> nat e"
    unfolding e_def using jl lw by auto
  with m show ?thesis by blast
qed

lemma suffix_take_iff:
  assumes "length w \<le> k" "k \<le> length x"
  shows "suffix w (take k x) \<longleftrightarrow> (\<forall>i < length w. x ! (k - length w + i) = w ! i)"
proof -
  define y where "y = take k x"
  have ly: "length y = k" unfolding y_def using assms by simp
  have "suffix w y \<longleftrightarrow> drop (k - length w) y = w"
  proof
    assume "suffix w y"
    then obtain z where z: "y = z @ w" unfolding suffix_def by blast
    then have "length z = k - length w" using ly by simp
    then show "drop (k - length w) y = w" using z by simp
  next
    assume "drop (k - length w) y = w"
    then have "y = take (k - length w) y @ w"
      using append_take_drop_id[of "k - length w" y] by simp
    then show "suffix w y" unfolding suffix_def by blast
  qed
  also have "\<dots> \<longleftrightarrow> (\<forall>i < length w. drop (k - length w) y ! i = w ! i)"
    using ly assms by (auto simp: list_eq_iff_nth_eq)
  also have "\<dots> \<longleftrightarrow> (\<forall>i < length w. x ! (k - length w + i) = w ! i)"
    unfolding y_def using assms by auto
  finally show ?thesis unfolding y_def .
qed

lemma ev_member:
  assumes b: "short_ends p" and s: "s + length p \<le> length x"
    and we: "(w, e) \<in> set (split_to_words p)"
  shows "e \<in> ev (split_to_words p) x (int s) \<longleftrightarrow>
         (\<forall>i < length w. x ! (s + (nat e + 1 - length w) + i) = w ! i)"
proof -
  define W where "W = split_to_words p"
  have D: "distinct (map snd W)" unfolding W_def using b by (rule split_to_words_distinct)
  then have inj: "inj_on snd (set W)" by (simp add: distinct_map)
  have mr: "maximal_run p w e" using we b by (simp add: split_to_words_runs)
  note ch = maximal_run_chars[OF mr]
  from ch have e0: "0 \<le> e" and el: "nat e < length p" and wl: "length w \<le> nat e + 1"
    by blast+
  define k where "k = s + nat e + 1"
  have k1: "int s + e + 1 = int k" unfolding k_def using e0 by simp
  have k0: "0 < k" unfolding k_def by simp
  have k2: "k \<le> length x" unfolding k_def using el s by simp
  have k3: "length w \<le> k" unfolding k_def using wl by simp
  have k4: "k - length w = s + (nat e + 1 - length w)" unfolding k_def using wl by simp
  have u: "(\<exists>w'. (w', e) \<in> set W \<and> suffix w' (take k x)) \<longleftrightarrow> suffix w (take k x)"
  proof
    assume "\<exists>w'. (w', e) \<in> set W \<and> suffix w' (take k x)"
    then obtain w' where w': "(w', e) \<in> set W" "suffix w' (take k x)" by blast
    have "(w', e) = (w, e)"
      using inj_onD[OF inj, of "(w', e)" "(w, e)"] w'(1) we unfolding W_def by simp
    then show "suffix w (take k x)" using w'(2) by simp
  next
    assume "suffix w (take k x)"
    then show "\<exists>w'. (w', e) \<in> set W \<and> suffix w' (take k x)"
      using we unfolding W_def by blast
  qed
  have "e \<in> ev W x (int s) \<longleftrightarrow> suffix w (take k x)"
    unfolding ev_def out_lab_def mem_Collect_eq k1 nat_int using u k2 k0 by simp
  also have "\<dots> \<longleftrightarrow> (\<forall>i < length w. x ! (k - length w + i) = w ! i)"
    using k3 k2 by (rule suffix_take_iff)
  finally show ?thesis unfolding k4 W_def .
qed

lemma cnt_full:
  assumes b: "short_ends p"
  shows "cnt (split_to_words p) x s = int (length (split_to_words p)) \<longleftrightarrow>
         (\<forall>e \<in> snd ` set (split_to_words p). e \<in> ev (split_to_words p) x s)"
proof -
  define W where "W = split_to_words p"
  have D: "distinct (map snd W)" unfolding W_def using b by (rule split_to_words_distinct)
  have cW: "card (snd ` set W) = length W" using distinct_card[OF D] by simp
  have sub: "ev W x s \<subseteq> snd ` set W" by (rule ev_subset)
  have "cnt W x s = int (length W) \<longleftrightarrow> card (ev W x s) = card (snd ` set W)"
    unfolding cnt_def cW by simp
  also have "\<dots> \<longleftrightarrow> ev W x s = snd ` set W"
    using card_subset_eq[OF _ sub] by auto
  also have "\<dots> \<longleftrightarrow> (\<forall>e \<in> snd ` set W. e \<in> ev W x s)"
    using sub by blast
  finally show ?thesis unfolding W_def .
qed

lemma cnt_full_iff:
  assumes b: "short_ends p" and s: "s + length p \<le> length x"
  shows "cnt (split_to_words p) x (int s) = int (length (split_to_words p)) \<longleftrightarrow>
         (\<forall>j < length p. p ! j \<noteq> wildcard \<longrightarrow> x ! (s + j) = p ! j)"
    (is "?l \<longleftrightarrow> ?r")
proof
  assume l: ?l
  show ?r
  proof (intro allI impI)
    fix j assume j: "j < length p" "p ! j \<noteq> wildcard"
    from maximal_run_cover[OF j] obtain w e where
      mr: "maximal_run p w e" and e0: "0 \<le> e" and lo: "nat e + 1 - length w \<le> j" and hi: "j \<le> nat e"
      by blast
    have we: "(w, e) \<in> set (split_to_words p)" using mr b by (simp add: split_to_words_runs)
    then have "e \<in> snd ` set (split_to_words p)" by force
    then have "e \<in> ev (split_to_words p) x (int s)" using l cnt_full[OF b] by blast
    then have al: "\<forall>i < length w. x ! (s + (nat e + 1 - length w) + i) = w ! i"
      using ev_member[OF b s we] by simp
    note ch = maximal_run_chars[OF mr]
    define i where "i = j - (nat e + 1 - length w)"
    have il: "i < length w" unfolding i_def using lo hi ch by linarith
    have ij: "nat e + 1 - length w + i = j" unfolding i_def using lo by simp
    have "x ! (s + (nat e + 1 - length w) + i) = w ! i" using al il by blast
    moreover have "w ! i = p ! (nat e + 1 - length w + i)" using ch il by blast
    ultimately show "x ! (s + j) = p ! j" using ij by (simp add: add.assoc)
  qed
next
  assume r: ?r
  have "\<forall>e \<in> snd ` set (split_to_words p). e \<in> ev (split_to_words p) x (int s)"
  proof
    fix e assume "e \<in> snd ` set (split_to_words p)"
    then obtain w where we: "(w, e) \<in> set (split_to_words p)" by force
    have mr: "maximal_run p w e" using we b by (simp add: split_to_words_runs)
    note ch = maximal_run_chars[OF mr]
    have "\<forall>i < length w. x ! (s + (nat e + 1 - length w) + i) = w ! i"
    proof (intro allI impI)
      fix i assume il: "i < length w"
      define j where "j = nat e + 1 - length w + i"
      have jl: "j < length p" unfolding j_def using il ch by linarith
      have wi: "w ! i = p ! j" "w ! i \<noteq> wildcard" unfolding j_def using ch il by blast+
      then have "x ! (s + j) = p ! j" using r jl by simp
      then show "x ! (s + (nat e + 1 - length w) + i) = w ! i"
        unfolding j_def using wi(1) by (simp add: add.assoc j_def)
    qed
    then show "e \<in> ev (split_to_words p) x (int s)" using ev_member[OF b s we] by simp
  qed
  then show ?l using cnt_full[OF b] by blast
qed

subsection \<open>The text loop of \<^verbatim>\<open>17.cpp\<close>\<close>

text \<open>
  The specification's notion of an occurrence: the pattern \<open>p\<close> fits into the text \<open>t\<close>
  at the 0-based offset \<open>i\<close>, and every symbol of \<open>p\<close> other than the wildcard equals the
  symbol of \<open>t\<close> under it.
\<close>

definition occurs_at :: "string \<Rightarrow> string \<Rightarrow> nat \<Rightarrow> bool" where
  "occurs_at p t i \<longleftrightarrow>
     i + length p \<le> length t \<and> (\<forall>j < length p. p ! j \<noteq> wildcard \<longrightarrow> t ! (i + j) = p ! j)"

definition alignments :: "string \<Rightarrow> string \<Rightarrow> int list" where
  "alignments p t = map int (filter (occurs_at p t) [0 ..< length t + 1 - length p])"

text \<open>What the call of \<^verbatim>\<open>process\<close> that completes the prefix \<open>y\<close> of the text has to print.\<close>

definition report :: "string \<Rightarrow> string \<Rightarrow> int list" where
  "report p y = (if length p \<le> length y \<and> occurs_at p y (length y - length p)
                 then [int (length y - length p)] else [])"

lemma split_loop_count:
  "2 * length (split_loop r word pos []) \<le> length r + (if word = [] then 1 else 2)"
proof (induction r arbitrary: word pos)
  case Nil
  then show ?case by simp
next
  case (Cons c cs)
  show ?case
  proof (cases "c = wildcard")
    case True
    show ?thesis
    proof (cases "word = []")
      case True
      with \<open>c = wildcard\<close> Cons[of "[]" "pos + 1"] show ?thesis by simp
    next
      case False
      have "split_loop (c # cs) word pos [] = [(word, to_short pos)] @ split_loop cs [] (pos + 1) []"
        using \<open>c = wildcard\<close> False split_loop_acc[of cs "[]" "pos + 1" "[(word, to_short pos)]"]
        by simp
      with Cons[of "[]" "pos + 1"] False show ?thesis by simp
    qed
  next
    case False
    have "2 * length (split_loop cs (word @ [c]) (pos + 1) []) \<le> length cs + 2"
      using Cons[of "word @ [c]" "pos + 1"] by simp
    moreover have "split_loop (c # cs) word pos [] = split_loop cs (word @ [c]) (pos + 1) []"
      using False by simp
    ultimately show ?thesis by (cases "word = []") simp_all
  qed
qed

lemma split_to_words_count: "2 * length (split_to_words p) \<le> length p + 1"
  unfolding split_to_words_def using split_loop_count[of p "[]" "- 1"] by simp

lemma split_loop_trailing:
  "split_loop (r @ replicate k wildcard) word pos acc = split_loop r word pos acc"
proof (induction r arbitrary: word pos acc)
  case Nil
  show ?case
  proof (cases k)
    case 0
    then show ?thesis by simp
  next
    case (Suc k')
    have w: "\<forall>c \<in> set (replicate k' wildcard). c = wildcard" by simp
    show ?thesis unfolding Suc using split_loop_wild[OF w] by simp
  qed
next
  case (Cons c cs)
  then show ?case by simp
qed

lemma short_ends_take:
  assumes "short_ends p"
  shows "p = take 32768 p @ replicate (length p - 32768) wildcard"
proof (rule nth_equalityI)
  show "length p = length (take 32768 p @ replicate (length p - 32768) wildcard)" by simp
next
  fix i assume i: "i < length p"
  show "p ! i = (take 32768 p @ replicate (length p - 32768) wildcard) ! i"
  proof (cases "i < 32768")
    case True
    then show ?thesis using i by (simp add: nth_append)
  next
    case False
    then have "p ! i = wildcard" using assms i unfolding short_ends_def by blast
    then show ?thesis using False i by (simp add: nth_append)
  qed
qed

lemma split_to_words_count_short:
  assumes "short_ends p"
  shows "length (split_to_words p) \<le> 16384"
proof -
  have "split_to_words p = split_to_words (take 32768 p)"
    unfolding split_to_words_def
    using split_loop_trailing[of "take 32768 p" "length p - 32768" "[]" "- 1" "[]"]
      short_ends_take[OF assms] by simp
  moreover have "2 * length (split_to_words (take 32768 p)) \<le> length (take 32768 p) + 1"
    by (rule split_to_words_count)
  ultimately show ?thesis by simp
qed

lemma split_to_words_Nil_wild:
  assumes b: "short_ends p" and e: "split_to_words p = []" and j: "j < length p"
  shows "p ! j = wildcard"
proof (rule ccontr)
  assume "p ! j \<noteq> wildcard"
  from maximal_run_cover[OF j this] obtain w e' where "maximal_run p w e'" by blast
  then have "(w, e') \<in> set (split_to_words p)" using b by (simp add: split_to_words_runs)
  then show False using e by simp
qed

lemma no_bad_event:
  assumes b: "short_ends p"
  shows "\<not> bad_event p x c"
proof
  assume "bad_event p x c"
  then obtain e where e: "e \<in> out_lab (split_to_words p) (x @ [c])"
    and bad: "int (length p) \<le> int (length x) - e - int (length x + 1 - length p)"
    unfolding bad_event_def by blast
  from e obtain w where "(w, e) \<in> set (split_to_words p)" unfolding out_lab_def by blast
  then have "maximal_run p w e" using b by (simp add: split_to_words_runs)
  then have "0 \<le> e" using maximal_run_chars by blast
  then show False using bad by linarith
qed

lemma occurs_at_take:
  assumes "i + length p \<le> k" "k \<le> length t"
  shows "occurs_at p (take k t) i \<longleftrightarrow> occurs_at p t i"
  unfolding occurs_at_def using assms by auto

lemma process_step_bounded:
  assumes pi: "proc_inv p lab M x" and b: "short_ends p"
  shows "\<exists>M'. proc_inv p lab M' (x @ [c])
               \<and> process M c = Some (Inr (M', report p (x @ [c])))"
proof -
  let ?W = "split_to_words p"
  from process_step[OF pi, of c] no_bad_event[OF b, of x c]
  obtain M' v where pi': "proc_inv p lab M' (x @ [c])"
    and pr: "process M c = Some (Inr (M',
                    if int (length p) \<le> int (length x) + 1 \<and> v = int (length ?W)
                    then [int (length x) + 1 - int (length p)] else []))"
    and v: "int (length p) \<le> int (length x) + 1 \<longrightarrow>
              win_ok v (cnt ?W (x @ [c]) (int (length x) + 1 - int (length p)))"
    by blast
  have "(if int (length p) \<le> int (length x) + 1 \<and> v = int (length ?W)
         then [int (length x) + 1 - int (length p)] else []) = report p (x @ [c])"
  proof (cases "length p \<le> length x + 1")
    case False
    then show ?thesis unfolding report_def by simp
  next
    case True
    define s where "s = length x + 1 - length p"
    have s1: "int (length x) + 1 - int (length p) = int s" unfolding s_def using True by simp
    have s2: "s + length p \<le> length (x @ [c])" unfolding s_def using True by simp
    have s3: "length (x @ [c]) - length p = s" unfolding s_def by simp
    have wv: "win_ok v (cnt ?W (x @ [c]) (int s))" using v True s1 by simp
    have "cnt ?W (x @ [c]) (int s) \<le> int (length ?W)" by (rule cnt_le)
    moreover have "length ?W \<le> 16384" using b by (rule split_to_words_count_short)
    ultimately have "cnt ?W (x @ [c]) (int s) \<le> 32767" by linarith
    then have veq: "v = cnt ?W (x @ [c]) (int s)" using wv unfolding win_ok_def by blast
    have "v = int (length ?W) \<longleftrightarrow> occurs_at p (x @ [c]) s"
      unfolding veq cnt_full_iff[OF b s2] occurs_at_def using s2 by simp
    then show ?thesis unfolding report_def s3 using True s1 by simp
  qed
  with pi' pr show ?thesis by auto
qed

lemma process_all_bounded:
  assumes "proc_inv p lab M x" "short_ends p"
  shows "\<exists>M'. proc_inv p lab M' (x @ t)
          \<and> process_all M t = Some (Inr (M',
               concat (map (\<lambda>k. report p (take k (x @ t)))
                           [length x + 1 ..< length x + length t + 1])))"
  using assms
proof (induction t arbitrary: M x)
  case Nil
  then show ?case by simp
next
  case (Cons c cs)
  from process_step_bounded[OF Cons.prems, of c] obtain M1 where
    m1: "proc_inv p lab M1 (x @ [c])" "process M c = Some (Inr (M1, report p (x @ [c])))"
    by blast
  from Cons.IH[OF m1(1) Cons.prems(2)] obtain M2 where
    m2: "proc_inv p lab M2 ((x @ [c]) @ cs)"
        "process_all M1 cs = Some (Inr (M2,
               concat (map (\<lambda>k. report p (take k ((x @ [c]) @ cs)))
                           [length (x @ [c]) + 1 ..< length (x @ [c]) + length cs + 1])))"
    by blast
  have u: "[length x + 1 ..< length x + length (c # cs) + 1]
           = (length x + 1) # [length (x @ [c]) + 1 ..< length (x @ [c]) + length cs + 1]"
    using upt_conv_Cons[of "length x + 1" "length x + length (c # cs) + 1"] by simp
  have t: "take (length x + 1) (x @ c # cs) = x @ [c]" by simp
  have "process_all M (c # cs) = Some (Inr (M2,
               concat (map (\<lambda>k. report p (take k (x @ c # cs)))
                           [length x + 1 ..< length x + length (c # cs) + 1])))"
    unfolding u using m1(2) m2(2) t by simp
  with m2(1) show ?case by auto
qed

lemma process_all_plain:
  assumes "words M = []" "pattern_size M = int m" "counter M = int k"
  shows "\<exists>M'. process_all M t = Some (Inr (M',
            concat (map (\<lambda>k. if k < m then [] else if m \<noteq> 0 then [int k - int m] else [int k - 1])
                        [k + 1 ..< k + length t + 1])))"
  using assms
proof (induction t arbitrary: M k)
  case Nil
  then show ?case by simp
next
  case (Cons c cs)
  define M1 where "M1 = M\<lparr>counter := counter M + 1\<rparr>"
  have p: "process M c = Some (Inr (M1,
             if k + 1 < m then [] else if m \<noteq> 0 then [int (k + 1) - int m] else [int (k + 1) - 1]))"
    unfolding process_def M1_def using Cons.prems by (simp add: Let_def)
  have "words M1 = []" "pattern_size M1 = int m" "counter M1 = int (k + 1)"
    unfolding M1_def using Cons.prems by simp_all
  from Cons.IH[OF this] obtain M2 where
    m2: "process_all M1 cs = Some (Inr (M2,
            concat (map (\<lambda>k. if k < m then [] else if m \<noteq> 0 then [int k - int m] else [int k - 1])
                        [k + 1 + 1 ..< k + 1 + length cs + 1])))" by blast
  have u: "[k + 1 ..< k + length (c # cs) + 1] = (k + 1) # [k + 1 + 1 ..< k + 1 + length cs + 1]"
    using upt_conv_Cons[of "k + 1" "k + length (c # cs) + 1"] by simp
  show ?case unfolding u using p m2 by simp
qed

lemma report_sum:
  assumes m: "0 < length p" and N: "N \<le> length t"
  shows "concat (map (\<lambda>k. report p (take k t)) [1 ..< N + 1])
         = map int (filter (occurs_at p t) [0 ..< N + 1 - length p])"
  using N
proof (induction N)
  case 0
  have "Suc 0 - length p = 0" using m by (cases p) simp_all
  then show ?case by simp
next
  case (Suc N)
  then have ih: "concat (map (\<lambda>k. report p (take k t)) [1 ..< N + 1])
         = map int (filter (occurs_at p t) [0 ..< N + 1 - length p])" by simp
  have l: "length (take (Suc N) t) = Suc N" using Suc.prems by simp
  show ?case
  proof (cases "length p \<le> Suc N")
    case False
    then have "report p (take (Suc N) t) = []" unfolding report_def l by simp
    moreover have "Suc N + 1 - length p = 0" "N + 1 - length p = 0" using False by simp_all
    ultimately show ?thesis using ih by simp
  next
    case True
    define s where "s = Suc N - length p"
    have s1: "Suc N + 1 - length p = Suc s" "N + 1 - length p = s" unfolding s_def using True by simp_all
    have "occurs_at p (take (Suc N) t) s \<longleftrightarrow> occurs_at p t s"
      by (rule occurs_at_take) (use True Suc.prems in \<open>simp_all add: s_def\<close>)
    then have r: "report p (take (Suc N) t) = (if occurs_at p t s then [int s] else [])"
      unfolding report_def l s_def using True by simp
    show ?thesis using ih r unfolding s1 by simp
  qed
qed

lemma main_bounded:
  assumes m: "0 < length p" and b: "short_ends p"
  shows "main p t = Some (Inr (alignments p t))"
proof -
  from PatternMatchingMachine_correct[of p] obtain M lab where
    M: "PatternMatchingMachine p = Some (Inr M)"
       "machine_inv (split_to_words p) lab (store M)"
       "words M = split_to_words p" "pattern_size M = int (length p)"
       "mstate M = root" "counter M = 0" "window M = replicate (length p) 0"
       "window_start M = 0"
    by blast
  have goal: "\<exists>M'. process_all M t = Some (Inr (M',
                concat (map (\<lambda>k. report p (take k t)) [1 ..< length t + 1])))"
  proof (cases "split_to_words p = []")
    case True
    define f where "f = (\<lambda>k. if k < length p then [] else if length p \<noteq> 0 then [int k - int (length p)] else [int k - 1])"
    from process_all_plain[of M "length p" 0 t] M True obtain M' where
      pa: "process_all M t = Some (Inr (M', concat (map f [0 + 1 ..< 0 + length t + 1])))"
      unfolding f_def by auto
    have eq: "f k = report p (take k t)" if k: "k \<le> length t" for k
    proof -
      have "length p \<le> k \<Longrightarrow> occurs_at p (take k t) (k - length p)"
        unfolding occurs_at_def using split_to_words_Nil_wild[OF b True] k by simp
      then show ?thesis
        unfolding report_def f_def using k m by auto
    qed
    have z: "[0 + 1 ..< 0 + length t + 1] = [1 ..< length t + 1]" by simp
    have meq: "map f [1 ..< length t + 1] = map (\<lambda>k. report p (take k t)) [1 ..< length t + 1]"
    proof (rule map_cong[OF refl])
      fix k assume "k \<in> set [1 ..< length t + 1]"
      then have "k \<le> length t" by auto
      then show "f k = report p (take k t)" by (rule eq)
    qed
    show ?thesis using pa unfolding z meq by blast
  next
    case False
    have "lab ! 0 = []" using machine_inv_labs[OF M(2)] unfolding labs_ok_def by simp
    moreover have "0 < length (store M)" using machine_inv_labs[OF M(2)] unfolding labs_ok_def by simp
    moreover have "length [] + 1 - length p = 0" using m by (cases p) simp_all
    ultimately have "proc_inv p lab M []"
      unfolding proc_inv_def using M False m
      by (simp add: root_def ev_Nil cnt_def win_ok_zero Suc_le_eq)
    from process_all_bounded[OF this b, of t] show ?thesis by auto
  qed
  then obtain M' where "process_all M t = Some (Inr (M',
                concat (map (\<lambda>k. report p (take k t)) [1 ..< length t + 1])))" by blast
  then have "main p t = Some (Inr (concat (map (\<lambda>k. report p (take k t)) [1 ..< length t + 1])))"
    unfolding main_def using M(1) by simp
  then show ?thesis unfolding alignments_def using report_sum[OF m, of "length t" t] by simp
qed

lemma main_empty_pattern: "main [] t = Some (Inr (map int [0 ..< length t]))"
proof -
  from PatternMatchingMachine_correct[of "[]"] obtain M where
    M: "PatternMatchingMachine [] = Some (Inr M)"
       "words M = split_to_words []" "pattern_size M = int (length ([] :: string))"
       "counter M = 0"
    by blast
  have w: "words M = []" using M(2) by (simp add: split_to_words_def)
  from process_all_plain[of M 0 0 t] M w obtain M' where
      pa: "process_all M t = Some (Inr (M',
            concat (map (\<lambda>k. [int k - 1]) [0 + 1 ..< 0 + length t + 1])))" by auto
  have "concat (map (\<lambda>k. [int k - 1]) [1 ..< n + 1]) = map int [0 ..< n]" for n
    by (induction n) simp_all
  with pa have "process_all M t = Some (Inr (M', map int [0 ..< length t]))" by simp
  then show ?thesis unfolding main_def using M(1) by simp
qed

subsection \<open>\<^verbatim>\<open>17.cpp\<close>: every run of the machine\<close>

text \<open>
  \<^verbatim>\<open>main\<close> before it returns: the machine that it holds after the last symbol of the
  text, with what it printed.
\<close>

definition run :: "string \<Rightarrow> string \<Rightarrow> (error + machine \<times> int list) option" where
  "run pat text =
     (case PatternMatchingMachine pat of
        None \<Rightarrow> None
      | Some (Inl e) \<Rightarrow> Some (Inl e)
      | Some (Inr M) \<Rightarrow> process_all M text)"

lemma main_run:
  "main p t = (case run p t of
                 None \<Rightarrow> None
               | Some (Inl e) \<Rightarrow> Some (Inl e)
               | Some (Inr (M, out)) \<Rightarrow> Some (Inr out))"
  by (simp add: main_def run_def split: option.splits sum.splits)

lemma run_of_main:
  assumes "main p t = Some (Inr out)"
  shows "\<exists>M. run p t = Some (Inr (M, out))"
  using assms unfolding main_run by (auto split: option.splits sum.splits)

lemma process_all_general:
  assumes "proc_inv p lab M x"
  shows "process_all M t = Some (Inl OutOfRange)
         \<or> (\<exists>M' out. process_all M t = Some (Inr (M', out)) \<and> proc_inv p lab M' (x @ t))"
  using assms
proof (induction t arbitrary: M x)
  case Nil
  then show ?case by simp
next
  case (Cons c cs)
  show ?case
  proof (cases "bad_event p x c")
    case True
    then have "process M c = Some (Inl OutOfRange)" using process_step[OF Cons.prems, of c] by blast
    then show ?thesis by simp
  next
    case False
    then obtain M1 out1 where m1: "proc_inv p lab M1 (x @ [c])" "process M c = Some (Inr (M1, out1))"
      using process_step[OF Cons.prems, of c] by blast
    from Cons.IH[OF m1(1)] show ?thesis
    proof
      assume "process_all M1 cs = Some (Inl OutOfRange)"
      then show ?thesis using m1(2) by simp
    next
      assume "\<exists>M' out. process_all M1 cs = Some (Inr (M', out)) \<and> proc_inv p lab M' ((x @ [c]) @ cs)"
      then obtain M' out where "process_all M1 cs = Some (Inr (M', out))"
        "proc_inv p lab M' ((x @ [c]) @ cs)" by blast
      then show ?thesis using m1(2) by simp
    qed
  qed
qed

lemma initial_proc_inv:
  assumes w: "split_to_words p \<noteq> []"
  shows "\<exists>M lab. PatternMatchingMachine p = Some (Inr M)
           \<and> trie_inv (labels (split_to_words p)) lab (store M) \<and> proc_inv p lab M []"
proof -
  from PatternMatchingMachine_correct[of p] obtain M lab where
    M: "PatternMatchingMachine p = Some (Inr M)"
       "trie_inv (labels (split_to_words p)) lab (store M)"
       "machine_inv (split_to_words p) lab (store M)"
       "words M = split_to_words p" "pattern_size M = int (length p)"
       "mstate M = root" "counter M = 0" "window M = replicate (length p) 0"
       "window_start M = 0"
    by blast
  have m: "0 < length p" using w by (cases p) (simp_all add: split_to_words_def)
  have "lab ! 0 = []" using machine_inv_labs[OF M(3)] unfolding labs_ok_def by simp
  moreover have "0 < length (store M)" using machine_inv_labs[OF M(3)] unfolding labs_ok_def by simp
  moreover have "length [] + 1 - length p = 0" using m by (cases p) simp_all
  ultimately have "proc_inv p lab M []"
    unfolding proc_inv_def using M w m
    by (simp add: root_def ev_Nil cnt_def win_ok_zero Suc_le_eq)
  with M(1,2) show ?thesis by blast
qed

lemma process_all_words_Nil:
  assumes "words M = []"
  shows "\<exists>out. process_all M t = Some (Inr (M\<lparr>counter := counter M + int (length t)\<rparr>, out))"
  using assms
proof (induction t arbitrary: M)
  case Nil
  then show ?case by simp
next
  case (Cons c cs)
  define M1 where "M1 = M\<lparr>counter := counter M + 1\<rparr>"
  have "\<exists>out1. process M c = Some (Inr (M1, out1))"
    unfolding process_def M1_def using Cons.prems by (simp add: Let_def)
  then obtain out1 where p: "process M c = Some (Inr (M1, out1))" by blast
  have "words M1 = []" unfolding M1_def using Cons.prems by simp
  from Cons.IH[OF this] obtain out2 where
    "process_all M1 cs = Some (Inr (M1\<lparr>counter := counter M1 + int (length cs)\<rparr>, out2))" by blast
  moreover have "M1\<lparr>counter := counter M1 + int (length cs)\<rparr>
                 = M\<lparr>counter := counter M + int (length (c # cs))\<rparr>"
    unfolding M1_def by simp
  ultimately show ?case using p by simp
qed

lemma run_window:
  "run p t = Some (Inl OutOfRange)
   \<or> (\<exists>M out. run p t = Some (Inr (M, out)) \<and> words M = split_to_words p
         \<and> length (window M) = length p
         \<and> list_all (\<lambda>v. v \<le> int (length (words M))) (window M))"
proof (cases "split_to_words p = []")
  case True
  from PatternMatchingMachine_correct[of p] obtain M where
    M: "PatternMatchingMachine p = Some (Inr M)" "words M = split_to_words p"
       "window M = replicate (length p) 0"
    by blast
  from process_all_words_Nil[of M t] M(2) True obtain out where
    "process_all M t = Some (Inr (M\<lparr>counter := counter M + int (length t)\<rparr>, out))" by auto
  then have "run p t = Some (Inr (M\<lparr>counter := counter M + int (length t)\<rparr>, out))"
    unfolding run_def using M(1) by simp
  moreover have "list_all (\<lambda>v. v \<le> int (length (words M))) (window M)"
    unfolding M(3) by (simp add: list_all_length)
  ultimately show ?thesis using M(2,3) by simp
next
  case False
  from initial_proc_inv[OF False] obtain M lab where
    M: "PatternMatchingMachine p = Some (Inr M)" "proc_inv p lab M []" by blast
  from process_all_general[OF M(2), of t] show ?thesis
  proof
    assume "process_all M t = Some (Inl OutOfRange)"
    then show ?thesis unfolding run_def using M(1) by simp
  next
    assume "\<exists>M' out. process_all M t = Some (Inr (M', out)) \<and> proc_inv p lab M' ([] @ t)"
    then obtain M' out where r: "process_all M t = Some (Inr (M', out))" "proc_inv p lab M' t"
      by auto
    note d = proc_invD[OF r(2)]
    have "window M' ! i \<le> int (length (words M'))" if "i < length (window M')" for i
    proof -
      have "win_ok (window M' ! i) (cnt (split_to_words p) t (int (length t + 1 - length p) + int i))"
        using d(11)[of i] that d(9) by simp
      then have "window M' ! i \<le> cnt (split_to_words p) t (int (length t + 1 - length p) + int i)"
        unfolding win_ok_def by simp
      also have "\<dots> \<le> int (length (split_to_words p))" by (rule cnt_le)
      finally show ?thesis unfolding d(1) .
    qed
    then have "list_all (\<lambda>v. v \<le> int (length (words M'))) (window M')"
      by (simp add: list_all_length)
    moreover have "run p t = Some (Inr (M', out))" unfolding run_def using M(1) r(1) by simp
    ultimately show ?thesis using d(1,9) by simp
  qed
qed

text \<open>
  The walks along failure links, in a machine whose states carry the labels \<open>lab\<close>: the
  depth of a state is the length of its label.
\<close>

definition walks_ok :: "string list \<Rightarrow> machine \<Rightarrow> bool" where
  "walks_ok lab M \<longleftrightarrow>
     mstate M < length (store M)
     \<and> (\<forall>c. goto (store M) root c \<noteq> None)
     \<and> (\<forall>n < length (store M). n \<noteq> root \<longrightarrow>
          (\<exists>f. failure (store M) n = Some f \<and> f < length (store M)
               \<and> length (lab ! f) < length (lab ! n)))
     \<and> (\<forall>c. \<exists>s path. find_state (store M) (mstate M) c [] = Some (Inr (s, path))
               \<and> goto (store M) s c \<noteq> None)"

lemma proc_inv_walks_ok:
  assumes "proc_inv p lab M x"
  shows "walks_ok lab M"
proof -
  let ?W = "split_to_words p"
  note d = proc_invD[OF assms]
  have lo: "labs_ok (labels ?W) lab (store M)" using d(6) by (rule machine_inv_labs)
  have a: "\<forall>c. goto (store M) root c \<noteq> None" by (simp add: goto_def split: option.splits)
  have b: "\<exists>f. failure (store M) n = Some f \<and> f < length (store M)
               \<and> length (lab ! f) < length (lab ! n)"
    if n: "n < length (store M)" "n \<noteq> root" for n
  proof -
    have n0: "n \<noteq> 0" using n(2) by (simp add: root_def)
    obtain f where f: "link_fail (store M ! n) = Some f" "f < length (store M)"
      "lab ! f = lsuf (labels ?W) (tl (lab ! n))"
      using machine_inv_done[OF d(6) n(1) n0] unfolding node_done_def by blast
    have ne: "lab ! n \<noteq> []" using labs_ok_nonroot[OF lo n(1) n0] .
    have "length (lab ! f) \<le> length (tl (lab ! n))" unfolding f(3) by (rule lsuf_length)
    then have "length (lab ! f) < length (lab ! n)" using ne by (cases "lab ! n") auto
    then show ?thesis using f by (simp add: failure_def)
  qed
  have c: "\<exists>s path. find_state (store M) (mstate M) c [] = Some (Inr (s, path))
               \<and> goto (store M) s c \<noteq> None" for c
    using find_state_walk[OF d(6) d(7), of c "[]"] by auto
  show ?thesis unfolding walks_ok_def using d(7) a b c by blast
qed

lemma run_walks:
  assumes w: "split_to_words p \<noteq> []"
  shows "\<exists>M0 lab. PatternMatchingMachine p = Some (Inr M0)
            \<and> trie_inv (labels (split_to_words p)) lab (store M0)
            \<and> (\<forall>t. run p t = Some (Inl OutOfRange)
                  \<or> (\<exists>M out. run p t = Some (Inr (M, out)) \<and> walks_ok lab M))"
proof -
  from initial_proc_inv[OF w] obtain M lab where
    M: "PatternMatchingMachine p = Some (Inr M)"
       "trie_inv (labels (split_to_words p)) lab (store M)" "proc_inv p lab M []" by blast
  have "run p t = Some (Inl OutOfRange)
        \<or> (\<exists>M out. run p t = Some (Inr (M, out)) \<and> walks_ok lab M)" for t
    using process_all_general[OF M(3), of t] proc_inv_walks_ok[of p lab _ t]
    unfolding run_def using M(1) by auto
  with M(1,2) show ?thesis by blast
qed

lemma run_bounded:
  assumes b: "length p \<le> 32768"
  shows "\<exists>M. run p t = Some (Inr (M, if p = [] then map int [0 ..< length t] else alignments p t))"
proof (cases "p = []")
  case True
  then show ?thesis using run_of_main[OF main_empty_pattern[of t]] by simp
next
  case False
  then have "0 < length p" by simp
  from run_of_main[OF main_bounded[OF this short_ends_bounded[OF b], of t]] False
  show ?thesis by simp
qed

subsection \<open>\<^verbatim>\<open>17.cpp\<close>: what \<^verbatim>\<open>process\<close> changes in the automaton\<close>

text \<open>
  The automaton \<open>st'\<close> has the states of \<open>st\<close>, with the same failure links, output sets
  and terminal flags, and every edge of \<open>st\<close>; it may have more edges.
\<close>

definition frame :: "node list \<Rightarrow> node list \<Rightarrow> bool" where
  "frame st st' \<longleftrightarrow>
     length st' = length st
     \<and> (\<forall>n < length st.
          link_fail (st' ! n) = link_fail (st ! n)
          \<and> outputs (st' ! n) = outputs (st ! n)
          \<and> terminal (st' ! n) = terminal (st ! n)
          \<and> (\<forall>c. links (st ! n) c \<noteq> None \<longrightarrow> links (st' ! n) c = links (st ! n) c))"

lemma frame_refl: "frame st st"
  by (simp add: frame_def)

lemma frame_trans: "frame st st1 \<Longrightarrow> frame st1 st2 \<Longrightarrow> frame st st2"
  unfolding frame_def by auto

lemma find_state_path_aux:
  "find_state st s c path = Some y \<Longrightarrow>
     (\<forall>x \<in> set path. links (st ! x) c = None) \<longrightarrow>
     (\<forall>s' path'. y = Inr (s', path') \<longrightarrow> (\<forall>x \<in> set path'. links (st ! x) c = None))"
proof (induction rule: find_state.raw_induct[rotated 1, consumes 1])
  case (1 find_state st s c path y)
  show ?case
  proof (cases "goto st s c")
    case (Some t)
    then show ?thesis using 1(2) by auto
  next
    case None
    then have l: "links (st ! s) c = None" by (auto simp: goto_def split: option.splits)
    show ?thesis
    proof (cases "failure st s")
      case None
      then show ?thesis using 1(2) \<open>goto st s c = None\<close> by auto
    next
      case (Some f)
      then have "find_state st f c (path @ [s]) = Some y"
        using 1(2) \<open>goto st s c = None\<close> by simp
      from 1(1)[OF this] l show ?thesis by simp
    qed
  qed
qed

lemma find_state_path:
  assumes "find_state st s c path = Some (Inr (s', path'))"
    and "\<forall>x \<in> set path. links (st ! x) c = None"
  shows "\<forall>x \<in> set path'. links (st ! x) c = None"
  using find_state_path_aux[OF assms(1)] assms(2) by blast

lemma set_path_frame:
  assumes "\<forall>x \<in> set path. links (st ! x) c = None"
  shows "frame st (set_path st path c t)"
  unfolding frame_def
proof (intro conjI allI impI)
  show "length (set_path st path c t) = length st" using set_path_result[of st path c t] by simp
next
  fix n assume n: "n < length st"
  have un: "n \<notin> set path \<Longrightarrow> set_path st path c t ! n = st ! n"
   and up: "n \<in> set path \<Longrightarrow> set_path st path c t ! n = (st ! n)\<lparr>links := (links (st ! n))(c \<mapsto> t)\<rparr>"
    using set_path_result[of st path c t] n by simp_all
  show "link_fail (set_path st path c t ! n) = link_fail (st ! n)"
    using un up by (cases "n \<in> set path") simp_all
  show "outputs (set_path st path c t ! n) = outputs (st ! n)"
    using un up by (cases "n \<in> set path") simp_all
  show "terminal (set_path st path c t ! n) = terminal (st ! n)"
    using un up by (cases "n \<in> set path") simp_all
  fix c' assume "links (st ! n) c' \<noteq> None"
  then show "links (set_path st path c t ! n) c' = links (st ! n) c'"
    using un up assms by (cases "n \<in> set path") auto
qed

lemma match_store: "match M k s = Inr M' \<Longrightarrow> store M' = store M"
  unfolding match_def by (auto split: if_splits sum.splits)

lemma process_frame:
  assumes "process M c = Some (Inr (M', out))"
  shows "frame (store M) (store M')"
proof (cases "words M = []")
  case True
  then have "store M' = store M"
    using assms unfolding process_def by (auto simp: Let_def split: if_splits)
  then show ?thesis by (simp add: frame_refl)
next
  case False
  define M0 where "M0 = M\<lparr>counter := counter M + 1\<rparr>"
  have s0: "store M0 = store M" "mstate M0 = mstate M" "words M0 \<noteq> []"
    unfolding M0_def using False by simp_all
  from assms False obtain s path s1 M2 where
    fs: "find_state (store M) (mstate M) c [] = Some (Inr (s, path))"
    and g: "goto (store M) s c = Some s1"
    and m: "match (M0\<lparr>store := set_path (store M) path c s1, mstate := s1\<rparr>)
              (counter (M0\<lparr>store := set_path (store M) path c s1, mstate := s1\<rparr>))
              (mstate (M0\<lparr>store := set_path (store M) path c s1, mstate := s1\<rparr>)) = Inr M2"
    and st: "store M' = store M2"
    unfolding process_def M0_def[symmetric] Let_def using s0
    by (auto split: option.splits sum.splits prod.splits if_splits list.splits)
  have "store M2 = set_path (store M) path c s1" using match_store[OF m] by simp
  moreover have "\<forall>x \<in> set path. links (store M ! x) c = None"
    using find_state_path[OF fs] by simp
  ultimately show ?thesis using st set_path_frame by simp
qed

lemma process_all_frame:
  assumes "process_all M t = Some (Inr (M', out))"
  shows "frame (store M) (store M')"
  using assms
proof (induction t arbitrary: M out)
  case Nil
  then show ?case by (simp add: frame_refl)
next
  case (Cons c cs)
  from Cons.prems obtain M1 out1 out2 where
    a: "process M c = Some (Inr (M1, out1))" "process_all M1 cs = Some (Inr (M', out2))"
    by (auto split: option.splits sum.splits prod.splits)
  from process_frame[OF a(1)] Cons.IH[OF a(2)] show ?case by (rule frame_trans)
qed

subsection \<open>\<^verbatim>\<open>17.cpp\<close>: the failure links that \<^verbatim>\<open>build_failure\<close> leaves\<close>





subsection \<open>\<^verbatim>\<open>17.cpp\<close>: a pattern of more than 32768 symbols\<close>



lemma occurs_at_Cons [simp]:
  "occurs_at p (a # t) (Suc i) \<longleftrightarrow> occurs_at p t i"
  unfolding occurs_at_def by simp





lemma entries_empty: "entries Map.empty = []"
  unfolding entries_def by (simp add: List.map_filter_def)

lemma entries_single: "entries [c \<mapsto> n] = [(c, n)]"
proof -
  have s: "set (entries [c \<mapsto> n]) = {(c, n)}"
    unfolding entries_set by (auto split: if_splits)
  have d: "distinct (entries [c \<mapsto> n])"
    using entries_distinct_fst[of "[c \<mapsto> n]"] by (rule distinct_map[THEN iffD1, THEN conjunct1])
  show ?thesis
  proof (cases "entries [c \<mapsto> n]")
    case Nil
    then show ?thesis using s by simp
  next
    case (Cons y ys)
    have y: "y = (c, n)" using s Cons by auto
    have "set ys \<subseteq> {(c, n)}" using s Cons by auto
    moreover have "(c, n) \<notin> set ys" using d Cons y by simp
    ultimately have "ys = []" by (cases ys) auto
    then show ?thesis using Cons y by simp
  qed
qed

definition M_ab :: machine where
  "M_ab = \<lparr>store = [new_node\<lparr>links := [CHR ''a'' \<mapsto> 1]\<rparr>,
                     new_node\<lparr>links := [CHR ''b'' \<mapsto> 2], link_fail := Some 0\<rparr>,
                     new_node\<lparr>terminal := True, outputs := [1], link_fail := Some 0\<rparr>],
            pattern = ''ab'', pattern_size = 2, mstate = 0, counter = 0, window = [0, 0],
            window_start = 0, words = [(''ab'', 1)]\<rparr>"

lemma pm_ab: "PatternMatchingMachine ''ab'' = Some (Inr M_ab)"
  by (simp add: PatternMatchingMachine_def build_def split_to_words_def build_failure_def
      new_node_def root_def entries_empty entries_single failure_queue.simps fail_state.simps
      add_word_def to_short_def set_failure_def goto_def M_ab_def Let_def numeral_2_eq_2)


lemma goto_ab: "goto (store M_ab) 1 CHR ''a'' = None"
  by (simp add: M_ab_def goto_def new_node_def root_def)

lemma find_ab: "find_state (store M_ab) 1 CHR ''a'' [] = Some (Inr (0, [1]))"
  by (simp add: M_ab_def find_state.simps goto_def failure_def new_node_def root_def)

lemma run_ab: "\<exists>M out. process_all M_ab ''aa'' = Some (Inr (M, out))
   \<and> links (store M_ab ! 1) CHR ''a'' = None \<and> links (store M ! 1) CHR ''a'' = Some 1"
  by (simp add: M_ab_def process_def find_state.simps goto_def failure_def new_node_def root_def
      match_def Let_def)





subsection \<open>\<^verbatim>\<open>17_double_array_trie.cpp\<close>: \<^verbatim>\<open>process\<close> leaves the nodes alone\<close>

lemma match_dat_nodes: "match_dat M k s = Inr M' \<Longrightarrow> nodes M' = nodes M"
  unfolding match_dat_def by (auto split: if_splits sum.splits)

lemma process_dat_nodes:
  assumes "process_dat M c = Inr (M', out)"
  shows "nodes M' = nodes M"
proof (cases "words_dat M = []")
  case True
  then show ?thesis using assms unfolding process_dat_def by (auto simp: Let_def split: if_splits)
next
  case False
  define M0 where "M0 = M\<lparr>counter_dat := counter_dat M + 1\<rparr>"
  have s0: "nodes M0 = nodes M" "mstate_dat M0 = mstate_dat M" "words_dat M0 \<noteq> []"
    unfolding M0_def using False by simp_all
  from assms obtain s1 M2 where
    m: "match_dat (M0\<lparr>mstate_dat := s1\<rparr>) (counter_dat (M0\<lparr>mstate_dat := s1\<rparr>))
              (mstate_dat (M0\<lparr>mstate_dat := s1\<rparr>)) = Inr M2"
    and st: "nodes M' = nodes M2"
    unfolding process_dat_def M0_def[symmetric] Let_def using s0
    by (auto split: option.splits sum.splits prod.splits if_splits list.splits)
  show ?thesis using match_dat_nodes[OF m] st s0 by simp
qed

section \<open>The window and the walks of \<^verbatim>\<open>17.cpp\<close>\<close>

text \<open>
  Claim C9. For every pattern \<open>p\<close> and every text \<open>t\<close> that the machine of \<^verbatim>\<open>17.cpp\<close> has
  processed, every slot of the window holds a value that is at most the number of segments
  of the pattern (\<^verbatim>\<open>words.size()\<close>). The run either stops with the exception that
  \<^verbatim>\<open>window->at\<close> throws, and then there is no machine left to look at, or it returns a
  machine whose window has the length of the pattern and satisfies the bound. Since \<open>t\<close> is
  arbitrary, this holds after every prefix of a text.
\<close>

theorem window_within_segment_count:
  "run p t = Some (Inl OutOfRange)
   \<or> (\<exists>M out. run p t = Some (Inr (M, out)) \<and> words M = split_to_words p
         \<and> length (window M) = length p
         \<and> list_all (\<lambda>v. v \<le> int (length (words M))) (window M))"
  by (rule run_window)

theorem window_within_segment_count_witness:
  "\<exists>M out. run ''ab??aba'' ''ababacaba'' = Some (Inr (M, out))
      \<and> words M = [(''ab'', 1), (''aba'', 6)] \<and> length (window M) = 7
      \<and> list_all (\<lambda>v. v \<le> 2) (window M)"
proof -
  have b: "length ''ab??aba'' \<le> 32768" by simp
  have w: "split_to_words ''ab??aba'' = [(''ab'', 1), (''aba'', 6)]"
    by (simp add: split_to_words_def to_short_def)
  from run_bounded[OF b, of "''ababacaba''"] obtain M0 out0 where
    "run ''ab??aba'' ''ababacaba'' = Some (Inr (M0, out0))" by blast
  with window_within_segment_count[of "''ab??aba''" "''ababacaba''"] show ?thesis
    unfolding w by auto
qed

text \<open>
  Claim C10. For every pattern with at least one segment, \<^verbatim>\<open>build\<close> returns, so the walks
  along failure links in \<^verbatim>\<open>build_failure\<close> all end. The states of the machine carry the
  labels \<open>lab\<close> of the trie (\<open>trie_inv\<close>), the depth of a state being the length of its
  label. After any text, unless \<^verbatim>\<open>window->at\<close> has thrown, the machine satisfies
  \<open>walks_ok\<close>: \<^verbatim>\<open>goto_\<close> at the root is never the null pointer, every other state has a
  failure link to a strictly shallower state, and for every next symbol the walk of
  \<^verbatim>\<open>process\<close> from the current state returns a state where \<^verbatim>\<open>goto_\<close> is defined, without
  dereferencing a null failure link.
\<close>

theorem failure_walk_terminates:
  assumes "split_to_words p \<noteq> []"
  shows "\<exists>M0 lab. PatternMatchingMachine p = Some (Inr M0)
            \<and> trie_inv (labels (split_to_words p)) lab (store M0)
            \<and> (\<forall>t. run p t = Some (Inl OutOfRange)
                  \<or> (\<exists>M out. run p t = Some (Inr (M, out)) \<and> walks_ok lab M))"
  using assms by (rule run_walks)

theorem failure_walk_terminates_witness:
  "\<exists>M0 lab. PatternMatchingMachine ''ab??aba'' = Some (Inr M0)
      \<and> trie_inv (labels (split_to_words ''ab??aba'')) lab (store M0)
      \<and> (\<exists>M out. run ''ab??aba'' ''ababacaba'' = Some (Inr (M, out)) \<and> walks_ok lab M)"
proof -
  have b: "length ''ab??aba'' \<le> 32768" by simp
  have w: "split_to_words ''ab??aba'' \<noteq> []"
    by (simp add: split_to_words_def to_short_def)
  from run_bounded[OF b, of "''ababacaba''"] obtain M1 out1 where
    r: "run ''ab??aba'' ''ababacaba'' = Some (Inr (M1, out1))" by blast
  from failure_walk_terminates[OF w] obtain M0 lab where
    m: "PatternMatchingMachine ''ab??aba'' = Some (Inr M0)"
       "trie_inv (labels (split_to_words ''ab??aba'')) lab (store M0)"
       "\<forall>t. run ''ab??aba'' t = Some (Inl OutOfRange)
          \<or> (\<exists>M out. run ''ab??aba'' t = Some (Inr (M, out)) \<and> walks_ok lab M)"
    by blast
  from m(3) r have "\<exists>M out. run ''ab??aba'' ''ababacaba'' = Some (Inr (M, out)) \<and> walks_ok lab M"
    by (metis option.inject sum.distinct(1))
  with m(1,2) show ?thesis by blast
qed

section \<open>What matching changes in the automaton\<close>

text \<open>
  Claim C4 fails on \<^verbatim>\<open>17.cpp\<close>: \<^verbatim>\<open>process\<close> stores the state it arrives at as a new edge of
  every state that the walk along the failure links has left. For the pattern \<open>ab\<close>, state
  1 (label \<open>a\<close>) has no edge on \<open>a\<close> after \<^verbatim>\<open>build\<close>; after the text \<open>aa\<close> it has one.
\<close>

theorem process_memoises_counterexample:
  "\<exists>M M' out. PatternMatchingMachine ''ab'' = Some (Inr M)
      \<and> process_all M ''aa'' = Some (Inr (M', out))
      \<and> links (store M ! 1) CHR ''a'' = None \<and> links (store M' ! 1) CHR ''a'' = Some 1"
  using pm_ab run_ab by blast

section \<open>\<^verbatim>\<open>17_double_array_trie.cpp\<close> against \<^verbatim>\<open>17.cpp\<close>\<close>

subsection \<open>The nodes of the vector as states of \<^verbatim>\<open>17.cpp\<close>\<close>

text \<open>
  Node \<open>i\<close> of the vector (\<open>i \<ge> 1\<close>) read as state \<open>i - 1\<close> of \<^verbatim>\<open>17.cpp\<close>: a link is an edge
  when it leads to a node other than the root. (The links to the root are the ones that
  \<^verbatim>\<open>build_failure\<close> and \<^verbatim>\<open>do_bfs\<close> add; the trie has none.)
\<close>

definition abs_node :: "node_dat \<Rightarrow> node" where
  "abs_node nd =
     \<lparr>links = (\<lambda>c. if links_dat nd c \<le> 1 then None else Some (nat (links_dat nd c) - 1)),
      terminal = terminal_dat nd, outputs = outputs_dat nd,
      link_fail = map_option (\<lambda>f. f - 1) (link_fail_dat nd)\<rparr>"

definition abs_store :: "node_dat option list \<Rightarrow> node list" where
  "abs_store ns = map (\<lambda>i. abs_node (deref ns i)) [1 ..< length ns]"

text \<open>
  The shape of the vector: entry 0 is the null pointer, entry \<open>i \<ge> 1\<close> is a node whose
  \<^verbatim>\<open>node_id\<close> is \<open>i\<close>, and links and failure links stay inside the vector. At most 32767
  nodes have an id that fits a \<^verbatim>\<open>short\<close>.
\<close>

definition wf_dat :: "node_dat option list \<Rightarrow> bool" where
  "wf_dat ns \<longleftrightarrow>
     2 \<le> length ns \<and> length ns \<le> 32768 \<and> ns ! 0 = None
     \<and> (\<forall>i. 1 \<le> i \<and> i < length ns \<longrightarrow>
          (\<exists>nd. ns ! i = Some nd \<and> node_id nd = int i
             \<and> (\<forall>c. 0 \<le> links_dat nd c \<and> links_dat nd c < int (length ns))
             \<and> (\<forall>f. link_fail_dat nd = Some f \<longrightarrow> 1 \<le> f \<and> f < length ns)))"

definition trie_links :: "node_dat option list \<Rightarrow> bool" where
  "trie_links ns \<longleftrightarrow> (\<forall>i c. 1 \<le> i \<and> i < length ns \<longrightarrow> links_dat (deref ns i) c \<noteq> 1)"

lemma wf_datD:
  assumes "wf_dat ns" "1 \<le> i" "i < length ns"
  shows "ns ! i = Some (deref ns i)" "node_id (deref ns i) = int i"
    "0 \<le> links_dat (deref ns i) c" "links_dat (deref ns i) c < int (length ns)"
    "link_fail_dat (deref ns i) = Some f \<Longrightarrow> 1 \<le> f \<and> f < length ns"
proof -
  from assms obtain nd where nd: "ns ! i = Some nd" "node_id nd = int i"
    "\<forall>c. 0 \<le> links_dat nd c \<and> links_dat nd c < int (length ns)"
    "\<forall>f. link_fail_dat nd = Some f \<longrightarrow> 1 \<le> f \<and> f < length ns"
    unfolding wf_dat_def by blast
  have d: "deref ns i = nd" using nd(1) by (simp add: deref_def)
  show "ns ! i = Some (deref ns i)" using nd(1) d by simp
  show "node_id (deref ns i) = int i" using nd(2) d by simp
  show "0 \<le> links_dat (deref ns i) c" "links_dat (deref ns i) c < int (length ns)"
    using nd(3) d by simp_all
  show "link_fail_dat (deref ns i) = Some f \<Longrightarrow> 1 \<le> f \<and> f < length ns"
    using nd(4) d by simp
qed

lemma wf_dat_len: "wf_dat ns \<Longrightarrow> 2 \<le> length ns \<and> length ns \<le> 32768 \<and> ns ! 0 = None"
  by (simp add: wf_dat_def)

lemma wf_dat_ne: "wf_dat ns \<Longrightarrow> ns \<noteq> []"
  unfolding wf_dat_def by (cases ns) simp_all

lemma wf_datI:
  assumes "2 \<le> length ns" "length ns \<le> 32768" "ns ! 0 = None"
    "\<And>i. 1 \<le> i \<Longrightarrow> i < length ns \<Longrightarrow> ns ! i = Some (deref ns i)"
    "\<And>i. 1 \<le> i \<Longrightarrow> i < length ns \<Longrightarrow> node_id (deref ns i) = int i"
    "\<And>i c. 1 \<le> i \<Longrightarrow> i < length ns \<Longrightarrow>
        0 \<le> links_dat (deref ns i) c \<and> links_dat (deref ns i) c < int (length ns)"
    "\<And>i f. 1 \<le> i \<Longrightarrow> i < length ns \<Longrightarrow> link_fail_dat (deref ns i) = Some f \<Longrightarrow>
        1 \<le> f \<and> f < length ns"
  shows "wf_dat ns"
  unfolding wf_dat_def using assms by blast

lemma abs_length: "length (abs_store ns) = length ns - 1"
  by (simp add: abs_store_def)

lemma abs_nth: "Suc n < length ns \<Longrightarrow> abs_store ns ! n = abs_node (deref ns (Suc n))"
  by (simp add: abs_store_def)

lemma deref_append: "i < length ns \<Longrightarrow> deref (ns @ xs) i = deref ns i"
  by (simp add: deref_def nth_append)

lemma deref_last: "deref (ns @ [Some nd]) (length ns) = nd"
  by (simp add: deref_def)

lemma deref_update: "i < length ns \<Longrightarrow> deref (ns[i := Some nd]) j = (if j = i then nd else deref ns j)"
  by (simp add: deref_def)

lemma abs_append:
  assumes "1 \<le> length ns"
  shows "abs_store (ns @ [Some nd]) = abs_store ns @ [abs_node nd]"
proof (rule nth_equalityI)
  show "length (abs_store (ns @ [Some nd])) = length (abs_store ns @ [abs_node nd])"
    using assms by (simp add: abs_length)
next
  fix n assume "n < length (abs_store (ns @ [Some nd]))"
  then have n: "Suc n < length ns + 1" by (simp add: abs_length)
  show "abs_store (ns @ [Some nd]) ! n = (abs_store ns @ [abs_node nd]) ! n"
  proof (cases "Suc n < length ns")
    case True
    then show ?thesis
      by (simp add: abs_nth nth_append abs_length deref_append)
  next
    case False
    then have e: "Suc n = length ns" using n by simp
    have "abs_store (ns @ [Some nd]) ! n = abs_node (deref (ns @ [Some nd]) (Suc n))"
      by (rule abs_nth) (use n in simp)
    also have "\<dots> = abs_node nd" unfolding e by (simp add: deref_last)
    finally show ?thesis using e by (simp add: nth_append abs_length)
  qed
qed

lemma abs_update:
  assumes "1 \<le> i" "i < length ns"
  shows "abs_store (ns[i := Some nd]) = (abs_store ns)[i - 1 := abs_node nd]"
proof (rule nth_equalityI)
  show "length (abs_store (ns[i := Some nd])) = length ((abs_store ns)[i - 1 := abs_node nd])"
    by (simp add: abs_length)
next
  fix n assume "n < length (abs_store (ns[i := Some nd]))"
  then have n: "Suc n < length ns" by (simp add: abs_length)
  have "abs_store (ns[i := Some nd]) ! n = abs_node (deref (ns[i := Some nd]) (Suc n))"
    by (rule abs_nth) (use n in simp)
  also have "\<dots> = (if Suc n = i then abs_node nd else abs_node (deref ns (Suc n)))"
    using assms by (simp add: deref_update)
  also have "\<dots> = (abs_store ns)[i - 1 := abs_node nd] ! n"
    using assms n by (auto simp: abs_nth abs_length nth_list_update)
  finally show "abs_store (ns[i := Some nd]) ! n = (abs_store ns)[i - 1 := abs_node nd] ! n" .
qed

subsection \<open>The trie of \<^verbatim>\<open>17_double_array_trie.cpp\<close>\<close>

lemma nodes_at_link:
  assumes wf: "wf_dat ns" and i: "1 \<le> i" "i < length ns"
  shows "nodes_at ns (links_dat (deref ns i) c) =
           Inr (if links_dat (deref ns i) c = 0 then None else Some (nat (links_dat (deref ns i) c)))"
proof -
  let ?k = "links_dat (deref ns i) c"
  have r: "0 \<le> ?k" "?k < int (length ns)" using wf_datD[OF wf i] by simp_all
  show ?thesis
  proof (cases "?k = 0")
    case True
    then show ?thesis using wf_dat_len[OF wf] wf_dat_ne[OF wf] by (simp add: nodes_at_def)
  next
    case False
    then have "1 \<le> nat ?k" "nat ?k < length ns" using r by simp_all
    from wf_datD(1)[OF wf this] show ?thesis using r False by (simp add: nodes_at_def)
  qed
qed

lemma add_word_loop_mono: "length st \<le> length (fst (add_word_loop st nd w))"
proof (induction w arbitrary: st nd)
  case Nil
  then show ?case by simp
next
  case (Cons c cs)
  show ?case
  proof (cases "links (st ! nd) c")
    case None
    define st2 where "st2 = (st @ [new_node])[nd := ((st @ [new_node]) ! nd)
                        \<lparr>links := (links ((st @ [new_node]) ! nd))(c \<mapsto> length st)\<rparr>]"
    have "add_word_loop st nd (c # cs) = add_word_loop st2 (length st) cs"
      using None by (simp add: Let_def st2_def)
    moreover have "length st2 = length st + 1" by (simp add: st2_def)
    ultimately show ?thesis using Cons[of st2 "length st"] by simp
  next
    case (Some n)
    then show ?thesis using Cons[of st n] by simp
  qed
qed

lemma add_word_loop_bound: "length (fst (add_word_loop st nd w)) \<le> length st + length w"
proof (induction w arbitrary: st nd)
  case Nil
  then show ?case by simp
next
  case (Cons c cs)
  show ?case
  proof (cases "links (st ! nd) c")
    case None
    define st2 where "st2 = (st @ [new_node])[nd := ((st @ [new_node]) ! nd)
                        \<lparr>links := (links ((st @ [new_node]) ! nd))(c \<mapsto> length st)\<rparr>]"
    have "add_word_loop st nd (c # cs) = add_word_loop st2 (length st) cs"
      using None by (simp add: Let_def st2_def)
    moreover have "length st2 = length st + 1" by (simp add: st2_def)
    ultimately show ?thesis using Cons[of st2 "length st"] by simp
  next
    case (Some n)
    then show ?thesis using Cons[of st n] by simp
  qed
qed

lemma add_word_length: "length (add_word st w e) = length (fst (add_word_loop st root w))"
  unfolding add_word_def by (cases "add_word_loop st root w") simp

lemma add_words_mono:
  "length st \<le> length (fold (\<lambda>(word, pos) st. add_word st word pos) W st)"
proof (induction W arbitrary: st)
  case Nil
  then show ?case by simp
next
  case (Cons x W)
  obtain w e where x: "x = (w, e)" by (cases x)
  have "length st \<le> length (add_word st w e)"
    unfolding add_word_length by (rule add_word_loop_mono)
  also have "\<dots> \<le> length (fold (\<lambda>(word, pos) st. add_word st word pos) W (add_word st w e))"
    by (rule Cons)
  finally show ?case unfolding x by simp
qed

lemma add_words_bound:
  "length (fold (\<lambda>(word, pos) st. add_word st word pos) W st)
     \<le> length st + sum_list (map (\<lambda>x. length (fst x)) W)"
proof (induction W arbitrary: st)
  case Nil
  then show ?case by simp
next
  case (Cons x W)
  obtain w e where x: "x = (w, e)" by (cases x)
  have "length (add_word st w e) \<le> length st + length w"
    unfolding add_word_length by (rule add_word_loop_bound)
  then show ?case unfolding x using Cons[of "add_word st w e"] by simp
qed

lemma add_word_loop_sim:
  assumes "wf_dat ns" "trie_links ns" "1 \<le> nd" "nd < length ns"
    "length (fst (add_word_loop (abs_store ns) (nd - 1) w)) \<le> 32767"
  shows "\<exists>ns' nd'. add_word_loop_dat ns nd w = Inr (ns', nd') \<and> wf_dat ns' \<and> trie_links ns'
           \<and> 1 \<le> nd' \<and> nd' < length ns' \<and> length ns \<le> length ns'
           \<and> length ns' \<le> length ns + length w
           \<and> add_word_loop (abs_store ns) (nd - 1) w = (abs_store ns', nd' - 1)"
  using assms
proof (induction w arbitrary: ns nd)
  case Nil
  then show ?case by simp
next
  case (Cons c cs)
  note wf = Cons.prems(1) and tl = Cons.prems(2) and nd = Cons.prems(3,4)
  let ?k = "links_dat (deref ns nd) c"
  have r: "0 \<le> ?k" "?k < int (length ns)" using wf_datD[OF wf nd] by simp_all
  have k1: "?k \<noteq> 1" using tl nd unfolding trie_links_def by blast
  have an: "abs_store ns ! (nd - 1) = abs_node (deref ns nd)"
    using abs_nth[of "nd - 1" ns] nd by simp
  show ?case
  proof (cases "?k = 0")
    case False
    define n' where "n' = nat ?k"
    have n': "1 \<le> n'" "n' < length ns" "int n' = ?k" using r False by (simp_all add: n'_def)
    have n2: "2 \<le> n'" using n' k1 by linarith
    have f: "add_word_loop_dat ns nd (c # cs) = add_word_loop_dat ns n' cs"
      using nodes_at_link[OF wf nd, of c] False by (simp add: get_link_def n'_def)
    have "links (abs_store ns ! (nd - 1)) c = Some (n' - 1)"
      unfolding an abs_node_def using n2 n'(3) by simp
    then have p: "add_word_loop (abs_store ns) (nd - 1) (c # cs)
                = add_word_loop (abs_store ns) (n' - 1) cs" by simp
    have "length (fst (add_word_loop (abs_store ns) (n' - 1) cs)) \<le> 32767"
      using Cons.prems(5) unfolding p .
    from Cons.IH[OF wf tl n'(1,2) this] show ?thesis unfolding f p by auto
  next
    case True
    define len where "len = length ns"
    define new where "new = \<lparr>node_id = to_short (int len), links_dat = (\<lambda>c. 0),
                     terminal_dat = False, outputs_dat = [], link_fail_dat = None\<rparr>"
    define ns1 where "ns1 = ns @ [Some new]"
    define upd where "upd = (deref ns nd)\<lparr>links_dat := (links_dat (deref ns nd))(c := int len)\<rparr>"
    define ns2 where "ns2 = ns1[nd := Some upd]"
    have len2a: "2 \<le> len" using wf_dat_len[OF wf] by (simp add: len_def)
    have a1: "abs_store ns1 = abs_store ns @ [new_node]"
    proof -
      have "abs_node new = new_node" by (simp add: abs_node_def new_def new_node_def)
      then show ?thesis unfolding ns1_def using abs_append[of ns new] len2a by (simp add: len_def)
    qed
    have a2: "abs_store ns2 = (abs_store ns1)[nd - 1 := abs_node upd]"
      unfolding ns2_def using nd by (intro abs_update) (simp_all add: ns1_def)
    have au: "abs_node upd = (abs_store ns ! (nd - 1))\<lparr>links := (links (abs_store ns ! (nd - 1)))(c \<mapsto> len - 1)\<rparr>"
      unfolding an using len2a by (auto simp: abs_node_def upd_def fun_eq_iff)
    have la: "length (abs_store ns) = len - 1" by (simp add: abs_length len_def)
    have nda: "nd - 1 < length (abs_store ns)" using nd la by (simp add: len_def)
    have "links (abs_store ns ! (nd - 1)) c = None"
      unfolding an abs_node_def using True by simp
    then have p: "add_word_loop (abs_store ns) (nd - 1) (c # cs)
                = add_word_loop (abs_store ns2) (len - 1) cs"
      unfolding a2 a1 au using la nda by (simp add: Let_def nth_append)
    have b2: "length (fst (add_word_loop (abs_store ns2) (len - 1) cs)) \<le> 32767"
      using Cons.prems(5) unfolding p .
    have "length (abs_store ns2) = len" unfolding a2 a1 using la len2a by simp
    then have "len \<le> 32767"
      using add_word_loop_mono[of "abs_store ns2" "len - 1" cs] b2 by linarith
    then have len2: "2 \<le> len" "len < 32768" using len2a by simp_all
    have id: "to_short (int len) = int len" using len2 by (intro to_short_id) simp_all
    have an1: "add_node ns = (ns1, len)" by (simp add: add_node_def ns1_def new_def len_def)
    have dn: "deref ns1 len = new" unfolding ns1_def len_def by (rule deref_last)
    have dnd: "deref ns1 nd = deref ns nd" unfolding ns1_def using nd by (simp add: deref_append)
    have sl: "set_link ns1 nd c (node_id (deref ns1 len)) = ns2"
      unfolding set_link_def dn dnd ns2_def upd_def by (simp add: new_def id)
    have f: "add_word_loop_dat ns nd (c # cs) = add_word_loop_dat ns2 len cs"
      using nodes_at_link[OF wf nd, of c] True wf_dat_len[OF wf] an1 sl
      by (simp add: get_link_def)
    have l2: "length ns2 = len + 1" by (simp add: ns2_def ns1_def len_def)
    have d2: "deref ns2 i = (if i = nd then upd else if i = len then new else deref ns i)"
      if "i < len + 1" for i
    proof -
      have "nd < length ns1" using nd by (simp add: ns1_def)
      then have "deref ns2 i = (if i = nd then upd else deref ns1 i)"
        unfolding ns2_def by (rule deref_update)
      moreover have "deref ns1 i = (if i = len then new else deref ns i)"
        using that dn by (auto simp: ns1_def deref_append len_def)
      ultimately show ?thesis by simp
    qed
    have ndl: "nd \<noteq> len" using nd by (simp add: len_def)
    have wf2: "wf_dat ns2"
    proof (rule wf_datI)
      show "2 \<le> length ns2" "length ns2 \<le> 32768" using len2 l2 by simp_all
      show "ns2 ! 0 = None" using wf_dat_len[OF wf] wf_dat_ne[OF wf] nd
        by (simp add: ns2_def ns1_def nth_append)
    next
      fix i assume i: "1 \<le> i" "i < length ns2"
      show "ns2 ! i = Some (deref ns2 i)"
      proof (cases "i = nd")
        case True
        then show ?thesis using nd by (simp add: ns2_def ns1_def deref_def)
      next
        case False
        show ?thesis
        proof (cases "i = len")
          case True
          then show ?thesis using ndl by (simp add: ns2_def ns1_def deref_def len_def)
        next
          case False
          then have "i < length ns" using i l2 by (simp add: len_def)
          then show ?thesis using wf_datD(1)[OF wf i(1)] \<open>i \<noteq> nd\<close>
            by (simp add: ns2_def ns1_def deref_def nth_append)
        qed
      qed
      show "node_id (deref ns2 i) = int i"
        using d2[of i] i l2 wf_datD(2)[OF wf i(1)] wf_datD(2)[OF wf nd] id[unfolded len_def]
        by (auto simp: upd_def new_def len_def)
      show "0 \<le> links_dat (deref ns2 i) c' \<and> links_dat (deref ns2 i) c' < int (length ns2)" for c'
        using d2[of i] i l2 wf_datD(3,4)[OF wf i(1), of c'] wf_datD(3,4)[OF wf nd, of c']
        by (auto simp: upd_def new_def len_def)
      show "link_fail_dat (deref ns2 i) = Some f \<Longrightarrow> 1 \<le> f \<and> f < length ns2" for f
        using d2[of i] i l2 wf_datD(5)[OF wf i(1), of f] wf_datD(5)[OF wf nd, of f]
        by (auto simp: upd_def new_def len_def split: if_splits)
    qed
    have tl2: "trie_links ns2"
      unfolding trie_links_def
    proof (intro allI impI)
      fix i c' assume i: "1 \<le> i \<and> i < length ns2"
      have "links_dat (deref ns i) c' \<noteq> 1" if "i < length ns"
        using tl i that unfolding trie_links_def by blast
      moreover have "links_dat (deref ns nd) c' \<noteq> 1"
        using tl nd unfolding trie_links_def by blast
      ultimately show "links_dat (deref ns2 i) c' \<noteq> 1"
        using d2[of i] i l2 len2 by (auto simp: upd_def new_def len_def)
    qed
    have "1 \<le> len" "len < length ns2" using len2 l2 by simp_all
    then obtain ns' nd' where
      r: "add_word_loop_dat ns2 len cs = Inr (ns', nd')" "wf_dat ns'" "trie_links ns'"
         "1 \<le> nd'" "nd' < length ns'" "length ns2 \<le> length ns'"
         "length ns' \<le> length ns2 + length cs"
         "add_word_loop (abs_store ns2) (len - 1) cs = (abs_store ns', nd' - 1)"
      using Cons.IH[OF wf2 tl2 _ _ b2] by blast
    show ?thesis unfolding f p using r l2 by (auto simp: len_def)
  qed
qed

lemma wf_dat_update:
  assumes wf: "wf_dat ns" and i: "1 \<le> i" "i < length ns"
    and nd: "node_id nd = int i" "\<forall>c. 0 \<le> links_dat nd c \<and> links_dat nd c < int (length ns)"
      "\<forall>f. link_fail_dat nd = Some f \<longrightarrow> 1 \<le> f \<and> f < length ns"
  shows "wf_dat (ns[i := Some nd])"
proof (rule wf_datI)
  show "2 \<le> length (ns[i := Some nd])" "length (ns[i := Some nd]) \<le> 32768"
    using wf_dat_len[OF wf] by simp_all
  show "ns[i := Some nd] ! 0 = None" using wf_dat_len[OF wf] i by simp
next
  fix j assume j: "1 \<le> j" "j < length (ns[i := Some nd])"
  then have j': "j < length ns" by simp
  have d: "deref (ns[i := Some nd]) j = (if j = i then nd else deref ns j)"
    using i by (simp add: deref_update)
  show "ns[i := Some nd] ! j = Some (deref (ns[i := Some nd]) j)"
    using wf_datD(1)[OF wf j(1) j'] i d by (cases "j = i") simp_all
  show "node_id (deref (ns[i := Some nd]) j) = int j"
    using wf_datD(2)[OF wf j(1) j'] nd(1) d by simp
  show "0 \<le> links_dat (deref (ns[i := Some nd]) j) c
        \<and> links_dat (deref (ns[i := Some nd]) j) c < int (length (ns[i := Some nd]))" for c
    using wf_datD(3,4)[OF wf j(1) j', of c] nd(2) d by simp
  show "link_fail_dat (deref (ns[i := Some nd]) j) = Some f
        \<Longrightarrow> 1 \<le> f \<and> f < length (ns[i := Some nd])" for f
    using wf_datD(5)[OF wf j(1) j', of f] nd(3) d by (simp split: if_splits)
qed

lemma add_word_sim:
  assumes wf: "wf_dat ns" and tl: "trie_links ns"
    and b: "length (add_word (abs_store ns) w e) \<le> 32767"
  shows "\<exists>ns'. add_word_dat ns w e = Inr ns' \<and> wf_dat ns' \<and> trie_links ns'
           \<and> length ns \<le> length ns' \<and> length ns' \<le> length ns + length w
           \<and> abs_store ns' = add_word (abs_store ns) w e"
proof -
  have r1: "1 \<le> root_dat" "root_dat < length ns" using wf_dat_len[OF wf] by (simp_all add: root_dat_def)
  have b1: "length (fst (add_word_loop (abs_store ns) (root_dat - 1) w)) \<le> 32767"
    using b unfolding add_word_length by (simp add: root_def root_dat_def)
  from add_word_loop_sim[OF wf tl r1 b1] obtain ns1 nd where
    r: "add_word_loop_dat ns root_dat w = Inr (ns1, nd)" "wf_dat ns1" "trie_links ns1"
       "1 \<le> nd" "nd < length ns1" "length ns \<le> length ns1" "length ns1 \<le> length ns + length w"
       "add_word_loop (abs_store ns) (root_dat - 1) w = (abs_store ns1, nd - 1)"
    by blast
  define upd where "upd = (deref ns1 nd)\<lparr>terminal_dat := True,
                  outputs_dat := List.insert e (outputs_dat (deref ns1 nd))\<rparr>"
  define ns' where "ns' = ns1[nd := Some upd]"
  have f: "add_word_dat ns w e = Inr ns'"
    unfolding add_word_dat_def r(1) ns'_def upd_def by simp
  have wf': "wf_dat ns'"
    unfolding ns'_def
    by (rule wf_dat_update[OF r(2,4,5)])
       (use wf_datD[OF r(2,4,5)] in \<open>auto simp: upd_def\<close>)
  have tl': "trie_links ns'"
    unfolding trie_links_def ns'_def
  proof (intro allI impI)
    fix i c assume i: "1 \<le> i \<and> i < length (ns1[nd := Some upd])"
    have "links_dat (deref ns1 i) c \<noteq> 1" "links_dat (deref ns1 nd) c \<noteq> 1"
      using r(3,4,5) i unfolding trie_links_def by simp_all
    then show "links_dat (deref (ns1[nd := Some upd]) i) c \<noteq> 1"
      using r(5) by (simp add: deref_update upd_def)
  qed
  have an: "abs_store ns1 ! (nd - 1) = abs_node (deref ns1 nd)"
    using abs_nth[of "nd - 1" ns1] r(4,5) by simp
  have "abs_store ns' = (abs_store ns1)[nd - 1 := abs_node upd]"
    unfolding ns'_def by (rule abs_update[OF r(4,5)])
  moreover have "abs_node upd = (abs_store ns1 ! (nd - 1))\<lparr>terminal := True,
        outputs := List.insert e (outputs (abs_store ns1 ! (nd - 1)))\<rparr>"
    unfolding an by (simp add: abs_node_def upd_def cong: if_cong)
  ultimately have "abs_store ns' = add_word (abs_store ns) w e"
    unfolding add_word_def using r(8) by (simp add: root_def root_dat_def)
  then show ?thesis using f wf' tl' r(6,7) by (simp add: ns'_def)
qed

lemma add_words_sim:
  assumes "wf_dat ns" "trie_links ns"
    "length (fold (\<lambda>(word, pos) st. add_word st word pos) W (abs_store ns)) \<le> 32767"
  shows "\<exists>ns'. add_words_dat ns W = Inr ns' \<and> wf_dat ns' \<and> trie_links ns'
           \<and> abs_store ns' = fold (\<lambda>(word, pos) st. add_word st word pos) W (abs_store ns)"
  using assms
proof (induction W arbitrary: ns)
  case Nil
  then show ?case by simp
next
  case (Cons x W)
  obtain w e where x: "x = (w, e)" by (cases x)
  have b: "length (add_word (abs_store ns) w e) \<le> 32767"
    using Cons.prems(3) add_words_mono[of "add_word (abs_store ns) w e" W] x by simp
  from add_word_sim[OF Cons.prems(1,2) b] obtain ns1 where
    r: "add_word_dat ns w e = Inr ns1" "wf_dat ns1" "trie_links ns1"
       "length ns1 \<le> length ns + length w" "abs_store ns1 = add_word (abs_store ns) w e"
    by blast
  have "length (fold (\<lambda>(word, pos) st. add_word st word pos) W (abs_store ns1)) \<le> 32767"
    using Cons.prems(3) r(5) x by simp
  from Cons.IH[OF r(2,3) this] show ?case using r(1,5) x by simp
qed

lemma split_loop_total:
  "sum_list (map (\<lambda>x. length (fst x)) (split_loop r word pos acc))
     \<le> sum_list (map (\<lambda>x. length (fst x)) acc) + length word + length r"
  by (induction r word pos acc rule: split_loop.induct) auto

lemma split_to_words_total:
  "sum_list (map (\<lambda>x. length (fst x)) (split_to_words p)) \<le> length p"
  unfolding split_to_words_def using split_loop_total[of p "[]" "- 1" "[]"] by simp

lemma initial_nodes:
  "wf_dat (fst (add_node [None]))" "trie_links (fst (add_node [None]))"
  "abs_store (fst (add_node [None])) = [new_node]" "length (fst (add_node [None])) = 2"
proof -
  have id: "to_short 1 = 1" by (simp add: to_short_def)
  have d: "deref (fst (add_node [None])) 1 = \<lparr>node_id = 1, links_dat = (\<lambda>c. 0),
                     terminal_dat = False, outputs_dat = [], link_fail_dat = None\<rparr>"
    by (simp add: add_node_def deref_def id)
  have i1: "i = 1" if "1 \<le> i" "i < length (fst (add_node [None]))" for i
    using that by (simp add: add_node_def)
  show "wf_dat (fst (add_node [None]))"
  proof (rule wf_datI)
    fix i assume i: "1 \<le> i" "i < length (fst (add_node [None]))"
    note e = i1[OF i]
    show "fst (add_node [None]) ! i = Some (deref (fst (add_node [None])) i)"
      unfolding e by (simp add: add_node_def deref_def)
    show "node_id (deref (fst (add_node [None])) i) = int i" unfolding e d by simp
    show "0 \<le> links_dat (deref (fst (add_node [None])) i) c
          \<and> links_dat (deref (fst (add_node [None])) i) c < int (length (fst (add_node [None])))" for c
      unfolding e d by (simp add: add_node_def)
    show "link_fail_dat (deref (fst (add_node [None])) i) = Some f
          \<Longrightarrow> 1 \<le> f \<and> f < length (fst (add_node [None]))" for f
      unfolding e d by simp
  qed (simp_all add: add_node_def)
  show "trie_links (fst (add_node [None]))"
    unfolding trie_links_def
  proof (intro allI impI)
    fix i c assume i: "1 \<le> i \<and> i < length (fst (add_node [None]))"
    then have "i = 1" using i1 by blast
    then show "links_dat (deref (fst (add_node [None])) i) c \<noteq> 1" using d by simp
  qed
  show "abs_store (fst (add_node [None])) = [new_node]"
    unfolding abs_store_def using d by (simp add: add_node_def abs_node_def new_node_def)
  show "length (fst (add_node [None])) = 2" by (simp add: add_node_def)
qed

text \<open>
  The node ids of \<^verbatim>\<open>17_double_array_trie.cpp\<close> are of type \<^verbatim>\<open>short\<close>, and the vector of
  nodes starts with the null pointer. The trie has one state for every prefix of a segment,
  the empty prefix for the root: these must be at most 32767.
\<close>

definition short_ids :: "string \<Rightarrow> bool" where
  "short_ids p \<longleftrightarrow> card (labels (split_to_words p)) \<le> 32767"

lemma trie_size:
  "length (fold (\<lambda>(word, pos) st. add_word st word pos) W [new_node]) = card (labels W)"
proof -
  from add_words_built[OF trie_built_empty, of W] obtain lab where
    "trie_built W lab (fold (\<lambda>(word, pos) st. add_word st word pos) W [new_node])" by auto
  then have "length lab = length (fold (\<lambda>(word, pos) st. add_word st word pos) W [new_node])"
    "distinct lab" "set lab = labels W"
    by (simp_all add: trie_built_def trie_inv_def)
  then show ?thesis using distinct_card[of lab] by simp
qed

lemma short_ids_bounded: "length p \<le> 32766 \<Longrightarrow> short_ids p"
  unfolding short_ids_def trie_size[symmetric]
  using add_words_bound[of "split_to_words p" "[new_node]"] split_to_words_total[of p] by simp

lemma trie_dat:
  assumes b: "short_ids p"
  shows "\<exists>ns. add_words_dat (fst (add_node [None])) (split_to_words p) = Inr ns
           \<and> wf_dat ns \<and> trie_links ns
           \<and> abs_store ns = fold (\<lambda>(word, pos) st. add_word st word pos) (split_to_words p) [new_node]"
proof -
  have "length (fold (\<lambda>(word, pos) st. add_word st word pos) (split_to_words p)
                  (abs_store (fst (add_node [None])))) \<le> 32767"
    unfolding initial_nodes(3) trie_size using b by (simp add: short_ids_def)
  from add_words_sim[OF initial_nodes(1,2) this] show ?thesis
    unfolding initial_nodes(3) .
qed

subsection \<open>\<^verbatim>\<open>build_failure\<close> of \<^verbatim>\<open>17_double_array_trie.cpp\<close>\<close>

text \<open>
  After the first loop of \<^verbatim>\<open>build_failure\<close> the root has a link for every byte, and no
  other node has a link to the root.
\<close>

definition inner_links :: "node_dat option list \<Rightarrow> bool" where
  "inner_links ns \<longleftrightarrow> (\<forall>i c. 2 \<le> i \<and> i < length ns \<longrightarrow> links_dat (deref ns i) c \<noteq> 1)"

definition root_full :: "node_dat option list \<Rightarrow> bool" where
  "root_full ns \<longleftrightarrow> (\<forall>c. links_dat (deref ns 1) c \<noteq> 0)"

lemma abs_links:
  assumes "1 \<le> i" "i < length ns"
  shows "links (abs_store ns ! (i - 1)) c =
           (if links_dat (deref ns i) c \<le> 1 then None else Some (nat (links_dat (deref ns i) c) - 1))"
    "link_fail (abs_store ns ! (i - 1)) = map_option (\<lambda>f. f - 1) (link_fail_dat (deref ns i))"
    "outputs (abs_store ns ! (i - 1)) = outputs_dat (deref ns i)"
    "terminal (abs_store ns ! (i - 1)) = terminal_dat (deref ns i)"
  using abs_nth[of "i - 1" ns] assms by (simp_all add: abs_node_def)

lemma goto_dat_sim:
  assumes wf: "wf_dat ns" and il: "inner_links ns" and rf: "root_full ns"
    and s: "1 \<le> s" "s < length ns"
  shows "goto_dat ns s c = Inr (map_option Suc (goto (abs_store ns) (s - 1) c))"
    "goto (abs_store ns) (s - 1) c = Some t \<Longrightarrow> Suc t < length ns"
proof -
  let ?k = "links_dat (deref ns s) c"
  have r: "0 \<le> ?k" "?k < int (length ns)" using wf_datD[OF wf s] by simp_all
  have g: "goto_dat ns s c = Inr (if ?k = 0 then None else Some (nat ?k))"
    unfolding goto_dat_def get_link_def by (rule nodes_at_link[OF wf s])
  have a: "links (abs_store ns ! (s - 1)) c = (if ?k \<le> 1 then None else Some (nat ?k - 1))"
    by (rule abs_links(1)[OF s])
  have e: "goto (abs_store ns) (s - 1) c = (if ?k = 0 then None else Some (nat ?k - 1))"
  proof (cases "s = 1")
    case True
    then have "?k \<noteq> 0" using rf by (simp add: root_full_def)
    then show ?thesis unfolding goto_def a using True r by (auto simp: root_def)
  next
    case False
    then have "?k \<noteq> 1" using il s unfolding inner_links_def by simp
    then show ?thesis unfolding goto_def a using False s r by (auto simp: root_def)
  qed
  show "goto_dat ns s c = Inr (map_option Suc (goto (abs_store ns) (s - 1) c))"
    unfolding g e using r by auto
  show "goto (abs_store ns) (s - 1) c = Some t \<Longrightarrow> Suc t < length ns"
    unfolding e using r by (auto split: if_splits)
qed

lemma fail_dat_sim:
  assumes wf: "wf_dat ns" and s: "1 \<le> s" "s < length ns"
    and f: "link_fail (abs_store ns ! (s - 1)) = Some f"
  shows "link_fail_dat (deref ns s) = Some (Suc f)" "Suc f < length ns"
proof -
  from f obtain f' where f': "link_fail_dat (deref ns s) = Some f'" "f = f' - 1"
    unfolding abs_links(2)[OF s] by auto
  have "1 \<le> f' \<and> f' < length ns" using wf_datD(5)[OF wf s f'(1)] .
  then show "link_fail_dat (deref ns s) = Some (Suc f)" "Suc f < length ns"
    using f' by simp_all
qed

lemma fail_state_sim_aux:
  "fail_state st s c = Some r \<Longrightarrow>
     (\<forall>ns. st = abs_store ns \<and> wf_dat ns \<and> inner_links ns \<and> root_full ns \<and> Suc s < length ns \<longrightarrow>
        (\<forall>s'. r = Inr s' \<longrightarrow> fail_state_dat ns (Suc s) c = Some (Inr (Suc s')) \<and> Suc s' < length ns))"
proof (induction rule: fail_state.raw_induct[rotated 1, consumes 1])
  case (1 fail_state st s c r)
  show ?case
  proof (intro allI impI)
    fix ns s'
    assume a: "st = abs_store ns \<and> wf_dat ns \<and> inner_links ns \<and> root_full ns \<and> Suc s < length ns"
      and r: "r = Inr s'"
    then have wf: "wf_dat ns" and il: "inner_links ns" and rf: "root_full ns"
      and s: "1 \<le> Suc s" "Suc s < length ns" and st: "st = abs_store ns" by simp_all
    have g: "goto_dat ns (Suc s) c = Inr (map_option Suc (goto st s c))"
      using goto_dat_sim(1)[OF wf il rf s, of c] st by simp
    show "fail_state_dat ns (Suc s) c = Some (Inr (Suc s')) \<and> Suc s' < length ns"
    proof (cases "goto st s c")
      case (Some t)
      then have "s' = s" using 1(2) r by simp
      moreover have "fail_state_dat ns (Suc s) c = Some (Inr (Suc s))"
        by (subst fail_state_dat.simps) (simp add: g Some)
      ultimately show ?thesis using s by simp
    next
      case None
      show ?thesis
      proof (cases "link_fail (st ! s)")
        case None
        then show ?thesis using 1(2) r \<open>goto st s c = None\<close> by simp
      next
        case (Some f)
        then have rec: "fail_state st f c = Some r" using 1(2) \<open>goto st s c = None\<close> by simp
        have "link_fail (abs_store ns ! (Suc s - 1)) = Some f" using Some st by simp
        from fail_dat_sim[OF wf s this] have fd: "link_fail_dat (deref ns (Suc s)) = Some (Suc f)"
          "Suc f < length ns" by simp_all
        have "fail_state_dat ns (Suc f) c = Some (Inr (Suc s')) \<and> Suc s' < length ns"
          using 1(1)[OF rec] st wf il rf fd(2) r by blast
        moreover have "fail_state_dat ns (Suc s) c = fail_state_dat ns (Suc f) c"
          by (subst fail_state_dat.simps) (simp add: g \<open>goto st s c = None\<close> fd(1))
        ultimately show ?thesis by simp
      qed
    qed
  qed
qed

lemma fail_state_sim:
  assumes "fail_state (abs_store ns) s c = Some (Inr s')"
    and "wf_dat ns" "inner_links ns" "root_full ns" "Suc s < length ns"
  shows "fail_state_dat ns (Suc s) c = Some (Inr (Suc s'))" "Suc s' < length ns"
  using fail_state_sim_aux[OF assms(1)] assms(2-) by blast+

definition stage2 :: "node_dat option list \<Rightarrow> bool" where
  "stage2 ns \<longleftrightarrow> wf_dat ns \<and> inner_links ns \<and> root_full ns"

lemma stage2_update:
  assumes s2: "stage2 ns" and i: "1 \<le> i" "i < length ns"
    and nd: "node_id nd = int i" "links_dat nd = links_dat (deref ns i)"
      "\<forall>f. link_fail_dat nd = Some f \<longrightarrow> 1 \<le> f \<and> f < length ns"
  shows "stage2 (ns[i := Some nd])"
    "\<forall>j < length ns. links_dat (deref (ns[i := Some nd]) j) = links_dat (deref ns j)"
proof -
  have wf: "wf_dat ns" and il: "inner_links ns" and rf: "root_full ns"
    using s2 by (simp_all add: stage2_def)
  have l: "\<forall>c. 0 \<le> links_dat nd c \<and> links_dat nd c < int (length ns)"
    unfolding nd(2) using wf_datD(3,4)[OF wf i] by simp
  have wf': "wf_dat (ns[i := Some nd])" by (rule wf_dat_update[OF wf i nd(1) l nd(3)])
  show same: "\<forall>j < length ns. links_dat (deref (ns[i := Some nd]) j) = links_dat (deref ns j)"
    using i nd(2) by (simp add: deref_update)
  have "inner_links (ns[i := Some nd])"
    using il same unfolding inner_links_def by simp
  moreover have "root_full (ns[i := Some nd])"
    using rf same i unfolding root_full_def by simp
  ultimately show "stage2 (ns[i := Some nd])" using wf' by (simp add: stage2_def)
qed

lemma set_failure_sim:
  assumes P: "set_failure (abs_store ns) nd c nn = Some (Inr st1)"
    and s2: "stage2 ns" and nd: "Suc nd < length ns" and nn: "Suc nn < length ns"
  shows "\<exists>ns1. set_failure_dat ns (Suc nd) c (Suc nn) = Some (Inr ns1) \<and> abs_store ns1 = st1
           \<and> stage2 ns1 \<and> length ns1 = length ns
           \<and> (\<forall>i < length ns. links_dat (deref ns1 i) = links_dat (deref ns i))"
proof -
  let ?st = "abs_store ns"
  have wf: "wf_dat ns" and il: "inner_links ns" and rf: "root_full ns"
    using s2 by (simp_all add: stage2_def)
  from P obtain state0 state f where
    p: "link_fail (?st ! nd) = Some state0" "fail_state ?st state0 c = Some (Inr state)"
       "goto ?st state c = Some f"
       "st1 = ?st[nn := (?st ! nn)
                \<lparr>terminal := (fold List.insert (outputs (?st ! f)) (outputs (?st ! nn)) \<noteq> []
                               \<or> terminal (?st ! nn)),
                 outputs := fold List.insert (outputs (?st ! f)) (outputs (?st ! nn)),
                 link_fail := Some f\<rparr>]"
    unfolding set_failure_def by (auto simp: Let_def split: option.splits sum.splits)
  have nd1: "1 \<le> Suc nd" and nn1: "1 \<le> Suc nn" by simp_all
  have "link_fail (?st ! (Suc nd - 1)) = Some state0" using p(1) by simp
  from fail_dat_sim[OF wf nd1 nd this] have
    f0: "link_fail_dat (deref ns (Suc nd)) = Some (Suc state0)" "Suc state0 < length ns" by simp_all
  from fail_state_sim[OF p(2) wf il rf f0(2)] have
    fs: "fail_state_dat ns (Suc state0) c = Some (Inr (Suc state))" "Suc state < length ns"
    by simp_all
  have s1: "1 \<le> Suc state" by simp
  have g: "goto_dat ns (Suc state) c = Inr (Some (Suc f))"
    using goto_dat_sim(1)[OF wf il rf s1 fs(2), of c] p(3) by simp
  have fl: "Suc f < length ns" using goto_dat_sim(2)[OF wf il rf s1 fs(2), of c f] p(3) by simp
  define out where "out = fold List.insert (outputs_dat (deref ns (Suc f)))
                                 (outputs_dat (deref ns (Suc nn)))"
  define upd where "upd = (deref ns (Suc nn))
                          \<lparr>terminal_dat := (out \<noteq> [] \<or> terminal_dat (deref ns (Suc nn))),
                           outputs_dat := out, link_fail_dat := Some (Suc f)\<rparr>"
  have F: "set_failure_dat ns (Suc nd) c (Suc nn) = Some (Inr (ns[Suc nn := Some upd]))"
    unfolding set_failure_dat_def by (simp add: f0(1) fs(1) g Let_def upd_def out_def)
  have u: "node_id upd = int (Suc nn)" "links_dat upd = links_dat (deref ns (Suc nn))"
    "\<forall>f'. link_fail_dat upd = Some f' \<longrightarrow> 1 \<le> f' \<and> f' < length ns"
    using wf_datD(2)[OF wf nn1 nn] fl by (simp_all add: upd_def)
  note s2' = stage2_update[OF s2 nn1 nn u]
  have o1: "outputs (?st ! f) = outputs_dat (deref ns (Suc f))"
    using abs_links(3)[of "Suc f" ns] fl by simp
  have o2: "outputs (?st ! nn) = outputs_dat (deref ns (Suc nn))"
    "terminal (?st ! nn) = terminal_dat (deref ns (Suc nn))"
    "?st ! nn = abs_node (deref ns (Suc nn))"
    using abs_links(3,4)[of "Suc nn" ns] abs_nth[of nn ns] nn by simp_all
  have "abs_store (ns[Suc nn := Some upd]) = ?st[Suc nn - 1 := abs_node upd]"
    by (rule abs_update[OF nn1 nn])
  moreover have "abs_node upd = (?st ! nn)
                \<lparr>terminal := (fold List.insert (outputs (?st ! f)) (outputs (?st ! nn)) \<noteq> []
                               \<or> terminal (?st ! nn)),
                 outputs := fold List.insert (outputs (?st ! f)) (outputs (?st ! nn)),
                 link_fail := Some f\<rparr>"
    unfolding o1 o2(1,2) out_def[symmetric] unfolding o2(3)
    by (simp add: abs_node_def upd_def cong: if_cong)
  ultimately have "abs_store (ns[Suc nn := Some upd]) = st1" using p(4) by simp
  then show ?thesis using F s2' by simp
qed

lemma failure_edges_sim:
  assumes "failure_edges (abs_store ns) nd
             (List.map_filter (\<lambda>c. map_option (Pair c) (links (abs_store ns ! nd) c)) cs) q
           = Some (Inr (st1, q1))"
    and "stage2 ns" "1 \<le> nd" "Suc nd < length ns" "\<forall>n \<in> set q. 1 \<le> n \<and> Suc n < length ns"
  shows "\<exists>ns1. failure_edges_dat ns (Suc nd) cs (map Suc q) = Some (Inr (ns1, map Suc q1))
           \<and> abs_store ns1 = st1 \<and> stage2 ns1 \<and> length ns1 = length ns
           \<and> (\<forall>i < length ns. links_dat (deref ns1 i) = links_dat (deref ns i))
           \<and> (\<forall>n \<in> set q1. 1 \<le> n \<and> Suc n < length ns)"
  using assms
proof (induction cs arbitrary: ns q)
  case Nil
  then show ?case by (simp add: List.map_filter_def)
next
  case (Cons c cs)
  note s2 = Cons.prems(2) and nd = Cons.prems(3,4)
  have wf: "wf_dat ns" and il: "inner_links ns" using s2 by (simp_all add: stage2_def)
  let ?st = "abs_store ns"
  let ?k = "links_dat (deref ns (Suc nd)) c"
  let ?f = "\<lambda>ns cs. List.map_filter (\<lambda>c. map_option (Pair c) (links (abs_store ns ! nd) c)) cs"
  have nd1: "1 \<le> Suc nd" by simp
  have r: "0 \<le> ?k" "?k < int (length ns)" using wf_datD[OF wf nd1 nd(2)] by simp_all
  have k1: "?k \<noteq> 1" using il nd unfolding inner_links_def by simp
  have a: "links (?st ! nd) c = (if ?k \<le> 1 then None else Some (nat ?k - 1))"
    using abs_links(1)[OF nd1 nd(2), of c] by simp
  have na: "nodes_at ns (get_link ns (Suc nd) c) = Inr (if ?k = 0 then None else Some (nat ?k))"
    unfolding get_link_def by (rule nodes_at_link[OF wf nd1 nd(2)])
  show ?case
  proof (cases "?k = 0")
    case True
    have e: "?f ns (c # cs) = ?f ns cs" using a True by (simp add: List.map_filter_def)
    have F: "failure_edges_dat ns (Suc nd) (c # cs) (map Suc q)
             = failure_edges_dat ns (Suc nd) cs (map Suc q)"
      using na True by simp
    from Cons.IH[OF Cons.prems(1)[unfolded e] s2 nd Cons.prems(5)] show ?thesis unfolding F .
  next
    case False
    define n' where "n' = nat ?k - 1"
    have n': "1 \<le> n'" "Suc n' < length ns" "nat ?k = Suc n'" using r False k1 by (simp_all add: n'_def)
    have e: "?f ns (c # cs) = (c, n') # ?f ns cs"
      using a False k1 r by (simp add: List.map_filter_def n'_def)
    from Cons.prems(1)[unfolded e] obtain st2 where
      p: "set_failure ?st nd c n' = Some (Inr st2)"
         "failure_edges st2 nd (?f ns cs) (q @ [n']) = Some (Inr (st1, q1))"
      by (auto split: option.splits sum.splits)
    from set_failure_sim[OF p(1) s2 nd(2) n'(2)] obtain ns2 where
      s: "set_failure_dat ns (Suc nd) c (Suc n') = Some (Inr ns2)" "abs_store ns2 = st2"
         "stage2 ns2" "length ns2 = length ns"
         "\<forall>i < length ns. links_dat (deref ns2 i) = links_dat (deref ns i)"
      by blast
    have "links (abs_store ns2 ! nd) = links (?st ! nd)"
    proof
      fix c'
      have "links (abs_store ns2 ! (Suc nd - 1)) c' = links (?st ! (Suc nd - 1)) c'"
        unfolding abs_links(1)[OF nd1 nd(2)] abs_links(1)[OF nd1 nd(2)[folded s(4)]]
        using s(5) nd(2) by simp
      then show "links (abs_store ns2 ! nd) c' = links (?st ! nd) c'" by simp
    qed
    then have e2: "?f ns2 cs = ?f ns cs" by simp
    have q': "\<forall>n \<in> set (q @ [n']). 1 \<le> n \<and> Suc n < length ns2"
      using Cons.prems(5) n' s(4) by simp
    have "failure_edges (abs_store ns2) nd (?f ns2 cs) (q @ [n']) = Some (Inr (st1, q1))"
      using p(2) e2 unfolding s(2) by simp
    from Cons.IH[OF this s(3) nd(1) nd(2)[folded s(4)] q'] obtain ns1 where
      i: "failure_edges_dat ns2 (Suc nd) cs (map Suc (q @ [n'])) = Some (Inr (ns1, map Suc q1))"
         "abs_store ns1 = st1" "stage2 ns1" "length ns1 = length ns2"
         "\<forall>i < length ns2. links_dat (deref ns1 i) = links_dat (deref ns2 i)"
         "\<forall>n \<in> set q1. 1 \<le> n \<and> Suc n < length ns2"
      by blast
    have F: "failure_edges_dat ns (Suc nd) (c # cs) (map Suc q)
             = failure_edges_dat ns2 (Suc nd) cs (map Suc (q @ [n']))"
      using na False n'(3) s(1) by simp
    show ?thesis unfolding F using i s(4,5) by auto
  qed
qed

lemma inner_links_cong:
  assumes "inner_links ns" "length ns' = length ns"
    "\<forall>i. 2 \<le> i \<and> i < length ns \<longrightarrow> links_dat (deref ns' i) = links_dat (deref ns i)"
  shows "inner_links ns'"
  using assms unfolding inner_links_def by simp

lemma failure_root_sim:
  assumes "wf_dat ns" "inner_links ns" "distinct cs" "\<forall>c \<in> set cs. links_dat (deref ns 1) c \<noteq> 1"
    "\<forall>n \<in> set q. 1 \<le> n \<and> Suc n < length ns"
  shows "\<exists>ns1 st1 q1. failure_root_dat ns cs (map Suc q) = Inr (ns1, map Suc q1)
           \<and> failure_root (abs_store ns)
                (List.map_filter (\<lambda>c. map_option (Pair c) (links (abs_store ns ! 0) c)) cs) q
               = (st1, q1)
           \<and> abs_store ns1 = st1 \<and> wf_dat ns1 \<and> inner_links ns1 \<and> length ns1 = length ns
           \<and> (\<forall>c. links_dat (deref ns1 1) c =
                  (if c \<in> set cs \<and> links_dat (deref ns 1) c = 0 then 1
                   else links_dat (deref ns 1) c))
           \<and> (\<forall>i. 2 \<le> i \<and> i < length ns \<longrightarrow> links_dat (deref ns1 i) = links_dat (deref ns i))
           \<and> (\<forall>n \<in> set q1. 1 \<le> n \<and> Suc n < length ns)"
  using assms
proof (induction cs arbitrary: ns q)
  case Nil
  then show ?case by (simp add: List.map_filter_def)
next
  case (Cons c cs)
  note wf = Cons.prems(1) and il = Cons.prems(2)
  let ?st = "abs_store ns"
  let ?k = "links_dat (deref ns 1) c"
  let ?f = "\<lambda>ns cs. List.map_filter (\<lambda>c. map_option (Pair c) (links (abs_store ns ! 0) c)) cs"
  have r1: "(1::nat) \<le> 1" "1 < length ns" using wf_dat_len[OF wf] by simp_all
  have r: "0 \<le> ?k" "?k < int (length ns)" using wf_datD[OF wf r1] by simp_all
  have k1: "?k \<noteq> 1" using Cons.prems(4) by simp
  have a: "links (?st ! 0) c' = (if links_dat (deref ns 1) c' \<le> 1 then None
                                 else Some (nat (links_dat (deref ns 1) c') - 1))" for c'
    using abs_links(1)[OF r1, of c'] by simp
  have na: "nodes_at ns (get_link ns root_dat c) = Inr (if ?k = 0 then None else Some (nat ?k))"
    unfolding get_link_def root_dat_def by (rule nodes_at_link[OF wf r1])
  have dc: "distinct cs" "c \<notin> set cs" using Cons.prems(3) by simp_all
  show ?case
  proof (cases "?k = 0")
    case True
    define upd where "upd = (deref ns 1)\<lparr>links_dat := (links_dat (deref ns 1))(c := 1)\<rparr>"
    define ns2 where "ns2 = ns[1 := Some upd]"
    have sl: "set_link ns root_dat c (node_id (deref ns root_dat)) = ns2"
      unfolding set_link_def root_dat_def ns2_def upd_def using wf_datD(2)[OF wf r1] by simp
    have F: "failure_root_dat ns (c # cs) (map Suc q) = failure_root_dat ns2 cs (map Suc q)"
      using na True sl by simp
    have d2: "deref ns2 i = (if i = 1 then upd else deref ns i)" for i
      unfolding ns2_def using r1(2) by (simp add: deref_update)
    have wf2: "wf_dat ns2"
      unfolding ns2_def
      by (rule wf_dat_update[OF wf r1])
         (use wf_datD[OF wf r1] r1(2) in \<open>auto simp: upd_def\<close>)
    have k2: "\<forall>i. 2 \<le> i \<and> i < length ns \<longrightarrow> links_dat (deref ns2 i) = links_dat (deref ns i)"
      by (simp add: d2)
    have il2: "inner_links ns2" by (rule inner_links_cong[OF il _ k2]) (simp add: ns2_def)
    have "abs_node upd = abs_node (deref ns 1)"
      using True by (auto simp: abs_node_def upd_def fun_eq_iff)
    moreover have "?st ! 0 = abs_node (deref ns 1)" using abs_nth[of 0 ns] r1(2) by simp
    ultimately have "?st[0 := abs_node upd] = ?st" using list_update_id[of ?st 0] by simp
    then have ab: "abs_store ns2 = ?st"
      unfolding ns2_def abs_update[OF r1] by simp
    have e: "?f ns (c # cs) = ?f ns cs" using a[of c] True by (simp add: List.map_filter_def)
    have p4: "\<forall>c' \<in> set cs. links_dat (deref ns2 1) c' \<noteq> 1"
      using Cons.prems(4) dc(2) by (auto simp: d2 upd_def)
    have p5: "\<forall>n \<in> set q. 1 \<le> n \<and> Suc n < length ns2" using Cons.prems(5) by (simp add: ns2_def)
    from Cons.IH[OF wf2 il2 dc(1) p4 p5] obtain ns1 st1 q1 where
      i: "failure_root_dat ns2 cs (map Suc q) = Inr (ns1, map Suc q1)"
         "failure_root (abs_store ns2) (?f ns2 cs) q = (st1, q1)"
         "abs_store ns1 = st1" "wf_dat ns1" "inner_links ns1" "length ns1 = length ns2"
         "\<forall>c'. links_dat (deref ns1 1) c' =
                  (if c' \<in> set cs \<and> links_dat (deref ns2 1) c' = 0 then 1
                   else links_dat (deref ns2 1) c')"
         "\<forall>i. 2 \<le> i \<and> i < length ns2 \<longrightarrow> links_dat (deref ns1 i) = links_dat (deref ns2 i)"
         "\<forall>n \<in> set q1. 1 \<le> n \<and> Suc n < length ns2"
      by blast
    have k3: "\<forall>i. 2 \<le> i \<and> i < length ns \<longrightarrow> links_dat (deref ns1 i) = links_dat (deref ns i)"
      using i(8) k2 by (simp add: ns2_def)
    have l: "\<forall>c'. links_dat (deref ns1 1) c' =
                  (if c' \<in> set (c # cs) \<and> links_dat (deref ns 1) c' = 0 then 1
                   else links_dat (deref ns 1) c')"
      using i(7) True by (auto simp: d2 upd_def)
    show ?thesis unfolding F e using i(1,3,4,5,6,9) i(2)[unfolded ab] l k3
      by (auto simp: ns2_def)
  next
    case False
    define n' where "n' = nat ?k - 1"
    have n': "1 \<le> n'" "Suc n' < length ns" "nat ?k = Suc n'" using r False k1 by (simp_all add: n'_def)
    have n1: "1 \<le> Suc n'" by simp
    define upd where "upd = (deref ns (Suc n'))\<lparr>link_fail_dat := Some root_dat\<rparr>"
    define ns2 where "ns2 = ns[Suc n' := Some upd]"
    have F: "failure_root_dat ns (c # cs) (map Suc q) = failure_root_dat ns2 cs (map Suc (q @ [n']))"
      using na False n'(3) by (simp add: ns2_def upd_def)
    have d2: "deref ns2 i = (if i = Suc n' then upd else deref ns i)" for i
      unfolding ns2_def using n'(2) by (simp add: deref_update)
    have wf2: "wf_dat ns2"
      unfolding ns2_def
      by (rule wf_dat_update[OF wf n1 n'(2)])
         (use wf_datD[OF wf n1 n'(2)] r1(2) in \<open>auto simp: upd_def root_dat_def\<close>)
    have k2: "\<forall>i. 2 \<le> i \<and> i < length ns \<longrightarrow> links_dat (deref ns2 i) = links_dat (deref ns i)"
      by (simp add: d2 upd_def)
    have il2: "inner_links ns2" by (rule inner_links_cong[OF il _ k2]) (simp add: ns2_def)
    have an: "?st ! n' = abs_node (deref ns (Suc n'))" using abs_nth[of n' ns] n'(2) by simp
    have "abs_node upd = (?st ! n')\<lparr>link_fail := Some root\<rparr>"
      unfolding an by (simp add: abs_node_def upd_def root_def root_dat_def cong: if_cong)
    then have ab: "abs_store ns2 = ?st[n' := (?st ! n')\<lparr>link_fail := Some root\<rparr>]"
      unfolding ns2_def abs_update[OF n1 n'(2)] by simp
    have e: "?f ns (c # cs) = (c, n') # ?f ns cs"
      using a[of c] False k1 r by (simp add: List.map_filter_def n'_def)
    have r0: "deref ns2 1 = deref ns 1" using n'(1) by (simp add: d2)
    have l0: "links (abs_store ns2 ! 0) = links (?st ! 0)"
    proof
      fix c'
      have "1 < length ns2" using r1(2) by (simp add: ns2_def)
      from abs_links(1)[OF r1(1) this, of c'] show "links (abs_store ns2 ! 0) c' = links (?st ! 0) c'"
        unfolding r0 a by simp
    qed
    have e2: "?f ns2 cs = ?f ns cs" unfolding l0 ..
    have p4: "\<forall>c' \<in> set cs. links_dat (deref ns2 1) c' \<noteq> 1"
      using Cons.prems(4) unfolding r0 by simp
    have p5: "\<forall>n \<in> set (q @ [n']). 1 \<le> n \<and> Suc n < length ns2"
      using Cons.prems(5) n' by (simp add: ns2_def)
    from Cons.IH[OF wf2 il2 dc(1) p4 p5] obtain ns1 st1 q1 where
      i: "failure_root_dat ns2 cs (map Suc (q @ [n'])) = Inr (ns1, map Suc q1)"
         "failure_root (abs_store ns2) (?f ns2 cs) (q @ [n']) = (st1, q1)"
         "abs_store ns1 = st1" "wf_dat ns1" "inner_links ns1" "length ns1 = length ns2"
         "\<forall>c'. links_dat (deref ns1 1) c' =
                  (if c' \<in> set cs \<and> links_dat (deref ns2 1) c' = 0 then 1
                   else links_dat (deref ns2 1) c')"
         "\<forall>i. 2 \<le> i \<and> i < length ns2 \<longrightarrow> links_dat (deref ns1 i) = links_dat (deref ns2 i)"
         "\<forall>n \<in> set q1. 1 \<le> n \<and> Suc n < length ns2"
      by blast
    have k3: "\<forall>i. 2 \<le> i \<and> i < length ns \<longrightarrow> links_dat (deref ns1 i) = links_dat (deref ns i)"
      using i(8) k2 by (simp add: ns2_def)
    have P: "failure_root ?st (?f ns (c # cs)) q = (st1, q1)"
      unfolding e using i(2)[unfolded e2] unfolding ab by simp
    have l: "\<forall>c'. links_dat (deref ns1 1) c' =
                  (if c' \<in> set (c # cs) \<and> links_dat (deref ns 1) c' = 0 then 1
                   else links_dat (deref ns 1) c')"
      using i(7) False unfolding r0 by auto
    show ?thesis unfolding F using i(1,3,4,5,6,9) P l k3 by (auto simp: ns2_def)
  qed
qed

lemma failure_queue_sim_aux:
  "failure_queue st q = Some r \<Longrightarrow>
     (\<forall>ns. st = abs_store ns \<and> stage2 ns \<and> (\<forall>n \<in> set q. 1 \<le> n \<and> Suc n < length ns) \<longrightarrow>
        (\<forall>st'. r = Inr st' \<longrightarrow>
           (\<exists>ns'. failure_queue_dat ns (map Suc q) = Some (Inr ns') \<and> abs_store ns' = st'
               \<and> stage2 ns' \<and> length ns' = length ns
               \<and> (\<forall>i < length ns. links_dat (deref ns' i) = links_dat (deref ns i)))))"
proof (induction rule: failure_queue.raw_induct[rotated 1, consumes 1])
  case (1 failure_queue st q r)
  show ?case
  proof (intro allI impI)
    fix ns st'
    assume a: "st = abs_store ns \<and> stage2 ns \<and> (\<forall>n \<in> set q. 1 \<le> n \<and> Suc n < length ns)"
      and r: "r = Inr st'"
    then have st: "st = abs_store ns" and s2: "stage2 ns"
      and qr: "\<forall>n \<in> set q. 1 \<le> n \<and> Suc n < length ns" by simp_all
    show "\<exists>ns'. failure_queue_dat ns (map Suc q) = Some (Inr ns') \<and> abs_store ns' = st'
               \<and> stage2 ns' \<and> length ns' = length ns
               \<and> (\<forall>i < length ns. links_dat (deref ns' i) = links_dat (deref ns i))"
    proof (cases q)
      case Nil
      then have "st' = st" using 1(2) r by simp
      moreover have "failure_queue_dat ns (map Suc q) = Some (Inr ns)"
        by (subst failure_queue_dat.simps) (simp add: Nil)
      ultimately show ?thesis using st s2 by simp
    next
      case (Cons nd q1)
      from 1(2) r obtain st1 q2 where
        p: "failure_edges st nd (entries (links (st ! nd))) q1 = Some (Inr (st1, q2))"
           "failure_queue st1 q2 = Some r"
        unfolding Cons by (auto split: option.splits sum.splits prod.splits)
      have nd: "1 \<le> nd" "Suc nd < length ns" using qr Cons by simp_all
      have q1: "\<forall>n \<in> set q1. 1 \<le> n \<and> Suc n < length ns" using qr Cons by simp
      have "failure_edges (abs_store ns) nd
             (List.map_filter (\<lambda>c. map_option (Pair c) (links (abs_store ns ! nd) c)) Enum.enum) q1
           = Some (Inr (st1, q2))"
        using p(1) unfolding st entries_def .
      from failure_edges_sim[OF this s2 nd q1] obtain ns1 where
        s: "failure_edges_dat ns (Suc nd) Enum.enum (map Suc q1) = Some (Inr (ns1, map Suc q2))"
           "abs_store ns1 = st1" "stage2 ns1" "length ns1 = length ns"
           "\<forall>i < length ns. links_dat (deref ns1 i) = links_dat (deref ns i)"
           "\<forall>n \<in> set q2. 1 \<le> n \<and> Suc n < length ns"
        by blast
      have "st1 = abs_store ns1 \<and> stage2 ns1 \<and> (\<forall>n \<in> set q2. 1 \<le> n \<and> Suc n < length ns1)"
        using s(2,3,4,6) by simp
      with 1(1)[OF p(2)] r obtain ns' where
        i: "failure_queue_dat ns1 (map Suc q2) = Some (Inr ns')" "abs_store ns' = st'"
           "stage2 ns'" "length ns' = length ns1"
           "\<forall>i < length ns1. links_dat (deref ns' i) = links_dat (deref ns1 i)"
        by blast
      have "failure_queue_dat ns (map Suc q) = failure_queue_dat ns1 (map Suc q2)"
        by (subst failure_queue_dat.simps) (simp add: Cons s(1))
      then show ?thesis using i s(4,5) by simp
    qed
  qed
qed

lemma build_failure_sim:
  assumes wf: "wf_dat ns" and tl: "trie_links ns"
    and P: "build_failure (abs_store ns) = Some (Inr st')"
  shows "\<exists>ns'. build_failure_dat ns = Some (Inr ns') \<and> abs_store ns' = st' \<and> stage2 ns'
           \<and> length ns' = length ns
           \<and> (\<forall>i c. 2 \<le> i \<and> i < length ns \<longrightarrow> links_dat (deref ns' i) c = links_dat (deref ns i) c)
           \<and> (\<forall>c. links_dat (deref ns' 1) c =
                 (if links_dat (deref ns 1) c = 0 then 1 else links_dat (deref ns 1) c))"
proof -
  have il: "inner_links ns" using tl unfolding trie_links_def inner_links_def by simp
  have d: "distinct (Enum.enum :: char list)" by (rule enum_distinct)
  have r1: "\<forall>c \<in> set (Enum.enum :: char list). links_dat (deref ns 1) c \<noteq> 1"
    using tl wf_dat_len[OF wf] unfolding trie_links_def by simp
  have q0: "\<forall>n \<in> set ([] :: nat list). 1 \<le> n \<and> Suc n < length ns" by simp
  from failure_root_sim[OF wf il d r1 q0] obtain ns1 st1 q1 where
    f: "failure_root_dat ns Enum.enum [] = Inr (ns1, map Suc q1)"
       "failure_root (abs_store ns) (entries (links (abs_store ns ! 0))) [] = (st1, q1)"
       "abs_store ns1 = st1" "wf_dat ns1" "inner_links ns1" "length ns1 = length ns"
       "\<forall>c. links_dat (deref ns1 1) c =
                  (if c \<in> set (Enum.enum :: char list) \<and> links_dat (deref ns 1) c = 0 then 1
                   else links_dat (deref ns 1) c)"
       "\<forall>i. 2 \<le> i \<and> i < length ns \<longrightarrow> links_dat (deref ns1 i) = links_dat (deref ns i)"
       "\<forall>n \<in> set q1. 1 \<le> n \<and> Suc n < length ns"
    unfolding entries_def by auto
  have l1: "\<forall>c. links_dat (deref ns1 1) c =
                 (if links_dat (deref ns 1) c = 0 then 1 else links_dat (deref ns 1) c)"
    using f(7) by (simp add: enum_UNIV)
  have rf: "root_full ns1" unfolding root_full_def using l1 by auto
  have s2: "stage2 ns1" unfolding stage2_def using f(4,5) rf by simp
  have fq: "failure_queue st1 q1 = Some (Inr st')"
    using P f(2) unfolding build_failure_def by (simp add: root_def)
  have "st1 = abs_store ns1 \<and> stage2 ns1 \<and> (\<forall>n \<in> set q1. 1 \<le> n \<and> Suc n < length ns1)"
    using f(3,6,9) s2 by simp
  with failure_queue_sim_aux[OF fq] obtain ns' where
    i: "failure_queue_dat ns1 (map Suc q1) = Some (Inr ns')" "abs_store ns' = st'"
       "stage2 ns'" "length ns' = length ns1"
       "\<forall>i < length ns1. links_dat (deref ns' i) = links_dat (deref ns1 i)"
    by blast
  have B: "build_failure_dat ns = Some (Inr ns')"
    unfolding build_failure_dat_def using f(1) i(1) by simp
  have o: "\<forall>i c. 2 \<le> i \<and> i < length ns \<longrightarrow> links_dat (deref ns' i) c = links_dat (deref ns i) c"
    using f(8) i(5) f(6) by simp
  have l1': "\<forall>c. links_dat (deref ns' 1) c =
                 (if links_dat (deref ns 1) c = 0 then 1 else links_dat (deref ns 1) c)"
    using l1 i(5) f(6) wf_dat_len[OF wf] by simp
  show ?thesis using B i(2,3,4) f(6) o l1' by simp
qed

subsection \<open>\<^verbatim>\<open>do_bfs\<close>: the transitions become total\<close>

text \<open>
  The vector \<open>ns0\<close> that \<^verbatim>\<open>build_failure\<close> leaves, with the labels \<open>lab\<close> of its states: read
  as an automaton of \<^verbatim>\<open>17.cpp\<close> it is the trie with its failure links and output sets.
\<close>

definition built :: "(string \<times> int) list \<Rightarrow> string list \<Rightarrow> node_dat option list \<Rightarrow> bool" where
  "built W lab ns0 \<longleftrightarrow>
     stage2 ns0 \<and> trie_inv (labels W) lab (abs_store ns0) \<and> machine_inv W lab (abs_store ns0)
     \<and> (\<forall>x \<in> set W. fst x \<noteq> [])"

text \<open>State \<open>n\<close> has its transition on every byte: the state of the longest suffix.\<close>

definition complete :: "(string \<times> int) list \<Rightarrow> string list \<Rightarrow> node_dat option list \<Rightarrow> nat \<Rightarrow> bool" where
  "complete W lab ns n \<longleftrightarrow>
     (\<forall>c. \<exists>t < length lab. lab ! t = lsuf (labels W) (lab ! n @ [c])
            \<and> links_dat (deref ns (Suc n)) c = int t + 1)"

definition same_fields :: "node_dat option list \<Rightarrow> node_dat option list \<Rightarrow> bool" where
  "same_fields ns0 ns \<longleftrightarrow>
     length ns = length ns0
     \<and> (\<forall>i < length ns0. terminal_dat (deref ns i) = terminal_dat (deref ns0 i)
           \<and> outputs_dat (deref ns i) = outputs_dat (deref ns0 i)
           \<and> link_fail_dat (deref ns i) = link_fail_dat (deref ns0 i))"

lemma same_fields_refl: "same_fields ns ns"
  by (simp add: same_fields_def)

lemma same_fields_update:
  assumes "same_fields ns0 ns" "i < length ns"
    "terminal_dat nd = terminal_dat (deref ns i)" "outputs_dat nd = outputs_dat (deref ns i)"
    "link_fail_dat nd = link_fail_dat (deref ns i)"
  shows "same_fields ns0 (ns[i := Some nd])"
proof -
  have "deref (ns[i := Some nd]) j = (if j = i then nd else deref ns j)" for j
    using assms(2) by (simp add: deref_update)
  then show ?thesis using assms unfolding same_fields_def by simp
qed

lemma built_len:
  assumes "built W lab ns0"
  shows "length ns0 = Suc (length lab)" "0 < length lab" "lab ! 0 = []"
    "length (abs_store ns0) = length lab"
proof -
  have tr: "trie_inv (labels W) lab (abs_store ns0)" using assms by (simp add: built_def)
  have wf: "wf_dat ns0" using assms by (simp add: built_def stage2_def)
  have "length lab = length ns0 - 1" using tr by (simp add: trie_inv_def abs_length)
  then show "length ns0 = Suc (length lab)" using wf_dat_len[OF wf] by arith
  show "0 < length lab" "lab ! 0 = []" using tr by (simp_all add: trie_inv_def)
  show "length (abs_store ns0) = length lab" using tr by (simp add: trie_inv_def)
qed

lemma built_link:
  assumes b: "built W lab ns0" and n: "n < length lab" "n \<noteq> 0"
  shows "(links_dat (deref ns0 (Suc n)) c = 0 \<and> links (abs_store ns0 ! n) c = None
            \<and> lab ! n @ [c] \<notin> labels W)
       \<or> (\<exists>t < length lab. links_dat (deref ns0 (Suc n)) c = int t + 1 \<and> t \<noteq> 0
             \<and> links (abs_store ns0 ! n) c = Some t \<and> lab ! t = lab ! n @ [c])"
proof -
  let ?k = "links_dat (deref ns0 (Suc n)) c"
  have tr: "trie_inv (labels W) lab (abs_store ns0)" using b by (simp add: built_def)
  have wf: "wf_dat ns0" and il: "inner_links ns0" using b by (simp_all add: built_def stage2_def)
  have i: "1 \<le> Suc n" "Suc n < length ns0" using n built_len(1)[OF b] by simp_all
  have r: "0 \<le> ?k" "?k < int (length ns0)" using wf_datD[OF wf i] by simp_all
  have k1: "?k \<noteq> 1" using il i n unfolding inner_links_def by simp
  have a: "links (abs_store ns0 ! n) c = (if ?k \<le> 1 then None else Some (nat ?k - 1))"
    using abs_links(1)[OF i, of c] by simp
  have na: "n < length (abs_store ns0)" using n built_len(4)[OF b] by simp
  show ?thesis
  proof (cases "?k = 0")
    case True
    then have "links (abs_store ns0 ! n) c = None" using a by simp
    then show ?thesis using trie_inv_link_None[OF tr na] True by simp
  next
    case False
    define t where "t = nat ?k - 1"
    have t: "links (abs_store ns0 ! n) c = Some t" "?k = int t + 1" "t \<noteq> 0"
      using a False k1 r by (simp_all add: t_def)
    have "t < length (abs_store ns0) \<and> lab ! t = lab ! n @ [c]"
      using trie_inv_link_Some[OF tr na t(1)] .
    then show ?thesis using t built_len(4)[OF b] by auto
  qed
qed

lemma built_root:
  assumes b: "built W lab ns0"
  shows "complete W lab ns0 0"
  unfolding complete_def
proof
  fix c
  let ?k = "links_dat (deref ns0 1) c"
  let ?L = "labels W"
  have tr: "trie_inv ?L lab (abs_store ns0)" using b by (simp add: built_def)
  have wf: "wf_dat ns0" and rf: "root_full ns0" using b by (simp_all add: built_def stage2_def)
  have i: "(1::nat) \<le> 1" "1 < length ns0" using built_len(1,2)[OF b] by simp_all
  have r: "0 \<le> ?k" "?k < int (length ns0)" using wf_datD[OF wf i] by simp_all
  have k0: "?k \<noteq> 0" using rf by (simp add: root_full_def)
  have a: "links (abs_store ns0 ! 0) c = (if ?k \<le> 1 then None else Some (nat ?k - 1))"
    using abs_links(1)[OF i, of c] by simp
  have na: "0 < length (abs_store ns0)" using built_len(2,4)[OF b] by simp
  have l0: "lab ! 0 = []" by (rule built_len(3)[OF b])
  show "\<exists>t < length lab. lab ! t = lsuf ?L (lab ! 0 @ [c]) \<and> links_dat (deref ns0 (Suc 0)) c = int t + 1"
  proof (cases "?k = 1")
    case True
    then have "links (abs_store ns0 ! 0) c = None" using a by simp
    then have "[c] \<notin> ?L" using trie_inv_link_None[OF tr na] l0 by simp
    then have "lsuf ?L (lab ! 0 @ [c]) = lab ! 0" using l0 by simp
    then show ?thesis using True built_len(2)[OF b] by (intro exI[of _ 0]) simp
  next
    case False
    define t where "t = nat ?k - 1"
    have t: "links (abs_store ns0 ! 0) c = Some t" "?k = int t + 1"
      using a False k0 r by (simp_all add: t_def)
    have tt: "t < length (abs_store ns0)" "lab ! t = lab ! 0 @ [c]"
      using trie_inv_link_Some[OF tr na t(1)] by simp_all
    have "lab ! t \<in> ?L" using trie_inv_lab_in[OF tr tt(1)] .
    then have "lsuf ?L (lab ! 0 @ [c]) = lab ! t" unfolding tt(2)[symmetric] by (rule lsuf_self)
    then show ?thesis using t(2) tt(1) built_len(4)[OF b] by (intro exI[of _ t]) simp
  qed
qed

lemma built_fail:
  assumes b: "built W lab ns0" and n: "n < length lab" "n \<noteq> 0"
  shows "\<exists>f < length lab. link_fail_dat (deref ns0 (Suc n)) = Some (Suc f)
            \<and> lab ! f = lsuf (labels W) (tl (lab ! n)) \<and> length (lab ! f) < length (lab ! n)"
proof -
  let ?L = "labels W"
  have mi: "machine_inv W lab (abs_store ns0)" using b by (simp add: built_def)
  have wf: "wf_dat ns0" using b by (simp add: built_def stage2_def)
  have na: "n < length (abs_store ns0)" using n built_len(4)[OF b] by simp
  have i: "1 \<le> Suc n" "Suc n < length ns0" using n built_len(1)[OF b] by simp_all
  obtain f where f: "link_fail (abs_store ns0 ! n) = Some f" "f < length (abs_store ns0)"
      "lab ! f = lsuf ?L (tl (lab ! n))"
    using machine_inv_done[OF mi na n(2)] unfolding node_done_def by blast
  have ne: "lab ! n \<noteq> []" using labs_ok_nonroot[OF machine_inv_labs[OF mi] na n(2)] .
  have "length (lab ! f) \<le> length (tl (lab ! n))" unfolding f(3) by (rule lsuf_length)
  then have lt: "length (lab ! f) < length (lab ! n)" using ne by (cases "lab ! n") auto
  have "link_fail (abs_store ns0 ! (Suc n - 1)) = Some f" using f(1) by simp
  from fail_dat_sim(1)[OF wf i this] show ?thesis using f(2,3) lt built_len(4)[OF b] by auto
qed

lemma built_outputs:
  assumes b: "built W lab ns0" and n: "n < length lab"
  shows "set (outputs_dat (deref ns0 (Suc n))) = out_lab W (lab ! n)"
    "distinct (outputs_dat (deref ns0 (Suc n)))"
    "terminal_dat (deref ns0 (Suc n)) \<longleftrightarrow> outputs_dat (deref ns0 (Suc n)) \<noteq> []"
proof -
  have mi: "machine_inv W lab (abs_store ns0)" and wne: "\<forall>x \<in> set W. fst x \<noteq> []"
    using b by (simp_all add: built_def)
  have na: "n < length (abs_store ns0)" using n built_len(4)[OF b] by simp
  have i: "1 \<le> Suc n" "Suc n < length ns0" using n built_len(1)[OF b] by simp_all
  note o = machine_inv_outputs[OF mi wne na]
  show "set (outputs_dat (deref ns0 (Suc n))) = out_lab W (lab ! n)"
    "distinct (outputs_dat (deref ns0 (Suc n)))"
    "terminal_dat (deref ns0 (Suc n)) \<longleftrightarrow> outputs_dat (deref ns0 (Suc n)) \<noteq> []"
    using o abs_links(3,4)[OF i] by simp_all
qed

lemma nodes_at_in:
  assumes "wf_dat ns" "1 \<le> i" "i < length ns"
  shows "nodes_at ns (int i) = Inr (Some i)"
  using wf_datD(1)[OF assms] assms(3) by (simp add: nodes_at_def)

lemma nodes_at_Suc:
  assumes "wf_dat ns" "Suc t < length ns"
  shows "nodes_at ns (int t + 1) = Inr (Some (Suc t))"
proof -
  have e: "int t + 1 = int (Suc t)" by simp
  show ?thesis unfolding e by (rule nodes_at_in[OF assms(1) _ assms(2)]) simp
qed

lemma nodes_at_0: "wf_dat ns \<Longrightarrow> nodes_at ns 0 = Inr None"
  using wf_dat_len[of ns] wf_dat_ne[of ns] by (simp add: nodes_at_def)

lemma bfs_root_result:
  assumes b: "built W lab ns0"
  shows "bfs_root ns0 cs q =
           Inr (q @ map Suc (map snd (List.map_filter
                  (\<lambda>c. map_option (Pair c) (links (abs_store ns0 ! 0) c)) cs)))"
proof (induction cs arbitrary: q)
  case Nil
  then show ?case by (simp add: List.map_filter_def)
next
  case (Cons c cs)
  let ?k = "links_dat (deref ns0 1) c"
  have wf: "wf_dat ns0" and rf: "root_full ns0" using b by (simp_all add: built_def stage2_def)
  have i: "(1::nat) \<le> 1" "1 < length ns0" using built_len(1,2)[OF b] by simp_all
  have r: "0 \<le> ?k" "?k < int (length ns0)" using wf_datD[OF wf i] by simp_all
  have k0: "?k \<noteq> 0" using rf by (simp add: root_full_def)
  have a: "links (abs_store ns0 ! 0) c = (if ?k \<le> 1 then None else Some (nat ?k - 1))"
    using abs_links(1)[OF i, of c] by simp
  have "1 \<le> nat ?k" "nat ?k < length ns0" using r k0 by simp_all
  from nodes_at_in[OF wf this] have na: "nodes_at ns0 (get_link ns0 root_dat c) = Inr (Some (nat ?k))"
    using r by (simp add: get_link_def root_dat_def)
  show ?case
  proof (cases "?k = 1")
    case True
    then show ?thesis using na a Cons.IH[of q] by (simp add: List.map_filter_def root_dat_def)
  next
    case False
    then have "nat ?k \<noteq> root_dat" "Suc (nat ?k - 1) = nat ?k" using r k0 by (simp_all add: root_dat_def)
    then show ?thesis using na a False k0 r Cons.IH[of "q @ [nat ?k]"]
      by (simp add: List.map_filter_def)
  qed
qed

lemma bfs_edges_complete:
  assumes b: "built W lab ns0" and v: "v < length lab" "v \<noteq> 0" and dc: "distinct cs"
    and wf: "wf_dat ns" and sf: "same_fields ns0 ns"
    and f: "link_fail_dat (deref ns0 (Suc v)) = Some (Suc f)" "f < length lab"
      "lab ! f = lsuf (labels W) (tl (lab ! v))" "f \<noteq> v" "complete W lab ns f"
    and cur: "\<forall>c \<in> set cs. links_dat (deref ns (Suc v)) c = links_dat (deref ns0 (Suc v)) c"
  shows "\<exists>ns'. bfs_edges ns (Suc v) cs q =
              Inr (ns', q @ map Suc (map snd (List.map_filter
                     (\<lambda>c. map_option (Pair c) (links (abs_store ns0 ! v) c)) cs)))
           \<and> wf_dat ns' \<and> same_fields ns0 ns'
           \<and> (\<forall>i < length ns. i \<noteq> Suc v \<longrightarrow> deref ns' i = deref ns i)
           \<and> (\<forall>c. c \<notin> set cs \<longrightarrow> links_dat (deref ns' (Suc v)) c = links_dat (deref ns (Suc v)) c)
           \<and> (\<forall>c \<in> set cs. \<exists>t < length lab. lab ! t = lsuf (labels W) (lab ! v @ [c])
                  \<and> links_dat (deref ns' (Suc v)) c = int t + 1)"
  using dc wf sf f(5) cur
proof (induction cs arbitrary: ns q)
  case Nil
  then show ?case by (simp add: List.map_filter_def)
next
  case (Cons c cs)
  let ?L = "labels W"
  let ?f = "\<lambda>cs. map Suc (map snd (List.map_filter
                     (\<lambda>c. map_option (Pair c) (links (abs_store ns0 ! v) c)) cs))"
  note wf = Cons.prems(2) and sf = Cons.prems(3) and cf = Cons.prems(4)
  have len: "length ns = Suc (length lab)" using sf built_len(1)[OF b] by (simp add: same_fields_def)
  have i: "1 \<le> Suc v" "Suc v < length ns" using v len by simp_all
  have kc: "links_dat (deref ns (Suc v)) c = links_dat (deref ns0 (Suc v)) c"
    using Cons.prems(5) by simp
  have dc: "distinct cs" "c \<notin> set cs" using Cons.prems(1) by simp_all
  have tr: "trie_inv ?L lab (abs_store ns0)" using b by (simp add: built_def)
  have mi: "machine_inv W lab (abs_store ns0)" using b by (simp add: built_def)
  have va: "v < length (abs_store ns0)" using v built_len(4)[OF b] by simp
  from built_link[OF b v, of c] show ?case
  proof
    assume h: "links_dat (deref ns0 (Suc v)) c = 0 \<and> links (abs_store ns0 ! v) c = None
                 \<and> lab ! v @ [c] \<notin> ?L"
    from cf obtain t where t: "t < length lab" "lab ! t = lsuf ?L (lab ! f @ [c])"
      "links_dat (deref ns (Suc f)) c = int t + 1"
      unfolding complete_def by blast
    have ne: "lab ! v \<noteq> []" using labs_ok_nonroot[OF machine_inv_labs[OF mi] va v(2)] .
    have hh: "lab ! v @ [c] \<notin> ?L" using h by simp
    have lt: "lab ! t = lsuf ?L (lab ! v @ [c])"
      unfolding t(2) f(3) using lsuf_fail[OF labels_pclosed hh ne] by simp
    have ti: "1 \<le> Suc t" "Suc t < length ns" using t(1) len by simp_all
    have fi: "1 \<le> Suc f" "Suc f < length ns" using f(2) len by simp_all
    have lf: "link_fail_dat (deref ns (Suc v)) = Some (Suc f)"
      using sf f(1) i built_len(1)[OF b] v(1) by (simp add: same_fields_def)
    have g: "goto_dat ns (Suc f) c = Inr (Some (Suc t))"
      unfolding goto_dat_def get_link_def t(3) by (rule nodes_at_Suc[OF wf ti(2)])
    define upd where "upd = (deref ns (Suc v))\<lparr>links_dat := (links_dat (deref ns (Suc v)))(c := int t + 1)\<rparr>"
    define ns2 where "ns2 = ns[Suc v := Some upd]"
    have nid: "node_id (deref ns (Suc t)) = int t + 1" using wf_datD(2)[OF wf ti] by simp
    have sl: "set_link ns (Suc v) c (node_id (deref ns (Suc t))) = ns2"
      unfolding set_link_def ns2_def upd_def nid ..
    have F: "bfs_edges ns (Suc v) (c # cs) q = bfs_edges ns2 (Suc v) cs q"
      using kc h nodes_at_0[OF wf] lf g sl by (simp add: get_link_def)
    have d2: "deref ns2 j = (if j = Suc v then upd else deref ns j)" for j
      unfolding ns2_def using i(2) by (simp add: deref_update)
    have wf2: "wf_dat ns2"
      unfolding ns2_def
      by (rule wf_dat_update[OF wf i])
         (use wf_datD[OF wf i] ti in \<open>auto simp: upd_def\<close>)
    have sf2: "same_fields ns0 ns2"
      unfolding ns2_def by (rule same_fields_update[OF sf i(2)]) (simp_all add: upd_def)
    have cf2: "complete W lab ns2 f" using cf f(4) unfolding complete_def by (simp add: d2)
    have cur2: "\<forall>c' \<in> set cs. links_dat (deref ns2 (Suc v)) c' = links_dat (deref ns0 (Suc v)) c'"
      using Cons.prems(5) dc(2) by (auto simp: d2 upd_def)
    from Cons.IH[OF dc(1) wf2 sf2 cf2 cur2, of q] obtain ns' where
      r: "bfs_edges ns2 (Suc v) cs q = Inr (ns', q @ ?f cs)"
         "wf_dat ns'" "same_fields ns0 ns'"
         "\<forall>i < length ns2. i \<noteq> Suc v \<longrightarrow> deref ns' i = deref ns2 i"
         "\<forall>c. c \<notin> set cs \<longrightarrow> links_dat (deref ns' (Suc v)) c = links_dat (deref ns2 (Suc v)) c"
         "\<forall>c \<in> set cs. \<exists>t < length lab. lab ! t = lsuf ?L (lab ! v @ [c])
                  \<and> links_dat (deref ns' (Suc v)) c = int t + 1"
      by blast
    have e: "?f (c # cs) = ?f cs" using h by (simp add: List.map_filter_def)
    have c1: "links_dat (deref ns' (Suc v)) c = int t + 1" using r(5) dc(2) by (simp add: d2 upd_def)
    have l2: "length ns2 = length ns" by (simp add: ns2_def)
    have a1: "\<forall>i < length ns. i \<noteq> Suc v \<longrightarrow> deref ns' i = deref ns i"
      using r(4) d2 unfolding l2 by simp
    have a2: "\<forall>c'. c' \<notin> set (c # cs) \<longrightarrow>
                links_dat (deref ns' (Suc v)) c' = links_dat (deref ns (Suc v)) c'"
      using r(5) by (simp add: d2 upd_def)
    have a3: "\<forall>c' \<in> set (c # cs). \<exists>t < length lab. lab ! t = lsuf ?L (lab ! v @ [c'])
                  \<and> links_dat (deref ns' (Suc v)) c' = int t + 1"
      using r(6) c1 lt t(1) by auto
    show ?thesis unfolding F e using r(1,2,3) a1 a2 a3 by blast
  next
    assume "\<exists>t < length lab. links_dat (deref ns0 (Suc v)) c = int t + 1 \<and> t \<noteq> 0
             \<and> links (abs_store ns0 ! v) c = Some t \<and> lab ! t = lab ! v @ [c]"
    then obtain t where t: "t < length lab" "links_dat (deref ns0 (Suc v)) c = int t + 1"
      "links (abs_store ns0 ! v) c = Some t" "lab ! t = lab ! v @ [c]" by blast
    have ti: "1 \<le> Suc t" "Suc t < length ns" using t(1) len by simp_all
    have ta: "t < length (abs_store ns0)" using t(1) built_len(4)[OF b] by simp
    have "lab ! t \<in> ?L" using trie_inv_lab_in[OF tr ta] .
    then have lt: "lab ! t = lsuf ?L (lab ! v @ [c])" unfolding t(4)[symmetric] by (simp add: lsuf_self)
    have na: "nodes_at ns (get_link ns (Suc v) c) = Inr (Some (Suc t))"
      unfolding get_link_def kc t(2) by (rule nodes_at_Suc[OF wf ti(2)])
    have F: "bfs_edges ns (Suc v) (c # cs) q = bfs_edges ns (Suc v) cs (q @ [Suc t])"
      using na by simp
    have cur2: "\<forall>c' \<in> set cs. links_dat (deref ns (Suc v)) c' = links_dat (deref ns0 (Suc v)) c'"
      using Cons.prems(5) by simp
    from Cons.IH[OF dc(1) wf sf cf cur2, of "q @ [Suc t]"] obtain ns' where
      r: "bfs_edges ns (Suc v) cs (q @ [Suc t]) = Inr (ns', (q @ [Suc t]) @ ?f cs)"
         "wf_dat ns'" "same_fields ns0 ns'"
         "\<forall>i < length ns. i \<noteq> Suc v \<longrightarrow> deref ns' i = deref ns i"
         "\<forall>c. c \<notin> set cs \<longrightarrow> links_dat (deref ns' (Suc v)) c = links_dat (deref ns (Suc v)) c"
         "\<forall>c \<in> set cs. \<exists>t < length lab. lab ! t = lsuf ?L (lab ! v @ [c])
                  \<and> links_dat (deref ns' (Suc v)) c = int t + 1"
      by blast
    have e: "?f (c # cs) = Suc t # ?f cs" using t(3) by (simp add: List.map_filter_def)
    have c1: "links_dat (deref ns' (Suc v)) c = int t + 1" using r(5) dc(2) kc t(2) by simp
    have a2: "\<forall>c'. c' \<notin> set (c # cs) \<longrightarrow>
                links_dat (deref ns' (Suc v)) c' = links_dat (deref ns (Suc v)) c'"
      using r(5) by simp
    have a3: "\<forall>c' \<in> set (c # cs). \<exists>t < length lab. lab ! t = lsuf ?L (lab ! v @ [c'])
                  \<and> links_dat (deref ns' (Suc v)) c' = int t + 1"
      using r(6) c1 lt t(1) by auto
    show ?thesis unfolding F e using r(1,2,3,4) a2 a3 by auto
  qed
qed

text \<open>
  \<^verbatim>\<open>do_bfs\<close> visits the states in the order in which \<^verbatim>\<open>build_failure\<close> of \<^verbatim>\<open>17.cpp\<close> does;
  the run \<open>st\<close>, \<open>q\<close> of the latter tells which states have left the queue.
\<close>

definition popped :: "node list \<Rightarrow> nat list \<Rightarrow> nat \<Rightarrow> bool" where
  "popped st q n \<longleftrightarrow> n = 0 \<or> (link_fail (st ! n) \<noteq> None \<and> n \<notin> set q)"

definition cmp_inv :: "(string \<times> int) list \<Rightarrow> string list \<Rightarrow> node_dat option list
    \<Rightarrow> node list \<Rightarrow> nat list \<Rightarrow> node_dat option list \<Rightarrow> bool" where
  "cmp_inv W lab ns0 st q ns \<longleftrightarrow>
     wf_dat ns \<and> same_fields ns0 ns
     \<and> (\<forall>n < length lab. popped st q n \<longrightarrow> complete W lab ns n)
     \<and> (\<forall>n < length lab. \<not> popped st q n \<longrightarrow>
           links_dat (deref ns (Suc n)) = links_dat (deref ns0 (Suc n)))"

lemma failure_edges_queue:
  "failure_edges st v es q = Some (Inr (st', q')) \<Longrightarrow> q' = q @ map snd es"
proof (induction es arbitrary: st q)
  case Nil
  then show ?case by simp
next
  case (Cons x es)
  obtain c n where x: "x = (c, n)" by (cases x)
  from Cons.prems obtain st1 where "failure_edges st1 v es (q @ [n]) = Some (Inr (st', q'))"
    unfolding x by (auto split: option.splits sum.splits)
  from Cons.IH[OF this] show ?case using x by simp
qed

lemma bfs_queue_complete:
  assumes b: "built W lab ns0"
    and inv: "bfs_inv W lab st q d"
    and gl: "\<forall>n < length lab. links (st ! n) = links (abs_store ns0 ! n)"
    and ci: "cmp_inv W lab ns0 st q ns"
  shows "\<exists>ns'. bfs_queue ns (map Suc q) = Some (Inr ns') \<and> wf_dat ns' \<and> same_fields ns0 ns'
           \<and> (\<forall>n < length lab. complete W lab ns' n)"
  using inv gl ci
proof (induction "card (unpopped st q)" arbitrary: st q d ns rule: less_induct)
  case less
  note inv = less.prems(1) and gl = less.prems(2) and ci = less.prems(3)
  have wne: "\<forall>x \<in> set W. fst x \<noteq> []" using b by (simp add: built_def)
  have ll: "length lab = length st" using bfs_inv_trie[OF inv] by (simp add: trie_inv_def)
  have wf: "wf_dat ns" and sf: "same_fields ns0 ns" using ci by (simp_all add: cmp_inv_def)
  show ?case
  proof (cases q)
    case Nil
    have "bfs_queue ns (map Suc q) = Some (Inr ns)"
      by (subst bfs_queue.simps) (simp add: Nil)
    moreover have "complete W lab ns n" if n: "n < length lab" for n
    proof -
      have "popped st q n"
      proof (cases "n = 0")
        case False
        have "node_done W lab st n" using bfs_inv_final[OF inv[unfolded Nil]] n False ll by simp
        then show ?thesis unfolding popped_def Nil using node_done_assigned by simp
      qed (simp add: popped_def)
      then show ?thesis using ci n unfolding cmp_inv_def by blast
    qed
    ultimately show ?thesis using wf sf by blast
  next
    case (Cons v q1)
    obtain d' where d': "bfs_inv W lab st (v # q1) d'" "length (lab ! v) = d'"
    proof (cases "length (lab ! v) = d")
      case True
      then show ?thesis using that inv Cons by simp
    next
      case False
      have i: "bfs_inv W lab st (v # q1) (Suc d)"
        using bfs_inv_shift[OF inv[unfolded Cons] False] .
      have "length (lab ! v) = Suc d"
        using bfs_inv_queue[OF inv[unfolded Cons], of v] False by simp
      then show ?thesis using that i by simp
    qed
    from bfs_step[OF d' wne] obtain st1 q2 where
      s: "failure_edges st v (entries (links (st ! v))) q1 = Some (Inr (st1, q2))"
         "bfs_inv W lab st1 q2 d'" "length st1 = length st"
         "\<forall>n < length st. links (st1 ! n) = links (st ! n)"
         "\<forall>n < length st. n \<noteq> v \<longrightarrow>
                 (link_fail (st1 ! n) \<noteq> None \<and> n \<notin> set q2
                    \<longleftrightarrow> link_fail (st ! n) \<noteq> None \<and> n \<notin> set (v # q1))"
         "link_fail (st1 ! v) \<noteq> None \<and> v \<notin> set q2"
      by blast
    have vq: "v < length st" "v \<noteq> 0" using bfs_inv_queue[OF d'(1), of v] by simp_all
    have v: "v < length lab" "v \<noteq> 0" using vq ll by simp_all
    from built_fail[OF b v] obtain f where
      f: "f < length lab" "link_fail_dat (deref ns0 (Suc v)) = Some (Suc f)"
         "lab ! f = lsuf (labels W) (tl (lab ! v))" "length (lab ! f) < length (lab ! v)"
      by blast
    have fv: "f \<noteq> v" using f(4) by auto
    have "popped st q f"
    proof (cases "f = 0")
      case False
      have "length (lab ! f) < d'" using f(4) d'(2) by simp
      from bfs_inv_below[OF d'(1) _ False this] f(1) ll show ?thesis
        unfolding popped_def Cons by simp
    qed (simp add: popped_def)
    then have cf: "complete W lab ns f" using ci f(1) unfolding cmp_inv_def by blast
    have "\<not> popped st q v" unfolding popped_def Cons using v(2) by simp
    then have cur: "\<forall>c \<in> set (Enum.enum :: char list).
                      links_dat (deref ns (Suc v)) c = links_dat (deref ns0 (Suc v)) c"
      using ci v(1) unfolding cmp_inv_def by simp
    have dc: "distinct (Enum.enum :: char list)" by (rule enum_distinct)
    from bfs_edges_complete[OF b v dc wf sf f(2,1,3) fv cf cur, of "map Suc q1"] obtain ns1 where
      e: "bfs_edges ns (Suc v) Enum.enum (map Suc q1) =
              Inr (ns1, map Suc q1 @ map Suc (map snd (List.map_filter
                     (\<lambda>c. map_option (Pair c) (links (abs_store ns0 ! v) c)) Enum.enum)))"
         "wf_dat ns1" "same_fields ns0 ns1"
         "\<forall>i < length ns. i \<noteq> Suc v \<longrightarrow> deref ns1 i = deref ns i"
         "\<forall>c \<in> set (Enum.enum :: char list). \<exists>t < length lab.
              lab ! t = lsuf (labels W) (lab ! v @ [c])
                  \<and> links_dat (deref ns1 (Suc v)) c = int t + 1"
      by blast
    have q2: "q2 = q1 @ map snd (entries (links (st ! v)))" using failure_edges_queue[OF s(1)] .
    have "entries (links (st ! v)) = List.map_filter
                     (\<lambda>c. map_option (Pair c) (links (abs_store ns0 ! v) c)) Enum.enum"
      unfolding entries_def using gl v(1) by simp
    then have e1: "bfs_edges ns (Suc v) Enum.enum (map Suc q1) = Inr (ns1, map Suc q2)"
      using e(1) q2 by simp
    have lns: "length ns = Suc (length lab)" using sf built_len(1)[OF b] by (simp add: same_fields_def)
    have pp: "popped st1 q2 n \<longleftrightarrow> n = v \<or> popped st q n" if "n < length lab" for n
    proof (cases "n = v")
      case True
      then show ?thesis using s(6) by (simp add: popped_def)
    next
      case False
      then show ?thesis using s(5) that ll unfolding popped_def Cons by auto
    qed
    have cv: "complete W lab ns1 v"
      unfolding complete_def using e(5) by (simp add: enum_UNIV)
    have keep: "deref ns1 (Suc n) = deref ns (Suc n)" if "n < length lab" "n \<noteq> v" for n
      using e(4) that lns by simp
    have ci1: "cmp_inv W lab ns0 st1 q2 ns1"
      unfolding cmp_inv_def
    proof (intro conjI allI impI)
      show "wf_dat ns1" "same_fields ns0 ns1" using e(2,3) .
    next
      fix n assume n: "n < length lab" "popped st1 q2 n"
      show "complete W lab ns1 n"
      proof (cases "n = v")
        case True
        then show ?thesis using cv by simp
      next
        case False
        then have "popped st q n" using pp[OF n(1)] n(2) by simp
        then have "complete W lab ns n" using ci n(1) unfolding cmp_inv_def by blast
        then show ?thesis unfolding complete_def keep[OF n(1) False] .
      qed
    next
      fix n assume n: "n < length lab" "\<not> popped st1 q2 n"
      then have nv: "n \<noteq> v" "\<not> popped st q n" using pp[OF n(1)] by simp_all
      then have "links_dat (deref ns (Suc n)) = links_dat (deref ns0 (Suc n))"
        using ci n(1) unfolding cmp_inv_def by blast
      then show "links_dat (deref ns1 (Suc n)) = links_dat (deref ns0 (Suc n))"
        unfolding keep[OF n(1) nv(1)] .
    qed
    have gl1: "\<forall>n < length lab. links (st1 ! n) = links (abs_store ns0 ! n)"
      using gl s(4) ll by simp
    have u: "unpopped st1 q2 = unpopped st q - {v}"
      unfolding unpopped_def Cons using s(3,5,6) by auto
    have "v \<in> unpopped st q" unfolding unpopped_def Cons using vq by simp
    moreover have "finite (unpopped st q)" unfolding unpopped_def by simp
    ultimately have "card (unpopped st q - {v}) < card (unpopped st q)"
      by (rule card_Diff1_less[rotated])
    then have "card (unpopped st1 q2) < card (unpopped st q)" unfolding u .
    from less.hyps[OF this s(2) gl1 ci1] obtain ns' where
      r: "bfs_queue ns1 (map Suc q2) = Some (Inr ns')" "wf_dat ns'" "same_fields ns0 ns'"
         "\<forall>n < length lab. complete W lab ns' n"
      by blast
    have "bfs_queue ns (map Suc q) = bfs_queue ns1 (map Suc q2)"
      by (subst bfs_queue.simps) (simp add: Cons e1)
    then show ?thesis using r by simp
  qed
qed

subsection \<open>The machine that the constructor of \<^verbatim>\<open>17_double_array_trie.cpp\<close> returns\<close>

text \<open>
  The vector of nodes as a complete automaton: state \<open>n\<close> (node \<open>n + 1\<close>) has the label
  \<open>lab ! n\<close>, its transition on \<open>c\<close> leads to the state of the longest suffix of
  \<open>lab ! n @ [c]\<close> that is a label, its output set holds the end offsets of the segments that
  are suffixes of its label, and its failure link leads to the state of the longest proper
  suffix that is a label.
\<close>

definition dfa_inv :: "(string \<times> int) list \<Rightarrow> string list \<Rightarrow> node_dat option list \<Rightarrow> bool" where
  "dfa_inv W lab ns \<longleftrightarrow>
     wf_dat ns \<and> length ns = Suc (length lab) \<and> 0 < length lab \<and> lab ! 0 = []
     \<and> distinct lab \<and> set lab = labels W
     \<and> (\<forall>n < length lab. complete W lab ns n)
     \<and> (\<forall>n < length lab. set (outputs_dat (deref ns (Suc n))) = out_lab W (lab ! n)
           \<and> distinct (outputs_dat (deref ns (Suc n)))
           \<and> (terminal_dat (deref ns (Suc n)) \<longleftrightarrow> outputs_dat (deref ns (Suc n)) \<noteq> []))
     \<and> (\<forall>n < length lab. n \<noteq> 0 \<longrightarrow>
           (\<exists>f < length lab. link_fail_dat (deref ns (Suc n)) = Some (Suc f)
               \<and> lab ! f = lsuf (labels W) (tl (lab ! n))))"

lemma built_dfa:
  assumes b: "built W lab ns0" and wf: "wf_dat ns" and sf: "same_fields ns0 ns"
    and c: "\<forall>n < length lab. complete W lab ns n"
  shows "dfa_inv W lab ns"
proof -
  have tr: "trie_inv (labels W) lab (abs_store ns0)" using b by (simp add: built_def)
  have l: "length ns = Suc (length lab)" using sf built_len(1)[OF b] by (simp add: same_fields_def)
  have s: "terminal_dat (deref ns (Suc n)) = terminal_dat (deref ns0 (Suc n))"
    "outputs_dat (deref ns (Suc n)) = outputs_dat (deref ns0 (Suc n))"
    "link_fail_dat (deref ns (Suc n)) = link_fail_dat (deref ns0 (Suc n))" if "n < length lab" for n
    using sf that built_len(1)[OF b] by (simp_all add: same_fields_def)
  have o: "\<forall>n < length lab. set (outputs_dat (deref ns (Suc n))) = out_lab W (lab ! n)
           \<and> distinct (outputs_dat (deref ns (Suc n)))
           \<and> (terminal_dat (deref ns (Suc n)) \<longleftrightarrow> outputs_dat (deref ns (Suc n)) \<noteq> [])"
    using built_outputs[OF b] s by simp
  have f: "\<forall>n < length lab. n \<noteq> 0 \<longrightarrow>
           (\<exists>f < length lab. link_fail_dat (deref ns (Suc n)) = Some (Suc f)
               \<and> lab ! f = lsuf (labels W) (tl (lab ! n)))"
  proof (intro allI impI)
    fix n assume n: "n < length lab" "n \<noteq> 0"
    from built_fail[OF b n] show "\<exists>f < length lab. link_fail_dat (deref ns (Suc n)) = Some (Suc f)
               \<and> lab ! f = lsuf (labels W) (tl (lab ! n))"
      unfolding s(3)[OF n(1)] by blast
  qed
  have "distinct lab" "set lab = labels W" using tr by (simp_all add: trie_inv_def)
  then show ?thesis
    unfolding dfa_inv_def using wf l built_len(2,3)[OF b] c o f by blast
qed

lemma PatternMatchingMachine_dat_correct:
  assumes b: "short_ids p"
  shows "\<exists>N lab. PatternMatchingMachine_dat p = Some (Inr N)
           \<and> dfa_inv (split_to_words p) lab (nodes N)
           \<and> words_dat N = split_to_words p \<and> pattern_dat N = p
           \<and> pattern_size_dat N = int (length p) \<and> mstate_dat N = root_dat \<and> counter_dat N = 0
           \<and> window_dat N = replicate (length p) 0 \<and> window_start_dat N = 0"
proof -
  let ?W = "split_to_words p"
  let ?L = "labels ?W"
  from trie_dat[OF b] obtain nst where
    t: "add_words_dat (fst (add_node [None])) ?W = Inr nst" "wf_dat nst" "trie_links nst"
       "abs_store nst = fold (\<lambda>(word, pos) st. add_word st word pos) ?W [new_node]"
    by blast
  from add_words_built[OF trie_built_empty, of ?W] obtain lab where
    tb: "trie_built ?W lab (abs_store nst)" unfolding t(4) by auto
  note wne = split_to_words_nonempty[of p]
  from build_failure_correct[OF tb wne] obtain st' where
    bf: "build_failure (abs_store nst) = Some (Inr st')" "length st' = length (abs_store nst)"
        "\<forall>n < length (abs_store nst). links (st' ! n) = links (abs_store nst ! n)"
        "trie_inv ?L lab st'" "machine_inv ?W lab st'"
    by blast
  from build_failure_sim[OF t(2,3) bf(1)] obtain ns0 where
    n0: "build_failure_dat nst = Some (Inr ns0)" "abs_store ns0 = st'" "stage2 ns0"
    by blast
  have bl: "built ?W lab ns0" unfolding built_def n0(2) using n0(3) bf(4,5) wne by simp
  have ll: "length lab = length (abs_store nst)" using tb by (simp add: trie_built_def trie_inv_def)
  from bfs_inv_initial[OF tb wne] obtain st1 q1 where
    g: "failure_root (abs_store nst) (entries (links (abs_store nst ! root))) [] = (st1, q1)"
       "bfs_inv ?W lab st1 q1 1" "length st1 = length (abs_store nst)"
       "\<forall>n < length (abs_store nst). links (st1 ! n) = links (abs_store nst ! n)"
    by blast
  from failure_root_result[of "abs_store nst" "entries (links (abs_store nst ! root))" "[]"]
  have fr: "q1 = map snd (entries (links (abs_store nst ! root)))"
    "\<forall>n < length (abs_store nst). n \<notin> set q1 \<longrightarrow> st1 ! n = abs_store nst ! n"
    using g(1) by auto
  have r0: "root < length (abs_store nst)" using tb by (simp add: trie_built_def trie_inv_def root_def)
  have "links (abs_store ns0 ! 0) = links (abs_store nst ! root)"
    unfolding n0(2) using bf(3) r0 by (simp add: root_def)
  then have q1: "q1 = map snd (List.map_filter
                  (\<lambda>c. map_option (Pair c) (links (abs_store ns0 ! 0) c)) Enum.enum)"
    unfolding fr(1) entries_def by simp
  have br: "bfs_root ns0 Enum.enum [] = Inr (map Suc q1)"
    unfolding bfs_root_result[OF bl] q1 by simp
  have gl: "\<forall>n < length lab. links (st1 ! n) = links (abs_store ns0 ! n)"
    unfolding n0(2) using g(4) bf(3) ll by simp
  have pz: "n = 0" if "n < length lab" "popped st1 q1 n" for n
  proof (rule ccontr)
    assume n0: "n \<noteq> 0"
    then have a: "link_fail (st1 ! n) \<noteq> None" "n \<notin> set q1" using that(2) by (simp_all add: popped_def)
    have "st1 ! n = abs_store nst ! n" using fr(2) a(2) that(1) ll by simp
    moreover have "node_init ?W lab (abs_store nst) n" using tb that(1) ll by (simp add: trie_built_def)
    ultimately show False using a(1) node_init_unassigned by simp
  qed
  have wf0: "wf_dat ns0" using n0(3) by (simp add: stage2_def)
  have ci: "cmp_inv ?W lab ns0 st1 q1 ns0"
    unfolding cmp_inv_def using wf0 same_fields_refl pz built_root[OF bl] by blast
  from bfs_queue_complete[OF bl g(2) gl ci] obtain ns2 where
    r: "bfs_queue ns0 (map Suc q1) = Some (Inr ns2)" "wf_dat ns2" "same_fields ns0 ns2"
       "\<forall>n < length lab. complete ?W lab ns2 n"
    by blast
  have db: "do_bfs ns0 = Some (Inr ns2)" unfolding do_bfs_def using br r(1) by simp
  have di: "dfa_inv ?W lab ns2" by (rule built_dfa[OF bl r(2,3,4)])
  define N where "N = \<lparr>nodes = ns2, pattern_dat = p, pattern_size_dat = int (length p),
      mstate_dat = root_dat, counter_dat = 0, window_dat = replicate (length p) 0,
      window_start_dat = 0, words_dat = ?W\<rparr>"
  have "PatternMatchingMachine_dat p = Some (Inr N)"
    unfolding PatternMatchingMachine_dat_def build_dat_def N_def
    using t(1) n0(1) db by (simp add: Let_def)
  then show ?thesis using di by (intro exI[of _ N] exI[of _ lab]) (simp add: N_def)
qed

subsection \<open>The window of the class, one symbol at a time\<close>

lemma window_step:
  assumes len: "length win0 = m"
    and ok: "\<And>i. i < m \<Longrightarrow> win_ok (win0 ! i) (cnt W x (ws + int i))"
    and bey: "\<And>s. ws + int m \<le> s \<Longrightarrow> ev W x s = {}"
    and outs: "set out = out_lab W (x @ [c])" "distinct out"
    and nb: "\<forall>e \<in> out_lab W (x @ [c]). int (length x) - e - ws < int m"
  shows "\<exists>win. match_loop (int (length x) + 1) ws out win0 = Inr win \<and> length win = m
          \<and> (\<forall>i < m. win_ok (win ! i) (cnt W (x @ [c]) (ws + int i)))
          \<and> (\<forall>s. ws + int m \<le> s \<longrightarrow> ev W (x @ [c]) s = {})"
proof -
  define Os where "Os = out_lab W (x @ [c])"
  define k where "k = length x"
  have inr: "\<forall>e \<in> set out. int k + 1 - e - 1 - ws < int (length win0)"
    using nb unfolding outs(1) len k_def by simp
  from match_loop_ok[OF outs(2) inr] obtain win where
    w: "match_loop (int k + 1) ws out win0 = Inr win" "length win = m"
       "\<forall>i < m. win ! i = (if int k + 1 - 1 - ws - int i \<in> Os
                     then to_short (win0 ! i + 1) else win0 ! i)"
    unfolding outs(1) len Os_def by blast
  have hit: "int k + 1 - 1 - ws - int i = int k - (ws + int i)" for i by simp
  have wk: "win_ok (win ! i) (cnt W (x @ [c]) (ws + int i))" if i: "i < m" for i
  proof (cases "int k - (ws + int i) \<in> Os")
    case True
    have "win ! i = to_short (win0 ! i + 1)" using w(3) i True unfolding hit by simp
    moreover have "cnt W (x @ [c]) (ws + int i) = cnt W x (ws + int i) + 1"
      using True unfolding cnt_snoc Os_def k_def by simp
    ultimately show ?thesis using win_ok_incr[OF ok[OF i]] by simp
  next
    case False
    have "win ! i = win0 ! i" using w(3) i False unfolding hit by simp
    moreover have "cnt W (x @ [c]) (ws + int i) = cnt W x (ws + int i)"
      using False unfolding cnt_snoc Os_def k_def by simp
    ultimately show ?thesis using ok[OF i] by simp
  qed
  have by': "ev W (x @ [c]) s = {}" if s: "ws + int m \<le> s" for s
  proof -
    have "int k - s \<notin> Os"
    proof
      assume "int k - s \<in> Os"
      then have "int k - (int k - s) - ws < int m" using nb unfolding Os_def k_def by blast
      then show False using s by simp
    qed
    then show ?thesis unfolding ev_snoc using bey[OF s] by (simp add: Os_def k_def)
  qed
  show ?thesis using w(1,2) wk by' unfolding k_def by blast
qed

lemma window_shift:
  assumes len: "length win = m" and m: "0 < m"
    and ok: "\<And>i. i < m \<Longrightarrow> win_ok (win ! i) (cnt W y (ws + int i))"
    and bey: "\<And>s. ws + int m \<le> s \<Longrightarrow> ev W y s = {}"
  shows "\<exists>w0 rest. win = w0 # rest \<and> win_ok w0 (cnt W y ws) \<and> length (rest @ [0]) = m
          \<and> (\<forall>i < m. win_ok ((rest @ [0]) ! i) (cnt W y (ws + 1 + int i)))
          \<and> (\<forall>s. ws + 1 + int m \<le> s \<longrightarrow> ev W y s = {})"
proof -
  obtain w0 rest where wr: "win = w0 # rest" using len m by (cases win) auto
  have lr: "length rest = m - 1" using len wr by simp
  have sl: "win_ok ((rest @ [0]) ! i) (cnt W y (ws + 1 + int i))" if i: "i < m" for i
  proof (cases "i < m - 1")
    case True
    then have e1: "(rest @ [0]) ! i = win ! (i + 1)" using lr wr by (simp add: nth_append)
    have e2: "ws + 1 + int i = ws + int (i + 1)" by simp
    have "win_ok (win ! (i + 1)) (cnt W y (ws + int (i + 1)))"
      by (rule ok) (use True in simp)
    then show ?thesis unfolding e1 e2 .
  next
    case False
    then have "i = m - 1" using i by simp
    then have "(rest @ [0]) ! i = 0" using lr by (simp add: nth_append)
    moreover have "ev W y (ws + 1 + int i) = {}"
      using bey[of "ws + 1 + int i"] \<open>i = m - 1\<close> i by simp
    ultimately show ?thesis by (simp add: cnt_def win_ok_zero)
  qed
  have "win_ok w0 (cnt W y ws)" using ok[of 0] m wr by simp
  moreover have "\<forall>s. ws + 1 + int m \<le> s \<longrightarrow> ev W y s = {}" using bey by simp
  ultimately show ?thesis using wr lr sl m by auto
qed

subsection \<open>\<^verbatim>\<open>process\<close> of the class of \<^verbatim>\<open>17_double_array_trie.cpp\<close>\<close>

definition proc_inv_dat :: "string \<Rightarrow> string list \<Rightarrow> machine_dat \<Rightarrow> string \<Rightarrow> bool" where
  "proc_inv_dat p lab N x \<longleftrightarrow>
     words_dat N = split_to_words p \<and> split_to_words p \<noteq> []
     \<and> pattern_size_dat N = int (length p) \<and> counter_dat N = int (length x)
     \<and> dfa_inv (split_to_words p) lab (nodes N)
     \<and> 1 \<le> mstate_dat N \<and> mstate_dat N \<le> length lab
     \<and> lab ! (mstate_dat N - 1) = lsuf (labels (split_to_words p)) x
     \<and> length (window_dat N) = length p
     \<and> window_start_dat N = int (length x + 1 - length p)
     \<and> (\<forall>i < length p. win_ok (window_dat N ! i)
            (cnt (split_to_words p) x (int (length x + 1 - length p) + int i)))
     \<and> (\<forall>s \<ge> int (length x + 1 - length p) + int (length p). ev (split_to_words p) x s = {})"

lemma proc_inv_datD:
  assumes "proc_inv_dat p lab N x"
  shows "words_dat N = split_to_words p" "split_to_words p \<noteq> []"
    "pattern_size_dat N = int (length p)" "counter_dat N = int (length x)"
    "dfa_inv (split_to_words p) lab (nodes N)"
    "1 \<le> mstate_dat N" "mstate_dat N \<le> length lab"
    "lab ! (mstate_dat N - 1) = lsuf (labels (split_to_words p)) x"
    "length (window_dat N) = length p"
    "window_start_dat N = int (length x + 1 - length p)"
    "\<And>i. i < length p \<Longrightarrow>
        win_ok (window_dat N ! i) (cnt (split_to_words p) x (int (length x + 1 - length p) + int i))"
    "\<And>s. int (length x + 1 - length p) + int (length p) \<le> s \<Longrightarrow> ev (split_to_words p) x s = {}"
  using assms unfolding proc_inv_dat_def by simp_all

lemma dfa_goto:
  assumes d: "dfa_inv W lab ns" and s: "1 \<le> s" "s \<le> length lab"
  shows "\<exists>t < length lab. goto_dat ns s c = Inr (Some (Suc t))
            \<and> lab ! t = lsuf (labels W) (lab ! (s - 1) @ [c])"
proof -
  have wf: "wf_dat ns" and l: "length ns = Suc (length lab)" using d by (simp_all add: dfa_inv_def)
  have "complete W lab ns (s - 1)" using d s unfolding dfa_inv_def by simp
  then obtain t where t: "t < length lab" "lab ! t = lsuf (labels W) (lab ! (s - 1) @ [c])"
    "links_dat (deref ns (Suc (s - 1))) c = int t + 1" unfolding complete_def by blast
  have "Suc t < length ns" using t(1) l by simp
  from nodes_at_Suc[OF wf this] have "goto_dat ns s c = Inr (Some (Suc t))"
    unfolding goto_dat_def get_link_def using t(3) s(1) by simp
  then show ?thesis using t(1,2) by blast
qed

lemma match_dat_eq:
  assumes "terminal_dat (deref (nodes M) s) \<longleftrightarrow> outputs_dat (deref (nodes M) s) \<noteq> []"
  shows "match_dat M k s =
     (case match_loop k (window_start_dat M) (outputs_dat (deref (nodes M) s)) (window_dat M) of
        Inl e \<Rightarrow> Inl e
      | Inr win \<Rightarrow> Inr (M\<lparr>window_dat := win\<rparr>))"
  using assms by (cases "terminal_dat (deref (nodes M) s)") (simp_all add: match_dat_def)

lemma process_dat_step:
  assumes pi: "proc_inv_dat p lab N x" and b: "short_ends p"
  shows "\<exists>N'. proc_inv_dat p lab N' (x @ [c])
               \<and> process_dat N c = Inr (N', report p (x @ [c]))"
proof -
  define W where "W = split_to_words p"
  define m where "m = length p"
  define k where "k = length x"
  define ws where "ws = int (k + 1 - m)"
  note d0 = proc_inv_datD[OF pi, folded W_def m_def k_def]
  have d10: "window_start_dat N = ws" using d0(10) by (simp add: ws_def)
  have d11: "\<And>i. i < m \<Longrightarrow> win_ok (window_dat N ! i) (cnt W x (ws + int i))"
    using d0(11) by (simp add: ws_def)
  have d12: "\<And>s. ws + int m \<le> s \<Longrightarrow> ev W x s = {}"
    using d0(12) by (simp add: ws_def)
  note b' = b
  have m0: "0 < m" using d0(2) unfolding m_def W_def by (cases p) (simp_all add: split_to_words_def)
  from dfa_goto[OF d0(5,6,7), of c] obtain t where
    t: "t < length lab" "goto_dat (nodes N) (mstate_dat N) c = Inr (Some (Suc t))"
       "lab ! t = lsuf (labels W) (lab ! (mstate_dat N - 1) @ [c])" by blast
  have labt: "lab ! t = lsuf (labels W) (x @ [c])"
    unfolding t(3) d0(8) using lsuf_step[OF labels_pclosed, of W x c] by simp
  define out where "out = outputs_dat (deref (nodes N) (Suc t))"
  have outs: "set out = out_lab W (x @ [c])" "distinct out"
    "terminal_dat (deref (nodes N) (Suc t)) \<longleftrightarrow> out \<noteq> []"
    using d0(5) t(1) labt out_lab_lsuf[of W "x @ [c]"] unfolding dfa_inv_def out_def by simp_all
  have nb: "\<forall>e \<in> out_lab W (x @ [c]). int (length x) - e - ws < int m"
    using no_bad_event[OF b', of x c] unfolding bad_event_def W_def m_def k_def ws_def
    by (auto simp: not_le)
  from window_step[OF d0(9) d11 d12 outs(1,2) nb] obtain win where
    w: "match_loop (int (length x) + 1) ws out (window_dat N) = Inr win" "length win = m"
       "\<And>i. i < m \<Longrightarrow> win_ok (win ! i) (cnt W (x @ [c]) (ws + int i))"
       "\<And>s. ws + int m \<le> s \<Longrightarrow> ev W (x @ [c]) s = {}"
    by blast
  define M1 where "M1 = N\<lparr>counter_dat := counter_dat N + 1, mstate_dat := Suc t\<rparr>"
  have tm: "terminal_dat (deref (nodes M1) (Suc t)) \<longleftrightarrow> outputs_dat (deref (nodes M1) (Suc t)) \<noteq> []"
    using outs(3) by (simp add: M1_def out_def)
  have md: "match_dat M1 (counter_dat M1) (mstate_dat M1) = Inr (M1\<lparr>window_dat := win\<rparr>)"
    unfolding M1_def using match_dat_eq[OF tm] w(1) d0(4) d10
    by (simp add: M1_def out_def k_def)
  have wN: "words_dat N \<noteq> []" using d0(1,2) by simp
  have pr: "process_dat N c =
      (if counter_dat N + 1 < pattern_size_dat N then Inr (M1\<lparr>window_dat := win\<rparr>, [])
       else (case win of
               [] \<Rightarrow> Inl OutOfRange
             | w0 # rest \<Rightarrow>
                 Inr (M1\<lparr>window_dat := rest @ [0], window_start_dat := window_start_dat N + 1\<rparr>,
                   if w0 = to_short (int (length (words_dat N)))
                   then [counter_dat N + 1 - pattern_size_dat N] else [])))"
  proof -
    have "process_dat N c =
      (case match_dat M1 (counter_dat M1) (mstate_dat M1) of
         Inl e \<Rightarrow> Inl e
       | Inr M2 \<Rightarrow>
           if counter_dat M2 < pattern_size_dat M2 then Inr (M2, [])
           else
             (case window_dat M2 of
                [] \<Rightarrow> Inl OutOfRange
              | w0 # win \<Rightarrow>
                  Inr (M2\<lparr>window_dat := win @ [0],
                           window_start_dat := window_start_dat M2 + 1\<rparr>,
                    if w0 = to_short (int (length (words_dat M2)))
                    then [counter_dat M2 - pattern_size_dat M2] else [])))"
      unfolding process_dat_def Let_def M1_def using wN t(2) by simp
    then show ?thesis unfolding md by (cases win) (simp_all add: M1_def)
  qed
  have kx: "length (x @ [c]) = k + 1" by (simp add: k_def)
  have st: "1 \<le> Suc t" "Suc t \<le> length lab" "lab ! (Suc t - 1) = lsuf (labels W) (x @ [c])"
    using t(1) labt by simp_all
  show ?thesis
  proof (cases "k + 1 < m")
    case True
    define N' where "N' = M1\<lparr>window_dat := win\<rparr>"
    have pr': "process_dat N c = Inr (N', [])"
      unfolding pr N'_def using True d0(3,4) by simp
    have ws0: "ws = 0" "int (k + 1 + 1 - m) = 0" using True by (simp_all add: ws_def)
    have "proc_inv_dat p lab N' (x @ [c])"
      unfolding proc_inv_dat_def kx W_def[symmetric] m_def[symmetric] ws0(2)
      using d0(1,2,3,4,5) d10 st w(2,3,4) ws0(1)
      by (simp add: N'_def M1_def)
    moreover have "report p (x @ [c]) = []"
      unfolding report_def using True by (simp add: m_def k_def)
    ultimately show ?thesis using pr' by auto
  next
    case False
    then have mk: "m \<le> k + 1" by simp
    from window_shift[OF w(2) m0 w(3,4)] obtain w0 rest where
      sh: "win = w0 # rest" "win_ok w0 (cnt W (x @ [c]) ws)" "length (rest @ [0]) = m"
          "\<And>i. i < m \<Longrightarrow> win_ok ((rest @ [0]) ! i) (cnt W (x @ [c]) (ws + 1 + int i))"
          "\<And>s. ws + 1 + int m \<le> s \<Longrightarrow> ev W (x @ [c]) s = {}"
      by blast
    define N' where "N' = M1\<lparr>window_dat := rest @ [0], window_start_dat := window_start_dat N + 1\<rparr>"
    have pr': "process_dat N c = Inr (N',
            if w0 = to_short (int (length W)) then [int k + 1 - int m] else [])"
      unfolding pr N'_def sh(1) using False d0(1,3,4) by simp
    have wsv: "ws = int (k + 1 - m)" "int (k + 1 + 1 - m) = ws + 1"
      using mk by (simp_all add: ws_def)
    have pi': "proc_inv_dat p lab N' (x @ [c])"
      unfolding proc_inv_dat_def kx W_def[symmetric] m_def[symmetric] wsv(2)
      using d0(1,2,3,4,5) d10 st sh(3,4,5)
      by (simp add: N'_def M1_def)
    define s where "s = k + 1 - m"
    have s1: "ws = int s" "int k + 1 - int m = int s" unfolding s_def ws_def using mk by simp_all
    have s2: "s + length p \<le> length (x @ [c])" unfolding s_def m_def[symmetric] kx using mk by simp
    have s3: "length (x @ [c]) - length p = s" unfolding s_def m_def k_def by simp
    have c1: "cnt W (x @ [c]) (int s) \<le> int (length W)" by (rule cnt_le)
    have c2: "length W \<le> 16384" unfolding W_def using b by (rule split_to_words_count_short)
    have "cnt W (x @ [c]) (int s) \<le> 32767" using c1 c2 by linarith
    then have veq: "w0 = cnt W (x @ [c]) (int s)" using sh(2) unfolding win_ok_def s1(1) by blast
    have ts: "to_short (int (length W)) = int (length W)" using c2 by (intro to_short_id) simp_all
    have "cnt W (x @ [c]) (int s) = int (length W) \<longleftrightarrow> occurs_at p (x @ [c]) s"
      unfolding W_def cnt_full_iff[OF b' s2] occurs_at_def using s2 by simp
    then have "w0 = to_short (int (length W)) \<longleftrightarrow> occurs_at p (x @ [c]) s"
      unfolding veq ts .
    then have "(if w0 = to_short (int (length W)) then [int k + 1 - int m] else [])
               = report p (x @ [c])"
      unfolding report_def s3 s1(2) using mk by (simp add: m_def k_def)
    then show ?thesis using pr' pi' by auto
  qed
qed

subsection \<open>What one call of \<^verbatim>\<open>process\<close> changes\<close>

lemma match_fields:
  assumes "match M k s = Inr M'"
  shows "store M' = store M" "mstate M' = mstate M" "pattern M' = pattern M"
    "pattern_size M' = pattern_size M" "words M' = words M"
  using assms unfolding match_def by (auto split: if_splits sum.splits)

lemma process_effect:
  assumes "process M c = Some (Inr (M', out))"
  shows "pattern M' = pattern M \<and> pattern_size M' = pattern_size M \<and> words M' = words M
       \<and> length (store M') = length (store M)
       \<and> (\<exists>path. (words M \<noteq> [] \<longrightarrow>
                    (\<exists>s. find_state (store M) (mstate M) c [] = Some (Inr (s, path))
                        \<and> goto (store M) s c = Some (mstate M')))
              \<and> (words M = [] \<longrightarrow> path = [])
              \<and> (\<forall>n \<in> set path. links (store M ! n) c = None)
              \<and> (\<forall>n < length (store M). store M' ! n =
                    (if n \<in> set path
                     then (store M ! n)\<lparr>links := (links (store M ! n))(c \<mapsto> mstate M')\<rparr>
                     else store M ! n)))"
proof (cases "words M = []")
  case True
  then have "store M' = store M" "pattern M' = pattern M" "pattern_size M' = pattern_size M"
    "words M' = words M"
    using assms unfolding process_def by (auto simp: Let_def split: if_splits)
  then show ?thesis using True by (intro conjI exI[of _ "[]"]) simp_all
next
  case False
  define M0 where "M0 = M\<lparr>counter := counter M + 1\<rparr>"
  have s0: "store M0 = store M" "mstate M0 = mstate M" "words M0 \<noteq> []"
    unfolding M0_def using False by simp_all
  from assms False obtain s path s1 M2 where
    fs: "find_state (store M) (mstate M) c [] = Some (Inr (s, path))"
    and g: "goto (store M) s c = Some s1"
    and m: "match (M0\<lparr>store := set_path (store M) path c s1, mstate := s1\<rparr>)
              (counter (M0\<lparr>store := set_path (store M) path c s1, mstate := s1\<rparr>))
              (mstate (M0\<lparr>store := set_path (store M) path c s1, mstate := s1\<rparr>)) = Inr M2"
    and st: "store M' = store M2" "mstate M' = mstate M2" "pattern M' = pattern M2"
      "pattern_size M' = pattern_size M2" "words M' = words M2"
    unfolding process_def M0_def[symmetric] Let_def using s0
    by (auto split: option.splits sum.splits prod.splits if_splits list.splits)
  note mf = match_fields[OF m]
  have e: "store M' = set_path (store M) path c (mstate M')" "mstate M' = s1"
    "pattern M' = pattern M" "pattern_size M' = pattern_size M" "words M' = words M"
    using st mf by (simp_all add: M0_def)
  have pn: "\<forall>n \<in> set path. links (store M ! n) c = None"
    using find_state_path[OF fs] by simp
  note sp = set_path_result[of "store M" path c "mstate M'"]
  have "\<forall>n < length (store M). store M' ! n =
                    (if n \<in> set path
                     then (store M ! n)\<lparr>links := (links (store M ! n))(c \<mapsto> mstate M')\<rparr>
                     else store M ! n)"
    unfolding e(1) using sp by simp
  moreover have "length (store M') = length (store M)" unfolding e(1) using sp by simp
  ultimately show ?thesis using e(2,3,4,5) fs g pn False by (intro conjI exI[of _ path]) auto
qed

lemma match_dat_fields:
  assumes "match_dat M k s = Inr M'"
  shows "nodes M' = nodes M" "pattern_dat M' = pattern_dat M"
    "pattern_size_dat M' = pattern_size_dat M" "words_dat M' = words_dat M"
  using assms unfolding match_dat_def by (auto split: if_splits sum.splits)

lemma process_dat_fields:
  assumes "process_dat M c = Inr (M', out)"
  shows "nodes M' = nodes M \<and> pattern_dat M' = pattern_dat M
       \<and> pattern_size_dat M' = pattern_size_dat M \<and> words_dat M' = words_dat M"
proof (cases "words_dat M = []")
  case True
  then show ?thesis using assms unfolding process_dat_def by (auto simp: Let_def split: if_splits)
next
  case False
  define M0 where "M0 = M\<lparr>counter_dat := counter_dat M + 1\<rparr>"
  have s0: "nodes M0 = nodes M" "mstate_dat M0 = mstate_dat M" "words_dat M0 \<noteq> []"
    unfolding M0_def using False by simp_all
  from assms obtain s1 M2 where
    m: "match_dat (M0\<lparr>mstate_dat := s1\<rparr>) (counter_dat (M0\<lparr>mstate_dat := s1\<rparr>))
              (mstate_dat (M0\<lparr>mstate_dat := s1\<rparr>)) = Inr M2"
    and st: "nodes M' = nodes M2" "pattern_dat M' = pattern_dat M2"
      "pattern_size_dat M' = pattern_size_dat M2" "words_dat M' = words_dat M2"
    unfolding process_dat_def M0_def[symmetric] Let_def using s0
    by (auto split: option.splits sum.splits prod.splits if_splits list.splits)
  show ?thesis using match_dat_fields[OF m] st by (simp add: M0_def)
qed

lemma initial_proc_inv_dat:
  assumes w: "split_to_words p \<noteq> []" and b: "short_ids p"
  shows "\<exists>N lab. PatternMatchingMachine_dat p = Some (Inr N) \<and> proc_inv_dat p lab N []"
proof -
  from PatternMatchingMachine_dat_correct[OF b] obtain N lab where
    N: "PatternMatchingMachine_dat p = Some (Inr N)"
       "dfa_inv (split_to_words p) lab (nodes N)"
       "words_dat N = split_to_words p"
       "pattern_size_dat N = int (length p)" "mstate_dat N = root_dat" "counter_dat N = 0"
       "window_dat N = replicate (length p) 0" "window_start_dat N = 0"
    by blast
  have m: "0 < length p" using w by (cases p) (simp_all add: split_to_words_def)
  have l: "0 < length lab" "lab ! 0 = []" using N(2) by (simp_all add: dfa_inv_def)
  have z: "length [] + 1 - length p = 0" using m by (cases p) simp_all
  have "proc_inv_dat p lab N []"
    unfolding proc_inv_dat_def using N w m l z
    by (simp add: root_dat_def ev_Nil cnt_def win_ok_zero Suc_le_eq)
  with N(1) show ?thesis by blast
qed

text \<open>The pattern \<open>a?\<close> and the symbol \<open>a\<close>: the class takes the transition and counts the segment.\<close>

lemma process_dat_example:
  "\<exists>N N'. PatternMatchingMachine_dat ''a?'' = Some (Inr N)
      \<and> process_dat N CHR ''a'' = Inr (N', []) \<and> mstate_dat N = 1 \<and> mstate_dat N' \<noteq> 1
      \<and> window_dat N = [0, 0] \<and> window_dat N' = [1, 0]"
proof -
  define p where "p = ''a?''"
  have W: "split_to_words p = [(''a'', 0)]" by (simp add: p_def split_to_words_def to_short_def)
  have lp: "length p = 2" by (simp add: p_def)
  have b: "short_ids p" by (rule short_ids_bounded) (simp add: p_def)
  have se: "short_ends p" by (rule short_ends_bounded) (simp add: p_def)
  from PatternMatchingMachine_dat_correct[OF b] obtain N where
    N: "PatternMatchingMachine_dat p = Some (Inr N)" "mstate_dat N = root_dat"
       "window_dat N = replicate (length p) 0" by blast
  from initial_proc_inv_dat[OF _ b] W obtain N0 lab where
    i: "PatternMatchingMachine_dat p = Some (Inr N0)" "proc_inv_dat p lab N0 []" by auto
  have e: "N0 = N" using N(1) i(1) by simp
  from process_dat_step[OF i(2) se, of "CHR ''a''"] obtain N' where
    s: "proc_inv_dat p lab N' ([] @ ''a'')" "process_dat N0 CHR ''a'' = Inr (N', report p ([] @ ''a''))"
    by blast
  have r: "report p ([] @ ''a'') = []" by (simp add: report_def lp)
  note d0 = proc_inv_datD[OF i(2)]
  note d = proc_inv_datD[OF s(1)]
  have o: "out_lab (split_to_words p) ''a'' = {0}" unfolding W out_lab_def by auto
  have l0: "lab ! 0 = []" "distinct lab" "0 < length lab" using d(5) by (simp_all add: dfa_inv_def)
  have "''a'' \<in> labels (split_to_words p)" unfolding W labels_def by auto
  then have "lab ! (mstate_dat N' - 1) = ''a''" using d(8) by simp
  then have ms: "mstate_dat N' \<noteq> 1" using l0(1) by auto
  have c0: "cnt (split_to_words p) ''a'' 0 = 1"
    using cnt_snoc[of "split_to_words p" "[]" "CHR ''a''" 0] o by (simp add: cnt_def ev_Nil)
  have c1: "cnt (split_to_words p) ''a'' 1 = 0"
    using cnt_snoc[of "split_to_words p" "[]" "CHR ''a''" 1] o by (simp add: cnt_def ev_Nil)
  have "win_ok (window_dat N' ! 0) (cnt (split_to_words p) ''a'' 0)"
       "win_ok (window_dat N' ! 1) (cnt (split_to_words p) ''a'' 1)"
    using d(11)[of 0] d(11)[of 1] lp by simp_all
  then have w01: "window_dat N' ! 0 = 1" "window_dat N' ! 1 = 0"
    unfolding c0 c1 win_ok_def by simp_all
  have "length (window_dat N') = 2" using d(9) lp by simp
  then have wn: "window_dat N' = [1, 0]" using w01
    by (cases "window_dat N'"; cases "tl (window_dat N')") auto
  have "window_dat N = [0, 0]" using N(3) lp by (simp add: numeral_2_eq_2)
  then show ?thesis
    using N(1,2) s(2) r ms wn unfolding e p_def by (intro exI[of _ N] exI[of _ N']) (simp add: root_dat_def)
qed

lemma step_ab:
  "process M_ab CHR ''a'' = Some (Inr (M_ab\<lparr>mstate := 1, counter := 1\<rparr>, []))"
  by (simp add: M_ab_def process_def find_state.simps goto_def failure_def new_node_def root_def
      match_def Let_def)

lemma step_ab2:
  "\<exists>M2 out2. process (M_ab\<lparr>mstate := 1, counter := 1\<rparr>) CHR ''a'' = Some (Inr (M2, out2))"
  by (simp add: M_ab_def process_def find_state.simps goto_def failure_def new_node_def root_def
      match_def Let_def)

text \<open>
  Claim C4, as the code has it. One call of \<^verbatim>\<open>process\<close> of \<^verbatim>\<open>17.cpp\<close> leaves the pattern,
  its size and the segments as they are, and changes the automaton in one way only: every
  state on the \<open>path\<close> that the walk along the failure links has left, which had no edge on
  the symbol \<open>c\<close>, gets the state finally reached as its edge on \<open>c\<close>; every other state, and
  every other field of the states on the path (failure link, output set, terminal flag, the
  other edges), stays as it is. With no segment there is no walk and nothing changes. So
  over a whole text the states, failure links, output sets, terminal flags and all existing
  edges are kept (\<open>frame\<close>). In \<^verbatim>\<open>17_double_array_trie.cpp\<close>, \<^verbatim>\<open>process\<close> leaves the vector of
  nodes, the pattern, its size and the segments as they are: only the current state, the
  counter, the window and its start change.
\<close>

theorem process_keeps_automaton:
  "(process M c = Some (Inr (M', out)) \<longrightarrow>
      pattern M' = pattern M \<and> pattern_size M' = pattern_size M \<and> words M' = words M
      \<and> length (store M') = length (store M)
      \<and> (\<exists>path. (words M \<noteq> [] \<longrightarrow>
                    (\<exists>s. find_state (store M) (mstate M) c [] = Some (Inr (s, path))
                        \<and> goto (store M) s c = Some (mstate M')))
              \<and> (words M = [] \<longrightarrow> path = [])
              \<and> (\<forall>n \<in> set path. links (store M ! n) c = None)
              \<and> (\<forall>n < length (store M). store M' ! n =
                    (if n \<in> set path
                     then (store M ! n)\<lparr>links := (links (store M ! n))(c \<mapsto> mstate M')\<rparr>
                     else store M ! n))))
   \<and> (process_all M0 t = Some (Inr (M1, out1)) \<longrightarrow> frame (store M0) (store M1))
   \<and> (process_dat N c' = Inr (N', out') \<longrightarrow>
        nodes N' = nodes N \<and> pattern_dat N' = pattern_dat N
        \<and> pattern_size_dat N' = pattern_size_dat N \<and> words_dat N' = words_dat N)"
proof (intro conjI impI)
  assume a: "process M c = Some (Inr (M', out))"
  note e = process_effect[OF a]
  show "pattern M' = pattern M" "pattern_size M' = pattern_size M" "words M' = words M"
    "length (store M') = length (store M)"
    using e by blast+
  show "\<exists>path. (words M \<noteq> [] \<longrightarrow>
                    (\<exists>s. find_state (store M) (mstate M) c [] = Some (Inr (s, path))
                        \<and> goto (store M) s c = Some (mstate M')))
              \<and> (words M = [] \<longrightarrow> path = [])
              \<and> (\<forall>n \<in> set path. links (store M ! n) c = None)
              \<and> (\<forall>n < length (store M). store M' ! n =
                    (if n \<in> set path
                     then (store M ! n)\<lparr>links := (links (store M ! n))(c \<mapsto> mstate M')\<rparr>
                     else store M ! n))"
    using e by blast
next
  assume "process_all M0 t = Some (Inr (M1, out1))"
  then show "frame (store M0) (store M1)" by (rule process_all_frame)
next
  assume a: "process_dat N c' = Inr (N', out')"
  show "nodes N' = nodes N" "pattern_dat N' = pattern_dat N"
    "pattern_size_dat N' = pattern_size_dat N" "words_dat N' = words_dat N"
    using process_dat_fields[OF a] by blast+
qed

theorem process_keeps_automaton_witness:
  "(\<exists>M M1 M2 out1 out2. PatternMatchingMachine ''ab'' = Some (Inr M)
      \<and> process M CHR ''a'' = Some (Inr (M1, out1))
      \<and> process M1 CHR ''a'' = Some (Inr (M2, out2))
      \<and> find_state (store M1) (mstate M1) CHR ''a'' [] = Some (Inr (0, [1]))
      \<and> mstate M2 = 1 \<and> length (store M2) = 3
      \<and> store M2 ! 0 = store M1 ! 0
      \<and> store M2 ! 1 = (store M1 ! 1)\<lparr>links := (links (store M1 ! 1))(CHR ''a'' \<mapsto> 1)\<rparr>
      \<and> store M2 ! 2 = store M1 ! 2
      \<and> words M2 = words M1 \<and> frame (store M) (store M2))
   \<and> (\<exists>N N'. PatternMatchingMachine_dat ''a?'' = Some (Inr N)
      \<and> process_dat N CHR ''a'' = Inr (N', [])
      \<and> mstate_dat N' \<noteq> mstate_dat N \<and> window_dat N' \<noteq> window_dat N
      \<and> nodes N' = nodes N \<and> pattern_dat N' = pattern_dat N
      \<and> pattern_size_dat N' = pattern_size_dat N \<and> words_dat N' = words_dat N)"
proof -
  define M1 where "M1 = M_ab\<lparr>mstate := 1, counter := 1\<rparr>"
  have p1: "process M_ab CHR ''a'' = Some (Inr (M1, []))" unfolding M1_def by (rule step_ab)
  from step_ab2 obtain M2 out2 where
    p2: "process M1 CHR ''a'' = Some (Inr (M2, out2))" unfolding M1_def by blast
  have pa: "process_all M_ab ''aa'' = Some (Inr (M2, [] @ out2 @ []))"
    using p1 p2 by simp
  from process_dat_example obtain N N' where
    n: "PatternMatchingMachine_dat ''a?'' = Some (Inr N)"
       "process_dat N CHR ''a'' = Inr (N', [])" "mstate_dat N = 1" "mstate_dat N' \<noteq> 1"
       "window_dat N = [0, 0]" "window_dat N' = [1, 0]"
    by blast
  note th = process_keeps_automaton[of M1 "CHR ''a''" M2 out2 M_ab "''aa''" M2 "[] @ out2 @ []"
      N "CHR ''a''" N' "[]"]
  have s1: "store M1 = store M_ab" "mstate M1 = 1" "words M1 = [(''ab'', 1)]" "length (store M1) = 3"
    by (simp_all add: M1_def M_ab_def)
  have fs: "find_state (store M1) (mstate M1) CHR ''a'' [] = Some (Inr (0, [1]))"
    unfolding s1 by (rule find_ab)
  from th p2 obtain path where
    e: "words M2 = words M1" "length (store M2) = length (store M1)"
       "words M1 \<noteq> [] \<longrightarrow>
           (\<exists>s. find_state (store M1) (mstate M1) CHR ''a'' [] = Some (Inr (s, path))
               \<and> goto (store M1) s CHR ''a'' = Some (mstate M2))"
       "\<forall>n < length (store M1). store M2 ! n =
                    (if n \<in> set path
                     then (store M1 ! n)\<lparr>links := (links (store M1 ! n))(CHR ''a'' \<mapsto> mstate M2)\<rparr>
                     else store M1 ! n)"
    by blast
  from e(3) fs s1(3) have pe: "path = [1]" and g: "goto (store M1) 0 CHR ''a'' = Some (mstate M2)"
    by auto
  have "goto (store M1) 0 CHR ''a'' = Some 1"
    unfolding s1 by (simp add: M_ab_def goto_def new_node_def)
  then have ms: "mstate M2 = 1" using g by simp
  have n0: "store M2 ! 0 = store M1 ! 0"
    and n1: "store M2 ! 1 = (store M1 ! 1)\<lparr>links := (links (store M1 ! 1))(CHR ''a'' \<mapsto> 1)\<rparr>"
    and n2: "store M2 ! 2 = store M1 ! 2"
    using e(4) s1(4) unfolding pe ms by simp_all
  have fr: "frame (store M_ab) (store M2)" using th pa by blast
  have nf: "nodes N' = nodes N \<and> pattern_dat N' = pattern_dat N
        \<and> pattern_size_dat N' = pattern_size_dat N \<and> words_dat N' = words_dat N"
    using th n(2) by blast
  have A: "\<exists>M M1 M2 out1 out2. PatternMatchingMachine ''ab'' = Some (Inr M)
      \<and> process M CHR ''a'' = Some (Inr (M1, out1))
      \<and> process M1 CHR ''a'' = Some (Inr (M2, out2))
      \<and> find_state (store M1) (mstate M1) CHR ''a'' [] = Some (Inr (0, [1]))
      \<and> mstate M2 = 1 \<and> length (store M2) = 3
      \<and> store M2 ! 0 = store M1 ! 0
      \<and> store M2 ! 1 = (store M1 ! 1)\<lparr>links := (links (store M1 ! 1))(CHR ''a'' \<mapsto> 1)\<rparr>
      \<and> store M2 ! 2 = store M1 ! 2
      \<and> words M2 = words M1 \<and> frame (store M) (store M2)"
    using pm_ab p1 p2 fs ms e(1,2) s1(4) n0 n1 n2 fr
    by (intro exI[of _ M_ab] exI[of _ M1] exI[of _ M2] exI[of _ "[]"] exI[of _ out2]) simp
  have B: "\<exists>N N'. PatternMatchingMachine_dat ''a?'' = Some (Inr N)
      \<and> process_dat N CHR ''a'' = Inr (N', [])
      \<and> mstate_dat N' \<noteq> mstate_dat N \<and> window_dat N' \<noteq> window_dat N
      \<and> nodes N' = nodes N \<and> pattern_dat N' = pattern_dat N
      \<and> pattern_size_dat N' = pattern_size_dat N \<and> words_dat N' = words_dat N"
    using n nf by (intro exI[of _ N] exI[of _ N']) simp
  show ?thesis using A B by blast
qed

subsection \<open>The index into the window that \<^verbatim>\<open>match\<close> computes\<close>

lemma process_all_dat_bounded:
  assumes "proc_inv_dat p lab N x" "short_ends p"
  shows "\<exists>N'. proc_inv_dat p lab N' (x @ t)
          \<and> process_all_dat N t = Inr (N',
               concat (map (\<lambda>k. report p (take k (x @ t)))
                           [length x + 1 ..< length x + length t + 1]))"
  using assms
proof (induction t arbitrary: N x)
  case Nil
  then show ?case by simp
next
  case (Cons c cs)
  from process_dat_step[OF Cons.prems, of c] obtain N1 where
    m1: "proc_inv_dat p lab N1 (x @ [c])" "process_dat N c = Inr (N1, report p (x @ [c]))"
    by blast
  from Cons.IH[OF m1(1) Cons.prems(2)] obtain N2 where
    m2: "proc_inv_dat p lab N2 ((x @ [c]) @ cs)"
        "process_all_dat N1 cs = Inr (N2,
               concat (map (\<lambda>k. report p (take k ((x @ [c]) @ cs)))
                           [length (x @ [c]) + 1 ..< length (x @ [c]) + length cs + 1]))"
    by blast
  have u: "[length x + 1 ..< length x + length (c # cs) + 1]
           = (length x + 1) # [length (x @ [c]) + 1 ..< length (x @ [c]) + length cs + 1]"
    using upt_conv_Cons[of "length x + 1" "length x + length (c # cs) + 1"] by simp
  have t: "take (length x + 1) (x @ c # cs) = x @ [c]" by simp
  have "process_all_dat N (c # cs) = Inr (N2,
               concat (map (\<lambda>k. report p (take k (x @ c # cs)))
                           [length x + 1 ..< length x + length (c # cs) + 1]))"
    unfolding u using m1(2) m2(2) t by simp
  with m2(1) show ?case by auto
qed

lemma run_dat_bounded:
  assumes w: "split_to_words p \<noteq> []" and b: "short_ids p" and se: "short_ends p"
  shows "\<exists>N lab. run_dat p t = Some (Inr (N, alignments p t)) \<and> proc_inv_dat p lab N t"
proof -
  from initial_proc_inv_dat[OF w b] obtain N0 lab where
    i: "PatternMatchingMachine_dat p = Some (Inr N0)" "proc_inv_dat p lab N0 []" by blast
  from process_all_dat_bounded[OF i(2) se, of t] obtain N where
    n: "proc_inv_dat p lab N ([] @ t)"
       "process_all_dat N0 t = Inr (N, concat (map (\<lambda>k. report p (take k ([] @ t)))
                           [length ([] :: string) + 1 ..< length ([] :: string) + length t + 1]))"
    by blast
  have m: "0 < length p" using w by (cases p) (simp_all add: split_to_words_def)
  have "concat (map (\<lambda>k. report p (take k t)) [1 ..< length t + 1]) = alignments p t"
    unfolding alignments_def using report_sum[OF m, of "length t" t] by simp
  then have "process_all_dat N0 t = Inr (N, alignments p t)" using n(2) by simp
  then have "run_dat p t = Some (Inr (N, alignments p t))" unfolding run_dat_def using i(1) by simp
  then show ?thesis using n(1) by auto
qed





section \<open>The index into the window\<close>




subsection \<open>The transitions after \<^verbatim>\<open>build\<close>\<close>

lemma process_all_dat_nodes:
  "process_all_dat N t = Inr (N', out) \<Longrightarrow> nodes N' = nodes N"
proof (induction t arbitrary: N N' out)
  case Nil
  then show ?case by auto
next
  case (Cons c cs)
  from Cons.prems obtain N1 o1 N2 o2 where
    s: "process_dat N c = Inr (N1, o1)" "process_all_dat N1 cs = Inr (N2, o2)" "N' = N2"
    by (auto split: sum.splits prod.splits)
  show ?case using Cons.IH[OF s(2)] process_dat_nodes[OF s(1)] s(3) by simp
qed

lemma dfa_total:
  assumes d: "dfa_inv W lab ns" and s: "1 \<le> s" "s < length ns"
  shows "\<exists>s'. goto_dat ns s c = Inr (Some s') \<and> 1 \<le> s' \<and> s' < length ns"
proof -
  have l: "length ns = Suc (length lab)" using d by (simp add: dfa_inv_def)
  have "s \<le> length lab" using s(2) l by simp
  from dfa_goto[OF d s(1) this, of c] obtain t where
    "t < length lab" "goto_dat ns s c = Inr (Some (Suc t))" by blast
  then show ?thesis using l by simp
qed

lemma process_dat_transition:
  assumes pi: "proc_inv_dat p lab N x" and b: "short_ends p"
  shows "\<exists>s' N' out. 1 \<le> mstate_dat N \<and> mstate_dat N < length (nodes N)
            \<and> goto_dat (nodes N) (mstate_dat N) c = Inr (Some s')
            \<and> process_dat N c = Inr (N', out) \<and> mstate_dat N' = s'"
proof -
  define W where "W = split_to_words p"
  note d = proc_inv_datD[OF pi, folded W_def]
  have l: "length (nodes N) = Suc (length lab)" "distinct lab"
    using d(5) by (simp_all add: dfa_inv_def)
  from dfa_goto[OF d(5,6,7), of c] obtain t where
    t: "t < length lab" "goto_dat (nodes N) (mstate_dat N) c = Inr (Some (Suc t))"
       "lab ! t = lsuf (labels W) (lab ! (mstate_dat N - 1) @ [c])" by blast
  have labt: "lab ! t = lsuf (labels W) (x @ [c])"
    unfolding t(3) d(8) using lsuf_step[OF labels_pclosed, of W x c] by simp
  from process_dat_step[OF pi b, of c] obtain N' where
    n: "proc_inv_dat p lab N' (x @ [c])" "process_dat N c = Inr (N', report p (x @ [c]))" by blast
  note d' = proc_inv_datD[OF n(1), folded W_def]
  have "mstate_dat N' - 1 < length lab" using d'(6,7) by simp
  moreover have "lab ! (mstate_dat N' - 1) = lab ! t" using d'(8) labt by simp
  ultimately have "mstate_dat N' - 1 = t" using l(2) t(1) by (simp add: nth_eq_iff_index_eq)
  then have "mstate_dat N' = Suc t" using d'(6) by simp
  then show ?thesis using t(2) n(2) d(6,7) l(1) by simp
qed

section \<open>The transition function after \<^verbatim>\<open>build\<close>\<close>

text \<open>
  Claim C3 fails on \<^verbatim>\<open>17.cpp\<close>, whose \<^verbatim>\<open>build\<close> ends with \<^verbatim>\<open>build_failure\<close> and completes no
  transition. For the pattern \<open>ab\<close> the constructor returns the machine \<open>M_ab\<close>; its state 1
  (label \<open>a\<close>) has no transition on \<open>a\<close>: \<^verbatim>\<open>goto_\<close> returns the null pointer. After the text
  \<open>a\<close> the machine is in state 1, and on the next symbol \<open>a\<close> the loop of \<^verbatim>\<open>process\<close> follows
  the failure link of state 1 to the root before it finds a transition.
\<close>

theorem goto_partial_counterexample:
  "PatternMatchingMachine ''ab'' = Some (Inr M_ab)
   \<and> goto (store M_ab) 1 CHR ''a'' = None
   \<and> process M_ab CHR ''a'' = Some (Inr (M_ab\<lparr>mstate := 1, counter := 1\<rparr>, []))
   \<and> find_state (store (M_ab\<lparr>mstate := 1, counter := 1\<rparr>))
        (mstate (M_ab\<lparr>mstate := 1, counter := 1\<rparr>)) CHR ''a'' [] = Some (Inr (0, [1]))
   \<and> failure (store M_ab) 1 = Some 0"
  using pm_ab goto_ab step_ab find_ab by (simp add: failure_def M_ab_def)

text \<open>
  Claim C3, as the code has it: it holds for \<^verbatim>\<open>17_double_array_trie.cpp\<close>, whose \<^verbatim>\<open>build\<close>
  ends with \<^verbatim>\<open>do_bfs\<close>. The node ids of this file are shorts, so the trie of the pattern
  must have at most 32767 states (\<open>short_ids\<close>; every pattern of at most 32766 symbols is
  such a pattern). Then the constructor returns a machine \<open>N\<close>; its states are the indices
  from 1 on of the vector \<open>nodes\<close> (index 0 holds the null pointer), and for every state \<open>s\<close>
  and every byte \<open>c\<close>, \<^verbatim>\<open>goto_(s, c)\<close> is a state, never the null pointer. When the pattern
  has a segment and its end offsets fit a short (\<open>short_ends\<close>), after the calls of
  \<^verbatim>\<open>process\<close> on any text the vector of nodes is still that of \<open>N\<close>, and \<^verbatim>\<open>process\<close> on a
  next symbol \<open>c\<close> returns with the state \<^verbatim>\<open>goto_(state_, c)\<close>: one transition, no failure
  link followed. (With no segment \<^verbatim>\<open>process\<close> does not look at the automaton.)
\<close>

theorem transitions_total:
  assumes "short_ids p"
  shows "\<exists>N. PatternMatchingMachine_dat p = Some (Inr N)
      \<and> (\<forall>s c. 1 \<le> s \<and> s < length (nodes N) \<longrightarrow>
            (\<exists>s'. goto_dat (nodes N) s c = Inr (Some s') \<and> 1 \<le> s' \<and> s' < length (nodes N)))
      \<and> (split_to_words p \<noteq> [] \<and> short_ends p \<longrightarrow>
            (\<forall>t c. \<exists>N1 out s' N' out'. run_dat p t = Some (Inr (N1, out))
                \<and> nodes N1 = nodes N
                \<and> 1 \<le> mstate_dat N1 \<and> mstate_dat N1 < length (nodes N)
                \<and> goto_dat (nodes N) (mstate_dat N1) c = Inr (Some s')
                \<and> process_dat N1 c = Inr (N', out') \<and> mstate_dat N' = s'))"
proof -
  from PatternMatchingMachine_dat_correct[OF assms] obtain N lab where
    N: "PatternMatchingMachine_dat p = Some (Inr N)" "dfa_inv (split_to_words p) lab (nodes N)"
    by blast
  have a: "\<forall>s c. 1 \<le> s \<and> s < length (nodes N) \<longrightarrow>
            (\<exists>s'. goto_dat (nodes N) s c = Inr (Some s') \<and> 1 \<le> s' \<and> s' < length (nodes N))"
    using dfa_total[OF N(2)] by blast
  have b: "\<exists>N1 out s' N' out'. run_dat p t = Some (Inr (N1, out))
                \<and> nodes N1 = nodes N
                \<and> 1 \<le> mstate_dat N1 \<and> mstate_dat N1 < length (nodes N)
                \<and> goto_dat (nodes N) (mstate_dat N1) c = Inr (Some s')
                \<and> process_dat N1 c = Inr (N', out') \<and> mstate_dat N' = s'"
    if w: "split_to_words p \<noteq> []" and se: "short_ends p" for t c
  proof -
    from run_dat_bounded[OF w assms se, of t] obtain N1 lab1 where
      r: "run_dat p t = Some (Inr (N1, alignments p t))" "proc_inv_dat p lab1 N1 t" by blast
    have "process_all_dat N t = Inr (N1, alignments p t)"
      using r(1) N(1) unfolding run_dat_def by simp
    then have e: "nodes N1 = nodes N" by (rule process_all_dat_nodes)
    from process_dat_transition[OF r(2) se, of c] show ?thesis using r(1) e by auto
  qed
  show ?thesis using N(1) a b by blast
qed

theorem transitions_total_witness:
  "\<exists>N. PatternMatchingMachine_dat ''ab'' = Some (Inr N)
      \<and> (\<exists>s'. goto_dat (nodes N) 1 CHR ''a'' = Inr (Some s') \<and> 1 \<le> s' \<and> s' < length (nodes N))
      \<and> (\<exists>N1 out s' N' out'. run_dat ''ab'' ''a'' = Some (Inr (N1, out))
            \<and> nodes N1 = nodes N
            \<and> goto_dat (nodes N) (mstate_dat N1) CHR ''a'' = Inr (Some s')
            \<and> process_dat N1 CHR ''a'' = Inr (N', out') \<and> mstate_dat N' = s')"
proof -
  have b: "short_ids ''ab''" by (rule short_ids_bounded) simp
  have w: "split_to_words ''ab'' \<noteq> [] \<and> short_ends ''ab''"
    by (simp add: split_to_words_def to_short_def short_ends_bounded)
  from transitions_total[OF b] obtain N where
    N: "PatternMatchingMachine_dat ''ab'' = Some (Inr N)"
       "\<forall>s c. 1 \<le> s \<and> s < length (nodes N) \<longrightarrow>
            (\<exists>s'. goto_dat (nodes N) s c = Inr (Some s') \<and> 1 \<le> s' \<and> s' < length (nodes N))"
       "split_to_words ''ab'' \<noteq> [] \<and> short_ends ''ab'' \<longrightarrow>
            (\<forall>t c. \<exists>N1 out s' N' out'. run_dat ''ab'' t = Some (Inr (N1, out))
                \<and> nodes N1 = nodes N
                \<and> 1 \<le> mstate_dat N1 \<and> mstate_dat N1 < length (nodes N)
                \<and> goto_dat (nodes N) (mstate_dat N1) c = Inr (Some s')
                \<and> process_dat N1 c = Inr (N', out') \<and> mstate_dat N' = s')"
    by blast
  from N(3) w obtain N1 out s' N' out' where
    r: "run_dat ''ab'' ''a'' = Some (Inr (N1, out))" "nodes N1 = nodes N"
       "1 \<le> mstate_dat N1" "mstate_dat N1 < length (nodes N)"
       "goto_dat (nodes N) (mstate_dat N1) CHR ''a'' = Inr (Some s')"
       "process_dat N1 CHR ''a'' = Inr (N', out')" "mstate_dat N' = s'"
    by blast
  have "1 < length (nodes N)" using r(3,4) by simp
  with N(2) have "\<exists>s'. goto_dat (nodes N) 1 CHR ''a'' = Inr (Some s') \<and> 1 \<le> s' \<and> s' < length (nodes N)"
    by simp
  with N(1) r show ?thesis by blast
qed

subsection \<open>\<^verbatim>\<open>17_double_array_trie.cpp\<close>: the failure links after \<^verbatim>\<open>build\<close>\<close>





section \<open>The failure links after \<^verbatim>\<open>build\<close>\<close>




subsection \<open>The flat tables\<close>




lemma of_char_less: "(of_char c :: nat) < 256"
  by simp



subsection \<open>The circular window of \<^verbatim>\<open>main\<close>\<close>




subsection \<open>The loop of \<^verbatim>\<open>main\<close> of \<^verbatim>\<open>17_double_array_trie.cpp\<close>\<close>











subsection \<open>What the two programs read\<close>




subsection \<open>The alignments\<close>









section \<open>The offsets that the two programs print\<close>




section \<open>The two programs against each other\<close>




section \<open>The pattern of length 0\<close>




end
